(* ===== verification/Prelude.thy ===== *)
theory Prelude
  imports Main "HOL-Library.Word"
begin

text \<open>
  Shared vocabulary of the development: machine integers at the widths the C code uses,
  kernel addresses, the faults a kernel path can end in, the result type of fallible code,
  and reachability over a step relation with the contract every module's invariant meets.
\<close>

section \<open>Machine integers and addresses\<close>

type_synonym u16 = "16 word"
type_synonym u32 = "32 word"
type_synonym u64 = "64 word"

lemma unat_u64_of_u32 [simp]: "unat (ucast (w :: u32) :: u64) = unat w"
  using unsigned_less [of w, where ?'a = nat] by (simp add: unsigned_ucast_eq take_bit_nat_eq_self)

lemma u64_of_u32_eq [simp]: "(ucast (v :: u32) :: u64) = ucast w \<longleftrightarrow> v = w"
  by (metis unat_u64_of_u32 word_unat_eq_iff)

text \<open>A C pointer is an \<open>addr option\<close>; \<open>None\<close> is the null pointer.\<close>

type_synonym addr = nat

section \<open>Faults and results\<close>

text \<open>
  A path of the modules either returns or ends in one of these faults:
  a null (or zero-size) pointer is dereferenced, a division by zero traps, a lock that nobody
  will release is waited for, a write leaves its buffer, a freed object is read, or a pending timer
  is initialised again.
\<close>

datatype fault =
    NullDeref
  | DivideError
  | Deadlock
  | BufferOverflow
  | UseAfterFree
  | ListCorrupt
  | TimerReinit

type_synonym 'a result = "fault + 'a"

fun rbind :: "'a result \<Rightarrow> ('a \<Rightarrow> 'b result) \<Rightarrow> 'b result" where
  "rbind (Inl e) f = Inl e"
| "rbind (Inr x) f = f x"

named_theorems result_simps "how a sequenced computation returns or faults"

lemma rbind_eq_Inr [result_simps]:
  "rbind m f = Inr y \<longleftrightarrow> (\<exists>x. m = Inr x \<and> f x = Inr y)"
  by (cases m) auto

lemma rbind_eq_Inl [result_simps]:
  "rbind m f = Inl e \<longleftrightarrow> m = Inl e \<or> (\<exists>x. m = Inr x \<and> f x = Inl e)"
  by (cases m) auto

lemma rbind_cong [fundef_cong]:
  "m = m' \<Longrightarrow> (\<And>x. m' = Inr x \<Longrightarrow> f x = g x) \<Longrightarrow> rbind m f = rbind m' g"
  by (cases m') auto

lemma rbind_assoc: "rbind (rbind m f) g = rbind m (\<lambda>x. rbind (f x) g)"
  by (cases m) auto

text \<open>
  \<open>ends m F Q\<close>: the computation ends in a fault of \<open>F\<close> or returns a value with \<open>Q\<close>. The rules
  follow the code: a sequence is checked part by part.
\<close>

definition ends :: "'a result \<Rightarrow> fault set \<Rightarrow> ('a \<Rightarrow> bool) \<Rightarrow> bool" where
  "ends m F Q \<longleftrightarrow> (case m of Inl e \<Rightarrow> e \<in> F | Inr x \<Rightarrow> Q x)"

lemma ends_simps [simp]:
  "ends (Inr x) F Q \<longleftrightarrow> Q x"
  "ends (Inl e) F Q \<longleftrightarrow> e \<in> F"
  by (simp_all add: ends_def)

lemma ends_rbind: "ends m F P \<Longrightarrow> (\<And>x. P x \<Longrightarrow> ends (f x) F Q) \<Longrightarrow> ends (rbind m f) F Q"
  by (cases m) auto

lemma ends_mono: "ends m F P \<Longrightarrow> F \<subseteq> G \<Longrightarrow> (\<And>x. P x \<Longrightarrow> Q x) \<Longrightarrow> ends m G Q"
  by (cases m) auto

lemma ends_Inr: "ends m F Q \<Longrightarrow> m = Inr x \<Longrightarrow> Q x"
  by simp

lemma ends_Inl: "ends m F Q \<Longrightarrow> m = Inl e \<Longrightarrow> e \<in> F"
  by simp

section \<open>Reachable states\<close>

inductive reach :: "('s \<Rightarrow> bool) \<Rightarrow> ('s \<Rightarrow> 's \<Rightarrow> bool) \<Rightarrow> 's \<Rightarrow> bool"
  for start :: "'s \<Rightarrow> bool" and step :: "'s \<Rightarrow> 's \<Rightarrow> bool" where
  reach_start: "start s \<Longrightarrow> reach start step s"
| reach_step: "reach start step s \<Longrightarrow> step s t \<Longrightarrow> reach start step t"

text \<open>
  The contract of a module's invariant: it holds in every start state and every step keeps it.
\<close>

locale inductive_invariant =
  fixes start :: "'s \<Rightarrow> bool"
    and step :: "'s \<Rightarrow> 's \<Rightarrow> bool"
    and inv :: "'s \<Rightarrow> bool"
  assumes inv_start: "start s \<Longrightarrow> inv s"
    and inv_step: "inv s \<Longrightarrow> step s t \<Longrightarrow> inv t"
begin

lemma reachable_inv: "reach start step s \<Longrightarrow> inv s"
  by (induction rule: reach.induct) (auto intro: inv_start inv_step)

lemma run_inv: "inv s \<Longrightarrow> step\<^sup>*\<^sup>* s t \<Longrightarrow> inv t"
  by (rotate_tac 1, induction rule: rtranclp_induct) (auto intro: inv_step)

end

lemma reach_run: "reach start step s \<Longrightarrow> step\<^sup>*\<^sup>* s t \<Longrightarrow> reach start step t"
  by (rotate_tac 1, induction rule: rtranclp_induct) (auto intro: reach_step)

text \<open>
  Runs that record what their steps emit, and the contract of an invariant over that record: the steps are those
  of a step relation, with what each of them emits.
\<close>

inductive recorded :: "('s \<Rightarrow> bool) \<Rightarrow> ('s \<Rightarrow> 'e list \<Rightarrow> 's \<Rightarrow> bool) \<Rightarrow> 'e list \<Rightarrow> 's \<Rightarrow> bool"
  for start :: "'s \<Rightarrow> bool" and event :: "'s \<Rightarrow> 'e list \<Rightarrow> 's \<Rightarrow> bool" where
  recorded_start: "start s \<Longrightarrow> recorded start event [] s"
| recorded_step: "recorded start event h s \<Longrightarrow> event s xs t \<Longrightarrow> recorded start event (h @ xs) t"

locale recorded_invariant =
  fixes start :: "'s \<Rightarrow> bool"
    and step :: "'s \<Rightarrow> 's \<Rightarrow> bool"
    and event :: "'s \<Rightarrow> 'e list \<Rightarrow> 's \<Rightarrow> bool"
    and inv :: "'e list \<Rightarrow> 's \<Rightarrow> bool"
  assumes event_step: "step s t \<longleftrightarrow> (\<exists>xs. event s xs t)"
    and record_start: "start s \<Longrightarrow> inv [] s"
    and record_event: "inv h s \<Longrightarrow> event s xs t \<Longrightarrow> inv (h @ xs) t"
begin

lemma recorded_inv: "recorded start event h s \<Longrightarrow> inv h s"
  by (induction rule: recorded.induct) (auto intro: record_start record_event)

lemma recorded_reach: "recorded start event h s \<Longrightarrow> reach start step s"
  by (induction rule: recorded.induct) (auto intro: reach_start reach_step simp: event_step)

lemma reach_recorded: "reach start step s \<Longrightarrow> \<exists>h. recorded start event h s"
  by (induction rule: reach.induct) (auto intro: recorded_start recorded_step simp: event_step)

end

section \<open>Refinement of operations\<close>

text \<open>
  A sequence of calls, each with an answer and a new state, and the contract by which the calls
  on a detailed state implement calls on an abstract one: the same answers, the same faults, and
  states that agree through \<open>view\<close>.
\<close>

fun run_all :: "('c \<Rightarrow> 's \<Rightarrow> ('r \<times> 's) result) \<Rightarrow> 'c list \<Rightarrow> 's \<Rightarrow> ('r list \<times> 's) result" where
  "run_all run [] s = Inr ([], s)"
| "run_all run (c # cs) s =
     rbind (run c s) (\<lambda>(r, s). rbind (run_all run cs s) (\<lambda>(rs, s). Inr (r # rs, s)))"

fun all_ok :: "('c \<Rightarrow> 's \<Rightarrow> bool) \<Rightarrow> ('c \<Rightarrow> 's \<Rightarrow> ('r \<times> 's) result) \<Rightarrow> 'c list \<Rightarrow> 's \<Rightarrow> bool" where
  "all_ok ok run [] s = True"
| "all_ok ok run (c # cs) s = (ok c s \<and> (case run c s of Inl _ \<Rightarrow> True | Inr (r, s) \<Rightarrow> all_ok ok run cs s))"

lemma run_all_ends:
  fixes inv :: "'s \<Rightarrow> bool"
  assumes "\<And>c s. inv s \<Longrightarrow> ok c s \<Longrightarrow> ends (run c s) F (\<lambda>(r, t). inv t)"
  shows "inv s \<Longrightarrow> all_ok ok run cs s \<Longrightarrow> ends (run_all run cs s) F (\<lambda>(rs, t). inv t)"
proof (induction cs arbitrary: s)
  case (Cons c cs)
  have "ends (run c s) F (\<lambda>(r, t). inv t)" using assms Cons.prems by simp
  with Cons show ?case by (cases "run c s") (auto intro!: ends_rbind [where P = "\<lambda>(rs, t). inv t"])
qed simp

definition abstracts :: "('s \<Rightarrow> 'a) \<Rightarrow> ('r \<times> 's) result \<Rightarrow> ('r \<times> 'a) result" where
  "abstracts view m = rbind m (\<lambda>(r, s). Inr (r, view s))"

lemma abstracts_simps [simp]:
  "abstracts view (Inl e) = Inl e"
  "abstracts view (Inr (r, s)) = Inr (r, view s)"
  by (simp_all add: abstracts_def)

locale operation_refinement =
  fixes run :: "'c \<Rightarrow> 's \<Rightarrow> ('r \<times> 's) result"
    and spec :: "'c \<Rightarrow> 'a \<Rightarrow> ('r \<times> 'a) result"
    and view :: "'s \<Rightarrow> 'a"
    and inv :: "'s \<Rightarrow> bool"
    and ok :: "'c \<Rightarrow> 's \<Rightarrow> bool"
  assumes simulates: "inv s \<Longrightarrow> ok c s \<Longrightarrow> abstracts view (run c s) = spec c (view s)"
    and keeps: "inv s \<Longrightarrow> ok c s \<Longrightarrow> run c s = Inr (r, t) \<Longrightarrow> inv t"
begin

lemma run_all_refines:
  "inv s \<Longrightarrow> all_ok ok run cs s \<Longrightarrow> abstracts view (run_all run cs s) = run_all spec cs (view s)"
proof (induction cs arbitrary: s)
  case (Cons c cs)
  have sim: "abstracts view (run c s) = spec c (view s)" using Cons.prems by (simp add: simulates)
  show ?case
  proof (cases "run c s")
    case (Inl e) then show ?thesis using sim by (auto dest: sym)
  next
    case (Inr y)
    obtain r t where y: "y = (r, t)" by (cases y)
    have "abstracts view (run_all run cs t) = run_all spec cs (view t)"
      using Cons.IH Cons.prems Inr y keeps by auto
    then show ?thesis using Inr y sim [symmetric]
      by (cases "run_all run cs t") (auto simp: abstracts_def dest: sym)
  qed
qed simp

lemma run_all_keeps: "inv s \<Longrightarrow> all_ok ok run cs s \<Longrightarrow> run_all run cs s = Inr (rs, t) \<Longrightarrow> inv t"
  by (induction cs arbitrary: s rs) (auto simp: result_simps dest: keeps)

end

section \<open>Lists of nodes\<close>

lemma find_Some_set: "find P xs = Some x \<Longrightarrow> x \<in> set xs \<and> P x"
  by (auto simp: find_Some_iff in_set_conv_nth)

lemma sum_list_remove1:
  fixes f :: "'a \<Rightarrow> nat"
  shows "x \<in> set xs \<Longrightarrow> sum_list (map f (remove1 x xs)) = sum_list (map f xs) - f x"
  by (induction xs) (auto simp: member_le_sum_list)

lemma remove1_map:
  "inj_on f (insert x (set xs)) \<Longrightarrow> remove1 (f x) (map f xs) = map f (remove1 x xs)"
  by (induction xs) (auto simp: inj_on_def)

lemma distinct_map_remove1: "distinct (map f xs) \<Longrightarrow> distinct (map f (remove1 x xs))"
  by (auto simp: distinct_map distinct_remove1 intro: inj_on_subset dest: set_remove1_subset [THEN subsetD])

text \<open>A walk of \<open>list_for_each_entry\<close> that is cut between its nodes: where it starts, and where it goes from a node.\<close>

definition first_node :: "addr list \<Rightarrow> addr option" where
  "first_node as = (case as of [] \<Rightarrow> None | a # _ \<Rightarrow> Some a)"

fun next_node :: "addr list \<Rightarrow> addr \<Rightarrow> addr option" where
  "next_node [] a = None"
| "next_node (x # xs) a = (if x = a then (case xs of [] \<Rightarrow> None | y # _ \<Rightarrow> Some y) else next_node xs a)"

lemma first_node_member: "first_node as = Some a \<Longrightarrow> a \<in> set as"
  by (auto simp: first_node_def split: list.splits)

lemma next_node_member: "next_node as a = Some b \<Longrightarrow> b \<in> set as"
  by (induction as) (auto split: if_splits list.splits)

lemma next_node_mid: "distinct (xs @ a # as) \<Longrightarrow> next_node (xs @ a # as) a = first_node as"
  by (induction xs) (auto simp: first_node_def)

end
