(* ===== verification/CString.thy ===== *)
theory CString
  imports Prelude "HOL-Library.Char_ord"
begin

text \<open>
  The string functions the sources call, over lists of bytes: decimal printing and scanning as
  \<open>sprintf\<close> and \<open>sscanf\<close> of the kernel do them for \<open>%u\<close>, \<open>%llu\<close>, \<open>%d\<close> and \<open>%ld\<close>,
  \<open>strsep\<close> with one delimiter, \<open>strcmp\<close> and \<open>strncmp\<close>. The contract between a printer and
  a scanner is the locale \<open>decimal_codec\<close>, interpreted for both unsigned widths.
\<close>

section \<open>C strings in memory\<close>

definition NUL :: char where
  "NUL = CHR 0x00"

definition newline :: char where
  "newline = CHR 0x0A"

text \<open>The string that starts at the first byte of a memory area: everything before the NUL.\<close>

definition cstr :: "char list \<Rightarrow> string" where
  "cstr mem = takeWhile (\<lambda>c. c \<noteq> NUL) mem"

lemma cstr_append_NUL [simp]: "NUL \<notin> set s \<Longrightarrow> cstr (s @ NUL # rest) = s"
  unfolding cstr_def by (subst takeWhile_append2) auto

lemma cstr_append: "NUL \<notin> set s \<Longrightarrow> cstr (s @ rest) = s @ cstr rest"
  unfolding cstr_def by (subst takeWhile_append2) auto

lemma cstr_no_NUL: "NUL \<notin> set (cstr mem)"
  unfolding cstr_def by (metis (full_types) set_takeWhileD)

lemma cstr_id: "NUL \<notin> set s \<Longrightarrow> cstr s = s"
  unfolding cstr_def by (subst takeWhile_eq_all_conv) auto

section \<open>Decimal printing\<close>

definition digit_char :: "nat \<Rightarrow> char" where
  "digit_char d = char_of (48 + d)"

fun show_dec :: "nat \<Rightarrow> string" where
  "show_dec n = (if n < 10 then [digit_char n] else show_dec (n div 10) @ [digit_char (n mod 10)])"

declare show_dec.simps [simp del]

definition show_int :: "int \<Rightarrow> string" where
  "show_int i = (if i < 0 then CHR ''-'' # show_dec (nat (- i)) else show_dec (nat i))"

definition show_u :: "'a::len word \<Rightarrow> string" where
  "show_u w = show_dec (unat w)"

definition show_d :: "'a::len word \<Rightarrow> string" where
  "show_d w = show_int (sint w)"

section \<open>Decimal scanning\<close>

definition is_digit :: "char \<Rightarrow> bool" where
  "is_digit c = (48 \<le> (of_char c :: nat) \<and> (of_char c :: nat) \<le> 57)"

text \<open>The kernel's \<open>isspace\<close>: tab to carriage return, space and the Latin-1 hard space.\<close>

definition is_space :: "char \<Rightarrow> bool" where
  "is_space c = ((9 \<le> (of_char c :: nat) \<and> (of_char c :: nat) \<le> 13)
     \<or> (of_char c :: nat) = 32 \<or> (of_char c :: nat) = 160)"

fun dec_value :: "nat \<Rightarrow> string \<Rightarrow> nat" where
  "dec_value v [] = v"
| "dec_value v (c # cs) = dec_value (10 * v + (of_char c - 48)) cs"

text \<open>
  Conversion of an unsigned decimal field: leading white space is skipped, at least one digit
  is required, and the value is stored at the width of the destination.
\<close>

definition scan_u :: "string \<Rightarrow> 'a::len word option" where
  "scan_u s =
     (let ds = takeWhile is_digit (dropWhile is_space s)
      in if ds = [] then None else Some (of_nat (dec_value 0 ds)))"

text \<open>\<open>atoi\<close>: white space, an optional sign, and the digits up to the first other character.\<close>

definition atoi :: "string \<Rightarrow> u32" where
  "atoi s =
     (case dropWhile is_space s of
        [] \<Rightarrow> 0
      | c # cs \<Rightarrow>
          if c = CHR ''-'' then - of_nat (dec_value 0 (takeWhile is_digit cs))
          else if c = CHR ''+'' then of_nat (dec_value 0 (takeWhile is_digit cs))
          else of_nat (dec_value 0 (takeWhile is_digit (c # cs))))"

section \<open>Tokens and comparisons\<close>

text \<open>
  \<open>strsep(&s, d)\<close> returns the token before the first \<open>d\<close> and moves \<open>s\<close> behind it; the
  last token sets \<open>s\<close> to null, and a null \<open>s\<close> gives a null token.
\<close>

fun strsep :: "char \<Rightarrow> string option \<Rightarrow> string option \<times> string option" where
  "strsep d None = (None, None)"
| "strsep d (Some s) =
     (Some (takeWhile (\<lambda>c. c \<noteq> d) s),
      case dropWhile (\<lambda>c. c \<noteq> d) s of [] \<Rightarrow> None | _ # r \<Rightarrow> Some r)"

text \<open>\<open>strcmp(mem, lit) == 0\<close> and \<open>strncmp(mem, lit, n) == 0\<close>.\<close>

definition strcmp_eq :: "char list \<Rightarrow> string \<Rightarrow> bool" where
  "strcmp_eq mem lit \<longleftrightarrow> cstr mem = lit"

definition strncmp_eq :: "char list \<Rightarrow> string \<Rightarrow> nat \<Rightarrow> bool" where
  "strncmp_eq mem lit n \<longleftrightarrow> take n (cstr mem) = take n lit"

lemma takeWhile_until: "d \<notin> set s \<Longrightarrow> takeWhile (\<lambda>c. c \<noteq> d) (s @ d # r) = s"
  by (induction s) auto

lemma dropWhile_until: "d \<notin> set s \<Longrightarrow> dropWhile (\<lambda>c. c \<noteq> d) (s @ d # r) = d # r"
  by (induction s) auto

lemma dropWhile_absent: "d \<notin> set s \<Longrightarrow> dropWhile (\<lambda>c. c \<noteq> d) s = []"
  by (induction s) auto

lemma takeWhile_absent: "d \<notin> set s \<Longrightarrow> takeWhile (\<lambda>c. c \<noteq> d) s = s"
  by (induction s) auto

lemma strsep_token:
  "d \<notin> set s \<Longrightarrow> strsep d (Some (s @ d # r)) = (Some s, Some r)"
  by (simp add: takeWhile_until dropWhile_until)

lemma strsep_last: "d \<notin> set s \<Longrightarrow> strsep d (Some s) = (Some s, None)"
  by (simp add: takeWhile_absent dropWhile_absent)

text \<open>
  \<open>sscanf(tok, ...)\<close> into a local: a null token is dereferenced, a token that does not convert
  leaves the local as it was.
\<close>

definition scan_local :: "string option \<Rightarrow> 'a::len word \<Rightarrow> 'a word result" where
  "scan_local tok junk =
     (case tok of None \<Rightarrow> Inl NullDeref
      | Some t \<Rightarrow> Inr (case scan_u t of None \<Rightarrow> junk | Some v \<Rightarrow> v))"

section \<open>What the printer and the scanner agree on\<close>

lemma of_char_digit: "d < 10 \<Longrightarrow> (of_char (digit_char d) :: nat) = 48 + d"
  by (simp add: digit_char_def)

lemma is_digit_digit_char: "d < 10 \<Longrightarrow> is_digit (digit_char d)"
  by (simp add: is_digit_def of_char_digit)

lemma show_dec_digits: "c \<in> set (show_dec n) \<Longrightarrow> is_digit c"
proof (induction n arbitrary: c rule: show_dec.induct)
  case (1 n)
  then show ?case
    by (subst (asm) (2) show_dec.simps) (auto simp: is_digit_digit_char split: if_splits)
qed

lemma show_dec_nonempty [simp]: "show_dec n \<noteq> []"
  by (subst show_dec.simps) simp

lemma dec_value_append: "dec_value v (xs @ ys) = dec_value (dec_value v xs) ys"
  by (induction xs arbitrary: v) auto

lemma dec_value_show: "dec_value 0 (show_dec n) = n"
proof (induction n rule: show_dec.induct)
  case (1 n)
  show ?case
  proof (cases "n < 10")
    case True
    then show ?thesis by (simp add: show_dec.simps [of n] of_char_digit)
  next
    case False
    then show ?thesis using 1
      by (simp add: show_dec.simps [of n] dec_value_append of_char_digit)
  qed
qed

lemma digit_not_space: "is_digit c \<Longrightarrow> \<not> is_space c"
  by (auto simp: is_digit_def is_space_def)

lemma scan_u_show_dec:
  assumes "\<forall>c\<in>set ws. is_space c" and "r = [] \<or> \<not> is_digit (hd r)"
  shows "scan_u (ws @ show_dec n @ r) = Some (of_nat n)"
proof -
  have nosp: "\<not> is_space (hd (show_dec n))"
    using show_dec_digits digit_not_space show_dec_nonempty hd_in_set by blast
  have "dropWhile is_space (ws @ show_dec n @ r) = dropWhile is_space (show_dec n @ r)"
    using assms(1) by (subst dropWhile_append2) auto
  also have "\<dots> = show_dec n @ r"
    using nosp by (cases "show_dec n") auto
  finally have d: "dropWhile is_space (ws @ show_dec n @ r) = show_dec n @ r" .
  have "takeWhile is_digit (show_dec n @ r) = show_dec n @ takeWhile is_digit r"
    by (subst takeWhile_append2) (auto intro: show_dec_digits)
  also have "takeWhile is_digit r = []"
    using assms(2) by (cases r) auto
  finally show ?thesis by (simp add: scan_u_def d dec_value_show)
qed

lemma show_dec_length: "n < 10 ^ Suc k \<Longrightarrow> length (show_dec n) \<le> Suc k"
proof (induction k arbitrary: n)
  case 0
  then show ?case by (simp add: show_dec.simps [of n])
next
  case (Suc k)
  show ?case
  proof (cases "n < 10")
    case True
    then show ?thesis by (simp add: show_dec.simps [of n])
  next
    case False
    have "n div 10 < 10 ^ Suc k" using Suc.prems by (simp add: less_mult_imp_div_less mult.commute)
    from Suc.IH [OF this] show ?thesis using False by (simp add: show_dec.simps [of n])
  qed
qed

lemma show_u32_length: "length (show_u (w :: u32)) \<le> 10"
proof -
  have "unat w < 10 ^ Suc 9"
    using unsigned_less [of w, where ?'a = nat] by simp
  then show ?thesis unfolding show_u_def using show_dec_length [of "unat w" 9] by simp
qed

text \<open>
  The contract: a scanner reads back what its printer wrote, behind white space and before any
  character that is no digit.
\<close>

locale decimal_codec =
  fixes pr :: "'w \<Rightarrow> string" and sc :: "string \<Rightarrow> 'w option"
  assumes scan_print: "\<forall>c\<in>set ws. is_space c \<Longrightarrow> r = [] \<or> \<not> is_digit (hd r) \<Longrightarrow>
      sc (ws @ pr w @ r) = Some w"
    and print_digits: "c \<in> set (pr w) \<Longrightarrow> is_digit c"
begin

lemma scan_print_plain: "sc (pr w) = Some w"
  using scan_print [of "[]" "[]"] by simp

lemma scan_print_line: "sc (pr w @ newline # r) = Some w"
  using scan_print [of "[]" "newline # r"] by (simp add: newline_def is_digit_def)

lemma scan_print_field: "sc (CHR '' '' # pr w) = Some w"
  using scan_print [of "'' ''" "[]"] by (simp add: is_space_def)

lemma scan_print_field_line: "sc (CHR '' '' # pr w @ newline # r) = Some w"
  using scan_print [of "'' ''" "newline # r"] by (simp add: is_space_def newline_def is_digit_def)

lemma print_inj: "pr w = pr w' \<Longrightarrow> w = w'"
  using scan_print_plain by (metis option.inject)

lemma print_no_char: "\<not> is_digit c \<Longrightarrow> c \<notin> set (pr w)"
  using print_digits by blast

end

interpretation u32_codec: decimal_codec "show_u :: u32 \<Rightarrow> string" scan_u
  by unfold_locales (auto simp: show_u_def scan_u_show_dec intro: show_dec_digits)

interpretation u64_codec: decimal_codec "show_u :: u64 \<Rightarrow> string" scan_u
  by unfold_locales (auto simp: show_u_def scan_u_show_dec intro: show_dec_digits)

lemma digits_no_NUL: "NUL \<notin> set (show_u (w :: u32))"
  by (rule u32_codec.print_no_char) (simp add: is_digit_def NUL_def)

text \<open>The last token runs into the bytes behind the buffer; the newline closes its number.\<close>

lemma last_field:
  assumes "d \<notin> set s" "d \<noteq> newline"
  shows "\<exists>r. takeWhile (\<lambda>c. c \<noteq> d) (s @ newline # rest) = s @ newline # r"
proof -
  have "takeWhile (\<lambda>c. c \<noteq> d) (s @ newline # rest) = s @ takeWhile (\<lambda>c. c \<noteq> d) (newline # rest)"
    using assms(1) by (intro takeWhile_append2) auto
  then show ?thesis using assms(2) by simp
qed

lemma scan_local_Some: "scan_u t = Some v \<Longrightarrow> scan_local (Some t) junk = Inr v"
  by (simp add: scan_local_def)

lemma line_cstr:
  "NUL \<notin> set s \<Longrightarrow> cstr ((s @ [newline]) @ mem) = s @ newline # cstr mem"
  using cstr_append [of "s @ [newline]" mem] by (simp add: newline_def NUL_def)

end
