(* ===== verification/ProcFile.thy ===== *)
theory ProcFile
  imports CString
begin

text \<open>
  The read side of the status files \<open>/proc/mp1/status\<close>, \<open>/proc/mp2/status\<close> and
  \<open>/proc/mp3/status\<close>. The three modules print their list line by line into a buffer of the
  caller's size and tell the end of the file with a static flag \<open>finished\<close>, so they meet one
  contract, the locale \<open>proc_status_file\<close>; what a reader that reads until it gets nothing
  sees is proved once from it.
\<close>

section \<open>The printing loop\<close>

text \<open>
  \<open>copied += sprintf(buf + copied, ...)\<close> over the list: each call also writes the closing NUL,
  so it leaves a buffer of \<open>count\<close> bytes as soon as the text is \<open>count\<close> bytes long.
\<close>

fun status_lines :: "nat \<Rightarrow> ('n \<Rightarrow> string result) \<Rightarrow> string \<Rightarrow> 'n list \<Rightarrow> string result" where
  "status_lines count line buf [] = Inr buf"
| "status_lines count line buf (x # xs) =
     rbind (line x) (\<lambda>l.
       if count \<le> length (buf @ l) then Inl BufferOverflow
       else status_lines count line (buf @ l) xs)"

definition fits :: "nat \<Rightarrow> 'n list \<Rightarrow> string \<Rightarrow> bool" where
  "fits count xs text \<longleftrightarrow> xs = [] \<or> length text < count"

lemma status_lines_total:
  assumes "\<forall>x\<in>set xs. line x = Inr (l x)"
  shows "status_lines count line buf xs =
     (if xs = [] \<or> length (buf @ concat (map l xs)) < count
      then Inr (buf @ concat (map l xs)) else Inl BufferOverflow)"
  using assms by (induction xs arbitrary: buf) auto

lemma status_lines_fits:
  assumes "\<forall>x\<in>set xs. line x = Inr (l x)" and "fits count xs (concat (map l xs))"
  shows "status_lines count line [] xs = Inr (concat (map l xs))"
  using status_lines_total [OF assms(1), of count "[]"] assms(2) by (simp add: fits_def)

lemma status_lines_overflow:
  assumes "\<forall>x\<in>set xs. line x = Inr (l x)" and "\<not> fits count xs (concat (map l xs))"
  shows "status_lines count line [] xs = Inl BufferOverflow"
  using status_lines_total [OF assms(1), of count "[]"] assms(2) by (simp add: fits_def)

section \<open>A reader\<close>

text \<open>
  A reader such as \<open>cat\<close> reads with one buffer size until a read returns no bytes. \<open>None\<close>
  is running out of fuel, i.e. a reader that has not come to an end yet.
\<close>

fun drain :: "nat \<Rightarrow> (nat \<Rightarrow> 's \<Rightarrow> (string \<times> 's) result) \<Rightarrow> nat \<Rightarrow> 's \<Rightarrow>
    (string \<times> 's) result option" where
  "drain 0 rd n s = None"
| "drain (Suc fuel) rd n s =
     (case rd n s of
        Inl e \<Rightarrow> Some (Inl e)
      | Inr (t, s') \<Rightarrow>
          if t = [] then Some (Inr ([], s'))
          else map_option (\<lambda>r. rbind r (\<lambda>(u, s''). Inr (t @ u, s''))) (drain fuel rd n s'))"

text \<open>A number of reads, by one process or by several in turn.\<close>

fun reads :: "(nat \<Rightarrow> 's \<Rightarrow> (string \<times> 's) result) \<Rightarrow> nat \<Rightarrow> nat \<Rightarrow> 's \<Rightarrow> (string list \<times> 's) result" where
  "reads rd n 0 s = Inr ([], s)"
| "reads rd n (Suc m) s = rbind (rd n s) (\<lambda>(t, s). rbind (reads rd n m s) (\<lambda>(ts, s). Inr (t # ts, s)))"

section \<open>The contract of a status file\<close>

locale proc_status_file =
  fixes nodes :: "'s \<Rightarrow> 'n list"
    and contents :: "'s \<Rightarrow> string"
    and finished :: "'s \<Rightarrow> bool"
    and ready :: "'s \<Rightarrow> bool"
    and rd :: "nat \<Rightarrow> 's \<Rightarrow> (string \<times> 's) result"
  assumes read_fits: "ready s \<Longrightarrow> \<not> finished s \<Longrightarrow> fits n (nodes s) (contents s) \<Longrightarrow>
      \<exists>s'. rd n s = Inr (contents s, s') \<and> finished s' \<and> ready s' \<and> contents s' = contents s"
    and read_overflow: "ready s \<Longrightarrow> \<not> finished s \<Longrightarrow> \<not> fits n (nodes s) (contents s) \<Longrightarrow>
      rd n s = Inl BufferOverflow"
    and read_eof: "finished s \<Longrightarrow>
      \<exists>s'. rd n s = Inr ([], s') \<and> \<not> finished s' \<and> contents s' = contents s \<and> (ready s \<longrightarrow> ready s')"
begin

lemma drain_contents:
  assumes "ready s" "\<not> finished s" "fits n (nodes s) (contents s)" "contents s \<noteq> []"
  shows "\<exists>s'. drain (Suc (Suc fuel)) rd n s = Some (Inr (contents s, s')) \<and>
      \<not> finished s' \<and> ready s' \<and> contents s' = contents s"
proof -
  obtain s1 where 1: "rd n s = Inr (contents s, s1)" "finished s1" "ready s1" "contents s1 = contents s"
    using read_fits [OF assms(1-3)] by blast
  obtain s2 where 2: "rd n s1 = Inr ([], s2)" "\<not> finished s2" "contents s2 = contents s" "ready s2"
    using read_eof [OF 1(2)] 1 by metis
  show ?thesis using 1 2 assms(4) by simp
qed

lemma drain_empty:
  assumes "ready s" "\<not> finished s" "nodes s = []" "contents s = []"
  shows "\<exists>s'. drain (Suc fuel) rd n s = Some (Inr ([], s')) \<and>
      finished s' \<and> ready s' \<and> contents s' = []"
proof -
  have "fits n (nodes s) (contents s)" using assms by (simp add: fits_def)
  then show ?thesis using read_fits [OF assms(1,2)] assms(4) by fastforce
qed

lemma drain_stale:
  assumes "finished s"
  shows "\<exists>s'. drain (Suc fuel) rd n s = Some (Inr ([], s')) \<and> \<not> finished s' \<and> contents s' = contents s"
  using read_eof [OF assms, of n] by fastforce

lemma drain_overflow:
  assumes "ready s" "\<not> finished s" "\<not> fits n (nodes s) (contents s)"
  shows "drain (Suc fuel) rd n s = Some (Inl BufferOverflow)"
  using read_overflow [OF assms] by simp

text \<open>The flag is shared by all readers: of the reads in a row every other one gets nothing.\<close>

lemma reads_alternate:
  assumes "ready s" "length (contents s) < n"
  shows "\<exists>s'. reads rd n m s =
    Inr (map (\<lambda>i. if even i = finished s then [] else contents s) [0..<m], s')"
  using assms
proof (induction m arbitrary: s)
  case (Suc m)
  have "fits n (nodes s) (contents s)" using Suc.prems(2) by (simp add: fits_def)
  then obtain s1 where 1: "rd n s = Inr (if finished s then [] else contents s, s1)" "finished s1 \<longleftrightarrow> \<not> finished s"
      "ready s1" "contents s1 = contents s"
    using read_fits [OF Suc.prems(1)] read_eof [of s n] Suc.prems(1) by (cases "finished s") auto
  obtain s2 where 2: "reads rd n m s1 = Inr (map (\<lambda>i. if even i = finished s1 then [] else contents s1) [0..<m], s2)"
    using Suc.IH [OF 1(3)] Suc.prems(2) 1(4) by auto
  have "map (\<lambda>i. if even i = finished s then [] else contents s) [0..<Suc m] =
      (if finished s then [] else contents s) # map (\<lambda>i. if even i = finished s1 then [] else contents s1) [0..<m]"
    unfolding 1(2,4) by (simp add: upt_conv_Cons map_Suc_upt [symmetric] comp_def del: upt_Suc)
  then show ?case using 1(1) 2 by simp
qed simp

end

end
