(* ===== verification/Mp1.thy ===== *)
theory Mp1
  imports ProcFile
begin

text \<open>
  The CPU-time module \<open>MP1/mp1.c\<close> with \<open>MP1/mp1_given.h\<close>, and its user program
  \<open>MP1/userapp.c\<close>: processes register by writing their pid to the status file, a timer refreshes
  the CPU time of every registered process and forgets those that have ended.
\<close>

section \<open>Data\<close>

record process =
  pid :: u32
  time :: u64

text \<open>
  What the kernel supplies to a call: the process of a pid and its CPU time, the clock, whether
  \<open>kmalloc\<close> gives a node, the bytes behind the write buffer and the old content of a node's
  \<open>pid\<close>.
\<close>

record mp1_kernel =
  pid_task :: "u32 \<Rightarrow> addr option"
  task_utime :: "addr \<Rightarrow> u64"
  jiffies :: u64
  msecs_to_jiffies :: "u32 \<Rightarrow> u64"
  node_ok :: bool
  beyond :: "char list"
  junk_pid :: u32

text \<open>
  The state: the list, the spin lock, the timer's expiry when it is pending, whether an expired
  timer's handler has been called and not yet run, the static flags of the two file
  operations, the work queue and its work item, and the files.
\<close>

record mp1_state =
  p_list :: "process list"
  lock :: bool
  mp1_timer :: "u64 option"
  handler_due :: bool
  timer_start :: bool
  finished :: bool
  mp1_wq :: bool
  mp1_w :: bool
  work_queued :: bool
  proc_entries :: "string list"

definition spin_lock_mp1 :: "mp1_state \<Rightarrow> mp1_state result" where
  "spin_lock_mp1 s = (if lock s then Inl Deadlock else Inr (s\<lparr>lock := True\<rparr>))"

definition spin_unlock_mp1 :: "mp1_state \<Rightarrow> mp1_state" where
  "spin_unlock_mp1 s = s\<lparr>lock := False\<rparr>"

section \<open>The timer\<close>

text \<open>\<open>None\<close> is the result \<open>-1\<close>.\<close>

definition get_cpu_use_mp1 :: "mp1_kernel \<Rightarrow> u32 \<Rightarrow> u64 option" where
  "get_cpu_use_mp1 k p = (case pid_task k p of None \<Rightarrow> None | Some task \<Rightarrow> Some (task_utime k task))"

fun refresh_list :: "mp1_kernel \<Rightarrow> process list \<Rightarrow> process list" where
  "refresh_list k [] = []"
| "refresh_list k (itr # ps) =
     (case get_cpu_use_mp1 k (pid itr) of
        None \<Rightarrow> refresh_list k ps
      | Some t \<Rightarrow> itr\<lparr>time := t\<rparr> # refresh_list k ps)"

definition mp1_time_handler :: "mp1_kernel \<Rightarrow> mp1_state \<Rightarrow> mp1_state result" where
  "mp1_time_handler k s =
     rbind (spin_lock_mp1 s) (\<lambda>s.
     let s = spin_unlock_mp1 (s\<lparr>p_list := refresh_list k (p_list s)\<rparr>) in
     Inr (s\<lparr>mp1_timer := Some (jiffies k + msecs_to_jiffies k 5000)\<rparr>))"

definition mp1_work_handler :: "mp1_state \<Rightarrow> mp1_state" where
  "mp1_work_handler s = s\<lparr>work_queued := True\<rparr>"

section \<open>The status file\<close>

definition process_line :: "process \<Rightarrow> string" where
  "process_line itr = show_u (pid itr) @ '': '' @ show_d (time itr) @ [newline]"

definition mp1_read :: "nat \<Rightarrow> mp1_state \<Rightarrow> (string \<times> mp1_state) result" where
  "mp1_read count s =
     (if finished s then Inr ([], s\<lparr>finished := False\<rparr>)
      else let s = s\<lparr>finished := True\<rparr> in
        rbind (spin_lock_mp1 s) (\<lambda>s.
        rbind (status_lines count (\<lambda>itr. Inr (process_line itr)) [] (p_list s)) (\<lambda>buf.
        Inr (buf, spin_unlock_mp1 s))))"

text \<open>
  The buffer of an empty write has no bytes to scan. The number is scanned from the written
  bytes and those behind them, up to a NUL; when there is none the node keeps its old \<open>pid\<close>.
\<close>

definition mp1_write :: "mp1_kernel \<Rightarrow> char list \<Rightarrow> mp1_state \<Rightarrow> (nat \<times> mp1_state) result" where
  "mp1_write k data s =
     (if \<not> node_ok k \<or> data = [] then Inl NullDeref
      else
        let p = (case scan_u (cstr (data @ beyond k)) of None \<Rightarrow> junk_pid k | Some v \<Rightarrow> v) in
        rbind (spin_lock_mp1 s) (\<lambda>s.
        let s = spin_unlock_mp1 (s\<lparr>p_list := p_list s @ [\<lparr>pid = p, time = 0\<rparr>]\<rparr>) in
        Inr (length data,
          if \<not> timer_start s
          then s\<lparr>mp1_timer := Some (jiffies k + msecs_to_jiffies k 0), timer_start := True\<rparr>
          else s)))"

section \<open>Loading and unloading\<close>

definition mp1_static :: mp1_state where
  "mp1_static = \<lparr>p_list = [], lock = False, mp1_timer = None, handler_due = False, timer_start = False,
     finished = False, mp1_wq = False, mp1_w = False, work_queued = False, proc_entries = []\<rparr>"

text \<open>The two booleans say whether the queue and the work item could be allocated.\<close>

definition mp1_init :: "bool \<Rightarrow> bool \<Rightarrow> mp1_state \<Rightarrow> int \<times> mp1_state" where
  "mp1_init wq_ok w_ok s =
     (0, s\<lparr>proc_entries := proc_entries s @ [''mp1'', ''mp1/status''], p_list := [], lock := False,
           mp1_wq := wq_ok, mp1_w := wq_ok \<and> w_ok\<rparr>)"

definition mp1_exit :: "mp1_state \<Rightarrow> mp1_state result" where
  "mp1_exit s =
     (let s = s\<lparr>p_list := []\<rparr> in
      if \<not> mp1_wq s then Inl NullDeref
      else Inr (s\<lparr>mp1_wq := False, mp1_timer := None, mp1_w := False,
        proc_entries := removeAll ''mp1'' (removeAll ''mp1/status'' (proc_entries s))\<rparr>))"

section \<open>Steps of the loaded module\<close>

definition expire :: "mp1_state \<Rightarrow> mp1_state" where
  "expire s = s\<lparr>mp1_timer := None, handler_due := True\<rparr>"

definition run_handler :: "mp1_kernel \<Rightarrow> mp1_state \<Rightarrow> mp1_state result" where
  "run_handler k s = mp1_time_handler k (s\<lparr>handler_due := False\<rparr>)"

inductive mp1_step :: "mp1_state \<Rightarrow> mp1_state \<Rightarrow> bool" where
  step_write: "mp1_write k data s = Inr (n, t) \<Longrightarrow> mp1_step s t"
| step_read: "mp1_read count s = Inr (buf, t) \<Longrightarrow> mp1_step s t"
| step_expire: "mp1_timer s \<noteq> None \<Longrightarrow> mp1_step s (expire s)"
| step_handler: "handler_due s \<Longrightarrow> run_handler k s = Inr t \<Longrightarrow> mp1_step s t"

inductive_cases mp1_stepE: "mp1_step s t"

definition mp1_start :: "mp1_state \<Rightarrow> bool" where
  "mp1_start s \<longleftrightarrow> (\<exists>wq_ok w_ok. s = snd (mp1_init wq_ok w_ok mp1_static))"

section \<open>The user program\<close>

text \<open>
  \<open>input = (input * input) % 1000\<close> on \<open>unsigned\<close>, while less than 5 seconds of the clock's ticks
  have passed; the list holds the readings of the clock, \<open>None\<close> is running out of readings.
\<close>

fun calculation_loop :: "int \<Rightarrow> int \<Rightarrow> int list \<Rightarrow> u32 \<Rightarrow> int option" where
  "calculation_loop ticks begin [] input = None"
| "calculation_loop ticks begin (now # rs) input =
     (if now - begin < 5 * ticks then calculation_loop ticks begin rs ((input * input) mod 1000) else Some 0)"

definition calculation :: "int \<Rightarrow> int \<Rightarrow> int list \<Rightarrow> u32 \<Rightarrow> int option" where
  "calculation ticks begin rs p = calculation_loop ticks begin rs p"

datatype mp1_event =
    Fork_fail
  | System u32 string
  | Calculate u32
  | Wait

text \<open>One turn per child; \<open>None\<close> is a failed \<open>fork\<close>, \<open>Some p\<close> a child with pid \<open>p\<close>.\<close>

definition register_command :: "u32 \<Rightarrow> string" where
  "register_command p = ''echo '' @ show_u p @ '' > /proc/mp1/status''"

definition child_turn :: "u32 option \<Rightarrow> mp1_event list" where
  "child_turn child =
     (case child of
        None \<Rightarrow> [Fork_fail]
      | Some p \<Rightarrow> [System p (register_command p), Calculate p, System p ''cat /proc/mp1/status'', Wait])"

definition userapp_mp1 :: "u32 option list \<Rightarrow> mp1_event list" where
  "userapp_mp1 forks = concat (map child_turn (take 3 forks))"

end
