(* ===== verification/Mp1_Props.thy ===== *)
theory Mp1_Props
  imports Mp1
begin

text \<open>
  The invariant of the CPU-time module, the contract its status file meets, and its properties,
  with witnesses where they have hypotheses.
\<close>

section \<open>Invariant and contract\<close>

text \<open>The timer runs from the first write on; nothing is listed before it.\<close>

definition mp1_inv :: "mp1_state \<Rightarrow> bool" where
  "mp1_inv s \<longleftrightarrow> \<not> lock s \<and> (timer_start s \<longleftrightarrow> mp1_timer s \<noteq> None \<or> handler_due s) \<and>
     (p_list s \<noteq> [] \<longrightarrow> timer_start s)"

lemma refresh_list_eq:
  "refresh_list k ps = map (\<lambda>q. q\<lparr>time := the (get_cpu_use_mp1 k (pid q))\<rparr>)
     (filter (\<lambda>q. get_cpu_use_mp1 k (pid q) \<noteq> None) ps)"
  by (induction ps) (auto split: option.split)

lemma run_handler_eq:
  "\<not> lock s \<Longrightarrow> run_handler k s = Inr (s\<lparr>handler_due := False, lock := False, p_list := refresh_list k (p_list s),
     mp1_timer := Some (jiffies k + msecs_to_jiffies k 5000)\<rparr>)"
  by (simp add: run_handler_def mp1_time_handler_def spin_lock_mp1_def spin_unlock_mp1_def)

definition listed :: "mp1_kernel \<Rightarrow> u32 \<Rightarrow> mp1_state \<Rightarrow> mp1_state" where
  "listed k p s = s\<lparr>p_list := p_list s @ [\<lparr>pid = p, time = 0\<rparr>], timer_start := True,
     mp1_timer := (if timer_start s then mp1_timer s else Some (jiffies k + msecs_to_jiffies k 0))\<rparr>"

lemma mp1_write_eq:
  "\<not> lock s \<Longrightarrow> node_ok k \<Longrightarrow> data \<noteq> [] \<Longrightarrow> mp1_write k data s = Inr (length data,
     listed k (case scan_u (cstr (data @ beyond k)) of None \<Rightarrow> junk_pid k | Some v \<Rightarrow> v) s)"
  by (simp add: mp1_write_def spin_lock_mp1_def spin_unlock_mp1_def Let_def listed_def)

definition mp1_contents :: "mp1_state \<Rightarrow> string" where
  "mp1_contents s = concat (map process_line (p_list s))"

lemma mp1_read_eq:
  assumes "\<not> lock s" "\<not> finished s"
  shows "mp1_read n s = (if fits n (p_list s) (mp1_contents s)
     then Inr (mp1_contents s, s\<lparr>finished := True, lock := False\<rparr>) else Inl BufferOverflow)"
proof -
  have "\<forall>q\<in>set (p_list s). (Inr (process_line q) :: string result) = Inr (process_line q)" by simp
  from status_lines_total [OF this, of n "[]"] show ?thesis
    using assms by (simp add: mp1_read_def fits_def mp1_contents_def spin_lock_mp1_def spin_unlock_mp1_def)
qed

lemma mp1_step_inv:
  assumes "mp1_inv s" "mp1_step s t"
  shows "mp1_inv t"
  using assms(2)
proof (cases rule: mp1_step.cases)
  case (step_write k data n)
  then have "node_ok k" "data \<noteq> []" by (auto simp: mp1_write_def split: if_splits)
  then show ?thesis using mp1_write_eq [of s k data] assms(1) step_write by (auto simp: mp1_inv_def listed_def)
next
  case (step_read count buf)
  have "t = s\<lparr>finished := \<not> finished s\<rparr>"
  proof (cases "finished s")
    case True then show ?thesis using step_read by (simp add: mp1_read_def)
  next
    case False
    have "\<not> lock s" using assms(1) by (simp add: mp1_inv_def)
    then show ?thesis using step_read mp1_read_eq [OF _ False] False by (auto split: if_splits)
  qed
  then show ?thesis using assms(1) by (auto simp: mp1_inv_def)
next
  case step_expire
  then show ?thesis using assms(1) by (auto simp: mp1_inv_def expire_def)
next
  case (step_handler k)
  then show ?thesis using assms(1) by (auto simp: mp1_inv_def run_handler_eq refresh_list_eq)
qed

interpretation mp1: inductive_invariant mp1_start mp1_step mp1_inv
proof unfold_locales
  show "mp1_start s \<Longrightarrow> mp1_inv s" for s
    by (auto simp: mp1_start_def mp1_init_def mp1_static_def mp1_inv_def)
qed (rule mp1_step_inv)

interpretation mp1_file: proc_status_file p_list mp1_contents finished "\<lambda>s. \<not> lock s" mp1_read
proof (unfold_locales, goal_cases)
  case (3 s n) then show ?case by (simp add: mp1_read_def mp1_contents_def)
qed (simp_all add: mp1_read_eq mp1_contents_def)

lemma scan_echo: "scan_u (cstr ((show_u (p :: u32) @ [newline]) @ mem)) = Some p"
  using line_cstr [OF digits_no_NUL, of p mem] u32_codec.scan_print_line by simp

section \<open>Example\<close>

definition example_mp1 :: mp1_kernel where
  "example_mp1 = \<lparr>pid_task = [7 \<mapsto> 1], task_utime = (\<lambda>_. 42), jiffies = 1000, msecs_to_jiffies = ucast,
     node_ok = True, beyond = [], junk_pid = 0\<rparr>"

definition mp1_loaded :: mp1_state where
  "mp1_loaded = snd (mp1_init True True mp1_static)"

definition two_listed :: mp1_state where
  "two_listed = mp1_loaded\<lparr>p_list := [\<lparr>pid = 7, time = 0\<rparr>, \<lparr>pid = 8, time = 0\<rparr>],
     timer_start := True, mp1_timer := Some 1000\<rparr>"

lemmas mp1_states = two_listed_def mp1_loaded_def mp1_init_def mp1_static_def

lemma mp1_loaded_reach: "reach mp1_start mp1_step mp1_loaded"
  by (rule reach_start) (unfold mp1_start_def mp1_loaded_def, blast)

lemma write_echo:
  "\<not> lock s \<Longrightarrow> node_ok k \<Longrightarrow>
   mp1_write k (show_u p @ [newline]) s = Inr (length (show_u p @ [newline]), listed k p s)"
  using scan_echo [of p "beyond k"] by (subst mp1_write_eq) simp_all

lemma listed_reach: "reach mp1_start mp1_step two_listed"
proof -
  let ?s = "listed example_mp1 7 mp1_loaded"
  have "\<not> lock mp1_loaded" "\<not> lock ?s" "node_ok example_mp1"
    by (simp_all add: listed_def mp1_states example_mp1_def)
  then have w: "mp1_step mp1_loaded ?s" "mp1_step ?s (listed example_mp1 8 ?s)"
    using write_echo step_write by blast+
  have "listed example_mp1 8 ?s = two_listed" by (simp add: listed_def mp1_states example_mp1_def)
  then show ?thesis using reach_step [OF reach_step [OF mp1_loaded_reach w(1)] w(2)] by simp
qed

lemma due_reach: "reach mp1_start mp1_step (expire two_listed)"
  by (rule reach_step [OF listed_reach step_expire]) (simp add: mp1_states)

lemma zero_digit: "show_dec 0 = ''0''"
  by (simp add: show_dec.simps digit_char_def char_of_def bit_0)

lemma seven_digit: "show_u (7 :: u32) = ''7''"
  by (simp add: show_u_def show_dec.simps digit_char_def char_of_def bit_0)

section \<open>Properties\<close>

text \<open>
  In every reachable state the lock is free and, once a process has been listed, the timer is pending or
  its handler is about to run: the periodic refresh never stops while the module is loaded.
\<close>

theorem mp1_timer_never_stops:
  assumes "reach mp1_start mp1_step s" "p_list s \<noteq> []"
  shows "\<not> lock s \<and> (mp1_timer s \<noteq> None \<or> handler_due s) \<and> (\<forall>k. \<exists>t. run_handler k s = Inr t \<and> mp1_timer t \<noteq> None)"
  using mp1.reachable_inv [OF assms(1)] assms(2) by (auto simp: mp1_inv_def run_handler_eq)

theorem mp1_timer_never_stops_witness:
  "\<exists>t. run_handler example_mp1 two_listed = Inr t \<and> mp1_timer t \<noteq> None"
  using mp1_timer_never_stops [OF listed_reach] by (auto simp: two_listed_def)

text \<open>
  A run of the timer's handler keeps exactly the processes that still exist, in their order,
  gives each its current CPU time, and sets the timer 5000 milliseconds ahead; a second run on
  the same kernel state changes nothing.
\<close>

theorem time_handler_exact:
  assumes "reach mp1_start mp1_step s"
  shows "\<exists>t. run_handler k s = Inr t \<and>
    p_list t = map (\<lambda>q. q\<lparr>time := task_utime k (the (pid_task k (pid q)))\<rparr>)
      (filter (\<lambda>q. pid_task k (pid q) \<noteq> None) (p_list s)) \<and>
    mp1_timer t = Some (jiffies k + msecs_to_jiffies k 5000) \<and> run_handler k t = Inr t"
proof -
  have use: "get_cpu_use_mp1 k p = map_option (task_utime k) (pid_task k p)" for p
    by (simp add: get_cpu_use_mp1_def split: option.split)
  have list: "refresh_list k ps = map (\<lambda>q. q\<lparr>time := task_utime k (the (pid_task k (pid q)))\<rparr>)
      (filter (\<lambda>q. pid_task k (pid q) \<noteq> None) ps)" for ps
    by (auto simp: refresh_list_eq use option.map_sel)
  have twice: "refresh_list k (refresh_list k ps) = refresh_list k ps" for ps
    by (induction ps) (auto split: option.split)
  have "\<not> lock s" using mp1.reachable_inv [OF assms] by (simp add: mp1_inv_def)
  then show ?thesis by (simp add: run_handler_eq twice) (simp add: list)
qed

theorem time_handler_exact_witness:
  "\<exists>t. run_handler example_mp1 (expire two_listed) = Inr t \<and> p_list t = [\<lparr>pid = 7, time = 42\<rparr>]"
  using time_handler_exact [OF due_reach, of example_mp1]
  by (auto simp: expire_def two_listed_def example_mp1_def)

text \<open>
  The line a child of the user program echoes registers the child: the status file gains the
  line of its pid with time 0 at the end, and a reader whose buffer is larger than the file gets all of
  it. Nothing checks for a pid that is already listed.
\<close>

theorem mp1_register_read:
  assumes "reach mp1_start mp1_step s" "node_ok k" "\<not> finished s"
    and "length (mp1_contents s) + 15 < n"
  shows "\<exists>t u. mp1_write k (show_u (p :: u32) @ [newline]) s = Inr (length (show_u p @ [newline]), t) \<and>
    drain (Suc (Suc fuel)) mp1_read n t = Some (Inr (mp1_contents s @ show_u p @ '': 0'' @ [newline], u))"
proof -
  have l: "\<not> lock s" using mp1.reachable_inv [OF assms(1)] by (simp add: mp1_inv_def)
  let ?t = "listed k p s"
  have c: "mp1_contents ?t = mp1_contents s @ show_u p @ '': 0'' @ [newline]"
    by (simp add: listed_def mp1_contents_def process_line_def show_d_def show_int_def zero_digit)
  have "length (mp1_contents ?t) < n" using assms(4) show_u32_length [of p] unfolding c by simp
  then have "fits n (p_list ?t) (mp1_contents ?t)" by (simp add: fits_def)
  then obtain u where "drain (Suc (Suc fuel)) mp1_read n ?t = Some (Inr (mp1_contents ?t, u))"
    using mp1_file.drain_contents [of ?t n fuel] assms(3) c l by (auto simp: newline_def listed_def)
  then show ?thesis using write_echo [OF l assms(2)] c by metis
qed

theorem mp1_register_read_witness:
  "\<exists>t u. mp1_write example_mp1 (show_u (7 :: u32) @ [newline]) mp1_loaded = Inr (2, t) \<and>
     drain 2 mp1_read 4096 t = Some (Inr (''7: 0'' @ [newline], u))"
proof -
  have "mp1_contents mp1_loaded = []" "node_ok example_mp1" "\<not> finished mp1_loaded"
    by (simp_all add: mp1_contents_def mp1_states example_mp1_def)
  with mp1_register_read [OF mp1_loaded_reach, of example_mp1 4096 7 0] show ?thesis
    by (simp add: seven_digit numeral_2_eq_2 del: drain.simps)
qed

text \<open>
  Unloading stops a pending timer, but not a handler that was already called: it runs after
  the list was freed and sets the timer of the module that is gone.
\<close>

theorem mp1_unload_rearm:
  assumes "reach mp1_start mp1_step s" "mp1_wq s"
  shows "\<exists>t. mp1_exit s = Inr t \<and> p_list t = [] \<and> mp1_timer t = None \<and> handler_due t = handler_due s \<and>
    (\<exists>u. run_handler k t = Inr u \<and> mp1_timer u \<noteq> None)"
  using mp1.reachable_inv [OF assms(1)] assms(2)
  by (simp add: mp1_exit_def mp1_inv_def run_handler_eq)

theorem mp1_unload_rearm_witness:
  "\<exists>t. mp1_exit (expire two_listed) = Inr t \<and> handler_due t \<and> mp1_timer t = None"
proof -
  have "mp1_wq (expire two_listed)" "handler_due (expire two_listed)" by (simp_all add: expire_def mp1_states)
  then show ?thesis using mp1_unload_rearm [OF due_reach] by blast
qed

text \<open>
  The life of the timer. In every reachable state the lock is free and, once a process has been listed, the timer is pending or
  its handler is about to run, and a run sets it again: the periodic refresh never stops while the module is loaded.
  It does not stop at unloading either when the handler was already called: it runs after the list was freed
  and sets the timer of the module that is gone.
\<close>

theorem mp1_timer_lifetime:
  assumes "reach mp1_start mp1_step s"
  shows "\<not> lock s \<and>
    (p_list s \<noteq> [] \<longrightarrow> (mp1_timer s \<noteq> None \<or> handler_due s) \<and> (\<exists>t. run_handler k s = Inr t \<and> mp1_timer t \<noteq> None)) \<and>
    (mp1_wq s \<longrightarrow> (\<exists>t. mp1_exit s = Inr t \<and> p_list t = [] \<and> mp1_timer t = None \<and> handler_due t = handler_due s \<and>
       (\<exists>u. run_handler k t = Inr u \<and> mp1_timer u \<noteq> None)))"
  using mp1.reachable_inv [OF assms] mp1_timer_never_stops [OF assms] mp1_unload_rearm [OF assms]
  unfolding mp1_inv_def by blast

theorem mp1_timer_lifetime_witness:
  "\<exists>t u. mp1_exit (expire two_listed) = Inr t \<and> handler_due t \<and> run_handler example_mp1 t = Inr u \<and> mp1_timer u \<noteq> None"
proof -
  have "mp1_wq (expire two_listed)" "handler_due (expire two_listed)" by (simp_all add: expire_def mp1_states)
  then show ?thesis using mp1_timer_lifetime [OF due_reach, of example_mp1] by auto
qed

end
