(* ===== verification/Mp1_Interleaving.thy ===== *)
theory Mp1_Interleaving
  imports Mp1_Props
begin

text \<open>
  The file operations and the timer's handler of \<open>MP1/mp1.c\<close> as threads that take turns. The list is only
  touched under the spin lock, and such a section is one step; the static flags \<open>timer_start\<close> and
  \<open>finished\<close> and the timer are touched outside it, one statement per step.
\<close>

section \<open>Threads\<close>

datatype mp1_thread =
    Insert_process u32
  | Check_start
  | Setup_timer
  | Mod_timer
  | Set_start
  | Check_finished nat
  | Clear_finished
  | Set_finished nat
  | Print_list nat
  | Sweep
  | Rearm
  | Done string

text \<open>\<open>Done\<close> holds what a reader got. Setting up a timer that is pending breaks the kernel's timer list.\<close>

fun mp1_thread_step :: "mp1_kernel \<Rightarrow> mp1_thread \<Rightarrow> mp1_state \<Rightarrow> (mp1_thread \<times> mp1_state) result" where
  "mp1_thread_step k (Insert_process p) s =
     rbind (spin_lock_mp1 s) (\<lambda>s.
     Inr (Check_start, spin_unlock_mp1 (s\<lparr>p_list := p_list s @ [\<lparr>pid = p, time = 0\<rparr>]\<rparr>)))"
| "mp1_thread_step k Check_start s = Inr (if \<not> timer_start s then Setup_timer else Done [], s)"
| "mp1_thread_step k Setup_timer s = (if mp1_timer s \<noteq> None then Inl TimerReinit else Inr (Mod_timer, s))"
| "mp1_thread_step k Mod_timer s = Inr (Set_start, s\<lparr>mp1_timer := Some (jiffies k + msecs_to_jiffies k 0)\<rparr>)"
| "mp1_thread_step k Set_start s = Inr (Done [], s\<lparr>timer_start := True\<rparr>)"
| "mp1_thread_step k (Check_finished n) s = Inr (if finished s then Clear_finished else Set_finished n, s)"
| "mp1_thread_step k Clear_finished s = Inr (Done [], s\<lparr>finished := False\<rparr>)"
| "mp1_thread_step k (Set_finished n) s = Inr (Print_list n, s\<lparr>finished := True\<rparr>)"
| "mp1_thread_step k (Print_list n) s =
     rbind (spin_lock_mp1 s) (\<lambda>s.
     rbind (status_lines n (\<lambda>itr. Inr (process_line itr)) [] (p_list s)) (\<lambda>buf.
     Inr (Done buf, spin_unlock_mp1 s)))"
| "mp1_thread_step k Sweep s =
     rbind (spin_lock_mp1 s) (\<lambda>s. Inr (Rearm, spin_unlock_mp1 (s\<lparr>p_list := refresh_list k (p_list s)\<rparr>)))"
| "mp1_thread_step k Rearm s = Inr (Done [], s\<lparr>mp1_timer := Some (jiffies k + msecs_to_jiffies k 5000)\<rparr>)"
| "mp1_thread_step k (Done r) s = Inr (Done r, s)"

section \<open>Turns\<close>

type_synonym mp1_par = "mp1_thread list \<times> mp1_state"

definition mp1_turn :: "mp1_kernel \<Rightarrow> nat \<Rightarrow> mp1_par \<Rightarrow> mp1_par result" where
  "mp1_turn k i c = (case c of (ts, s) \<Rightarrow> rbind (mp1_thread_step k (ts ! i) s) (\<lambda>(th, s). Inr (ts[i := th], s)))"

fun mp1_turns :: "mp1_kernel \<Rightarrow> nat list \<Rightarrow> mp1_par \<Rightarrow> mp1_par result" where
  "mp1_turns k [] c = Inr c"
| "mp1_turns k (i # is) c = rbind (mp1_turn k i c) (mp1_turns k is)"

text \<open>
  The loaded module: a process writes its pid or reads, the timer expires and its handler starts, or a thread
  takes a turn.
\<close>

inductive mp1_par_step :: "mp1_par \<Rightarrow> mp1_par \<Rightarrow> bool" where
  call_write: "mp1_par_step (ts, s) (ts @ [Insert_process p], s)"
| call_read: "mp1_par_step (ts, s) (ts @ [Check_finished n], s)"
| timer_expires: "mp1_timer s \<noteq> None \<Longrightarrow> mp1_par_step (ts, s) (ts @ [Sweep], s\<lparr>mp1_timer := None\<rparr>)"
| thread_turn: "i < length ts \<Longrightarrow> mp1_turn k i (ts, s) = Inr c \<Longrightarrow> mp1_par_step (ts, s) c"

inductive_cases mp1_par_stepE: "mp1_par_step c d"

definition mp1_par_start :: "mp1_par \<Rightarrow> bool" where
  "mp1_par_start c \<longleftrightarrow> fst c = [] \<and> mp1_start (snd c)"

section \<open>A thread alone\<close>

lemma insert_alone:
  assumes "\<not> lock s" "node_ok k" "\<not> timer_start s" "mp1_timer s = None"
  shows "mp1_turns k [0, 0, 0, 0, 0] ([Insert_process p], s) = Inr ([Done []], listed k p s)"
    and "mp1_write k (show_u p @ [newline]) s = Inr (length (show_u p @ [newline]), listed k p s)"
  using assms write_echo [of s k p]
  by (simp_all add: mp1_turn_def spin_lock_mp1_def spin_unlock_mp1_def listed_def)

lemma insert_alone_started:
  assumes "\<not> lock s" "timer_start s"
  shows "mp1_turns k [0, 0] ([Insert_process p], s) = Inr ([Done []], listed k p s)"
  using assms by (cases s) (simp add: mp1_turn_def spin_lock_mp1_def spin_unlock_mp1_def listed_def)

lemma read_alone:
  assumes "\<not> lock s"
  shows "mp1_turns k (if finished s then [0, 0] else [0, 0, 0]) ([Check_finished n], s) =
    rbind (mp1_read n s) (\<lambda>(buf, t). Inr ([Done buf], t))"
  using assms by (cases "status_lines n (\<lambda>itr. Inr (process_line itr)) [] (p_list s)")
    (auto simp: mp1_turn_def mp1_read_def spin_lock_mp1_def spin_unlock_mp1_def Let_def)

lemma handler_alone:
  "\<not> lock s \<Longrightarrow> mp1_turns k [0, 0] ([Sweep], s) = rbind (mp1_time_handler k s) (\<lambda>t. Inr ([Done []], t))"
  by (simp add: mp1_turn_def mp1_time_handler_def spin_lock_mp1_def spin_unlock_mp1_def Let_def)

section \<open>The invariant\<close>

text \<open>
  The lock is free between steps. Once \<open>timer_start\<close> is set, or a writer has just set the timer, the timer is pending
  or a handler is under way; while a process is listed and \<open>timer_start\<close> is not set, a writer is on its way to set it.
\<close>

definition handling :: "mp1_thread \<Rightarrow> bool" where
  "handling th \<longleftrightarrow> th = Sweep \<or> th = Rearm"

definition starting :: "mp1_thread \<Rightarrow> bool" where
  "starting th \<longleftrightarrow> th \<in> {Check_start, Setup_timer, Mod_timer, Set_start}"

definition mp1_par_inv :: "mp1_par \<Rightarrow> bool" where
  "mp1_par_inv c \<longleftrightarrow> (case c of (ts, s) \<Rightarrow> \<not> lock s \<and>
     (timer_start s \<or> Set_start \<in> set ts \<longrightarrow> mp1_timer s \<noteq> None \<or> (\<exists>th\<in>set ts. handling th)) \<and>
     (p_list s \<noteq> [] \<longrightarrow> timer_start s \<or> (\<exists>th\<in>set ts. starting th)))"

lemma update_keeps: "i < length ts \<Longrightarrow> \<exists>th\<in>set ts. P th \<Longrightarrow> P (ts ! i) \<longrightarrow> P y \<Longrightarrow> \<exists>th\<in>set (ts[i := y]). P th"
  by (metis in_set_conv_nth length_list_update nth_list_update_eq nth_list_update_neq)

lemma update_old: "x \<in> set (ts[i := y]) \<Longrightarrow> x = y \<or> x \<in> set ts"
  by (meson set_update_subset_insert insertE subsetD)

text \<open>What a step of a thread does to the parts of the invariant, and to the processes that live.\<close>

lemma thread_step_effect:
  assumes "mp1_thread_step k th s = Inr (th', s')" "\<not> lock s"
  shows "\<not> lock s'"
    and "timer_start s' \<or> th' = Set_start \<Longrightarrow> timer_start s \<or> th = Set_start \<or> mp1_timer s' \<noteq> None"
    and "mp1_timer s \<noteq> None \<Longrightarrow> mp1_timer s' \<noteq> None"
    and "handling th \<Longrightarrow> handling th' \<or> mp1_timer s' \<noteq> None"
    and "timer_start s \<Longrightarrow> timer_start s'"
    and "p_list s' \<noteq> [] \<Longrightarrow> p_list s \<noteq> [] \<or> starting th'"
    and "starting th \<Longrightarrow> starting th' \<or> timer_start s'"
    and "q \<in> set (p_list s) \<Longrightarrow> pid_task k (pid q) \<noteq> None \<Longrightarrow> pid q \<in> pid ` set (p_list s')"
proof -
  note defs = spin_lock_mp1_def spin_unlock_mp1_def handling_def starting_def result_simps
  show "\<not> lock s'" using assms by (cases th) (auto simp: defs split: if_splits)
  show "timer_start s' \<or> th' = Set_start \<Longrightarrow> timer_start s \<or> th = Set_start \<or> mp1_timer s' \<noteq> None"
    using assms by (cases th) (auto simp: defs split: if_splits)
  show "mp1_timer s \<noteq> None \<Longrightarrow> mp1_timer s' \<noteq> None"
    using assms by (cases th) (auto simp: defs split: if_splits)
  show "handling th \<Longrightarrow> handling th' \<or> mp1_timer s' \<noteq> None"
    using assms by (cases th) (auto simp: defs split: if_splits)
  show "timer_start s \<Longrightarrow> timer_start s'"
    using assms by (cases th) (auto simp: defs split: if_splits)
  show "p_list s' \<noteq> [] \<Longrightarrow> p_list s \<noteq> [] \<or> starting th'"
    using assms by (cases th) (auto simp: defs refresh_list_eq split: if_splits)
  show "starting th \<Longrightarrow> starting th' \<or> timer_start s'"
    using assms by (cases th) (auto simp: defs split: if_splits)
  assume q: "q \<in> set (p_list s)" "pid_task k (pid q) \<noteq> None"
  then have "pid q \<in> pid ` set (refresh_list k (p_list s))"
    by (auto simp: refresh_list_eq get_cpu_use_mp1_def image_iff split: option.split)
  then show "pid q \<in> pid ` set (p_list s')"
    using assms q by (cases th) (auto simp: defs split: if_splits)
qed

lemma mp1_turn_keeps:
  assumes "mp1_par_inv (ts, s)" "i < length ts" "mp1_turn k i (ts, s) = Inr c"
  shows "mp1_par_inv c"
proof -
  obtain th' s' where st: "mp1_thread_step k (ts ! i) s = Inr (th', s')" and c: "c = (ts[i := th'], s')"
    using assms(3) by (auto simp: mp1_turn_def result_simps)
  have l: "\<not> lock s" using assms(1) by (simp add: mp1_par_inv_def)
  note e = thread_step_effect [OF st l]
  have mem: "ts ! i \<in> set ts" using assms(2) by simp
  have timer: "mp1_timer s' \<noteq> None \<or> (\<exists>th\<in>set (ts[i := th']). handling th)"
    if a: "timer_start s' \<or> Set_start \<in> set (ts[i := th'])"
  proof (cases "mp1_timer s' = None")
    case True
    have "timer_start s \<or> Set_start \<in> set ts" using a e(2) update_old [of Set_start ts i th'] mem True by auto
    moreover have "mp1_timer s = None" using e(3) True by blast
    ultimately have "\<exists>th\<in>set ts. handling th" using assms(1) by (auto simp: mp1_par_inv_def)
    then show ?thesis using update_keeps [OF assms(2), of handling th'] e(4) True by blast
  qed simp
  have list: "timer_start s' \<or> (\<exists>th\<in>set (ts[i := th']). starting th)" if a: "p_list s' \<noteq> []"
  proof (cases "timer_start s' \<or> starting th'")
    case True
    then show ?thesis using set_update_memI [OF assms(2)] by blast
  next
    case False
    then have "p_list s \<noteq> []" "\<not> timer_start s" "\<not> starting (ts ! i)" using e(5-7) a by auto
    then have "\<exists>th\<in>set ts. starting th" using assms(1) by (simp add: mp1_par_inv_def)
    then show ?thesis using update_keeps [OF assms(2), of starting th'] \<open>\<not> starting (ts ! i)\<close> by blast
  qed
  show ?thesis unfolding c mp1_par_inv_def using e(1) timer list by simp
qed

lemma mp1_par_step_inv: "mp1_par_inv c \<Longrightarrow> mp1_par_step c d \<Longrightarrow> mp1_par_inv d"
proof (erule mp1_par_stepE)
  fix i ts k s
  assume "mp1_par_inv c" "c = (ts, s)" "i < length ts" "mp1_turn k i (ts, s) = Inr d"
  then show ?thesis using mp1_turn_keeps by blast
qed (auto simp: mp1_par_inv_def handling_def starting_def)

interpretation mp1_par: inductive_invariant mp1_par_start mp1_par_step mp1_par_inv
proof unfold_locales
  show "mp1_par_start c \<Longrightarrow> mp1_par_inv c" for c
    by (auto simp: mp1_par_start_def mp1_start_def mp1_init_def mp1_static_def mp1_par_inv_def)
qed (rule mp1_par_step_inv)

section \<open>The first two writers\<close>

text \<open>
  Two writers that both look at \<open>timer_start\<close> before one of them sets it.
\<close>

definition first_writers :: "nat list" where
  "first_writers = [0, 1, 0, 1, 0, 0, 1]"

lemma first_writers_reinit:
  "\<not> lock s \<Longrightarrow> \<not> timer_start s \<Longrightarrow> mp1_timer s = None \<Longrightarrow>
   mp1_turns k first_writers ([Insert_process p, Insert_process q], s) = Inl TimerReinit"
  by (simp add: first_writers_def mp1_turn_def spin_lock_mp1_def spin_unlock_mp1_def)

text \<open>Two readers that both look at \<open>finished\<close> before one of them sets it.\<close>

definition first_readers :: "nat list" where
  "first_readers = [0, 1, 0, 1, 0, 1]"

lemma first_readers_both:
  assumes "\<not> lock s" "\<not> finished s" "fits n (p_list s) (mp1_contents s)" "fits m (p_list s) (mp1_contents s)"
  shows "mp1_turns k first_readers ([Check_finished n, Check_finished m], s) =
    Inr ([Done (mp1_contents s), Done (mp1_contents s)], s\<lparr>finished := True, lock := False\<rparr>)"
proof -
  have "\<forall>q\<in>set (p_list s). (Inr (process_line q) :: string result) = Inr (process_line q)" by simp
  note printed = status_lines_total [OF this, of _ "[]"]
  show ?thesis using assms
    by (simp add: first_readers_def mp1_turn_def spin_lock_mp1_def spin_unlock_mp1_def printed fits_def mp1_contents_def)
qed

end
