(* ===== verification/Mp1_Race_Props.thy ===== *)
theory Mp1_Race_Props
  imports Mp1_Interleaving
begin

text \<open>
  The properties of MP1's file operations and timer when they interleave.
\<close>

text \<open>
  C35: What survives every interleaving of writers, readers and timer handlers. Between any two steps the lock is free;
  whenever no call is under way and a process is listed, the timer is pending, so the periodic refresh goes on; and no step
  of any thread loses a listed process that still lives.
\<close>

theorem mp1_interleavings:
  assumes "reach mp1_par_start mp1_par_step (ts, s)"
  shows "\<not> lock s \<and>
    (p_list s \<noteq> [] \<and> (\<forall>th\<in>set ts. \<exists>r. th = Done r) \<longrightarrow> timer_start s \<and> mp1_timer s \<noteq> None) \<and>
    (\<forall>k i c q. mp1_turn k i (ts, s) = Inr c \<and> q \<in> set (p_list s) \<and> pid_task k (pid q) \<noteq> None \<longrightarrow>
      pid q \<in> pid ` set (p_list (snd c)))"
proof -
  have inv: "mp1_par_inv (ts, s)" using assms by (rule mp1_par.reachable_inv)
  have "timer_start s \<and> mp1_timer s \<noteq> None" if "p_list s \<noteq> []" "\<forall>th\<in>set ts. \<exists>r. th = Done r"
    using inv that by (auto simp: mp1_par_inv_def handling_def starting_def)
  moreover have "pid q \<in> pid ` set (p_list (snd c))"
    if "mp1_turn k i (ts, s) = Inr c" "q \<in> set (p_list s)" "pid_task k (pid q) \<noteq> None" for k i c q
    using that inv by (auto simp: mp1_turn_def mp1_par_inv_def result_simps dest: thread_step_effect(8))
  moreover have "\<not> lock s" using inv by (simp add: mp1_par_inv_def)
  ultimately show ?thesis by blast
qed

lemma writer_inserted:
  "reach mp1_par_start mp1_par_step ([Check_start], mp1_loaded\<lparr>p_list := [\<lparr>pid = 7, time = 0\<rparr>]\<rparr>)"
proof -
  have "mp1_par_start ([], mp1_loaded)"
    unfolding mp1_par_start_def mp1_start_def mp1_loaded_def by auto
  then have "reach mp1_par_start mp1_par_step ([], mp1_loaded)" by (rule reach_start)
  then have 1: "reach mp1_par_start mp1_par_step ([Insert_process 7], mp1_loaded)"
    using call_write [of "[]" mp1_loaded 7] by (auto intro: reach_step)
  have "mp1_turn example_mp1 0 ([Insert_process 7], mp1_loaded) =
      Inr ([Check_start], mp1_loaded\<lparr>p_list := [\<lparr>pid = 7, time = 0\<rparr>]\<rparr>)"
    by (simp add: mp1_turn_def spin_lock_mp1_def spin_unlock_mp1_def mp1_states)
  from thread_turn [OF _ this] show ?thesis by (auto intro: reach_step [OF 1])
qed

theorem mp1_interleavings_witness:
  "\<exists>c. mp1_turn example_mp1 0 ([Check_start], mp1_loaded\<lparr>p_list := [\<lparr>pid = 7, time = 0\<rparr>]\<rparr>) = Inr c \<and>
    7 \<in> pid ` set (p_list (snd c))"
proof -
  have t: "mp1_turn example_mp1 0 ([Check_start], mp1_loaded\<lparr>p_list := [\<lparr>pid = 7, time = 0\<rparr>]\<rparr>) =
      Inr ([Setup_timer], mp1_loaded\<lparr>p_list := [\<lparr>pid = 7, time = 0\<rparr>]\<rparr>)"
    by (simp add: mp1_turn_def mp1_states)
  have "\<lparr>pid = 7, time = 0\<rparr> \<in> set (p_list (mp1_loaded\<lparr>p_list := [\<lparr>pid = 7, time = 0\<rparr>]\<rparr>))"
    "pid_task example_mp1 (pid \<lparr>pid = 7, time = 0\<rparr>) \<noteq> None"
    by (simp_all add: example_mp1_def)
  with mp1_interleavings [OF writer_inserted] t show ?thesis by fastforce
qed

text \<open>
  The first two writers. One after the other they list their pids and start the timer once. But when both look at
  \<open>timer_start\<close>, which no lock protects, before one of them sets it, the second sets up the timer that the
  first has made pending.
\<close>

theorem first_writers_race:
  assumes "\<not> lock s" "\<not> timer_start s" "mp1_timer s = None"
  shows "mp1_turns k [0, 0, 0, 0, 0, 1, 1] ([Insert_process p, Insert_process q], s) =
      Inr ([Done [], Done []], listed k q (listed k p s)) \<and>
    mp1_turns k [0, 1, 0, 1, 0, 0, 1] ([Insert_process p, Insert_process q], s) = Inl TimerReinit"
  using first_writers_reinit [OF assms, of k p q] assms
  by (simp add: first_writers_def mp1_turn_def spin_lock_mp1_def spin_unlock_mp1_def listed_def)

theorem first_writers_race_witness:
  "mp1_turns example_mp1 [0, 1, 0, 1, 0, 0, 1] ([Insert_process 7, Insert_process 8], mp1_loaded) = Inl TimerReinit"
  using first_writers_race [of mp1_loaded example_mp1 7 8] by (simp add: mp1_states)

text \<open>
  Two readers that both look at \<open>finished\<close> before one of them sets it both get the file, although only
  one of them will find the end of it with its next read.
\<close>

theorem first_readers_race:
  assumes "\<not> lock s" "\<not> finished s" "fits n (p_list s) (mp1_contents s)" "fits m (p_list s) (mp1_contents s)"
  shows "mp1_turns k [0, 1, 0, 1, 0, 1] ([Check_finished n, Check_finished m], s) =
    Inr ([Done (mp1_contents s), Done (mp1_contents s)], s\<lparr>finished := True, lock := False\<rparr>)"
  using first_readers_both [OF assms] unfolding first_readers_def .

theorem first_readers_race_witness:
  "\<exists>t. mp1_turns example_mp1 [0, 1, 0, 1, 0, 1] ([Check_finished 64, Check_finished 64], mp1_loaded) =
    Inr ([Done [], Done []], t)"
  using first_readers_race [of mp1_loaded 64 64 example_mp1]
  by (simp add: mp1_states mp1_contents_def fits_def)

text \<open>
  A thread that is not interrupted does what its function does.
\<close>

theorem mp1_threads_alone:
  assumes "\<not> lock s" "node_ok k"
  shows "(timer_start s \<or> mp1_timer s = None \<longrightarrow>
      mp1_turns k (if timer_start s then [0, 0] else [0, 0, 0, 0, 0]) ([Insert_process p], s) =
        rbind (mp1_write k (show_u p @ [newline]) s) (\<lambda>(r, t). Inr ([Done []], t))) \<and>
    mp1_turns k (if finished s then [0, 0] else [0, 0, 0]) ([Check_finished n], s) =
      rbind (mp1_read n s) (\<lambda>(buf, t). Inr ([Done buf], t)) \<and>
    mp1_turns k [0, 0] ([Sweep], s) = rbind (mp1_time_handler k s) (\<lambda>t. Inr ([Done []], t))"
  using insert_alone [of s k p] insert_alone_started [of s k p] write_echo [of s k p] read_alone [of s k n]
    handler_alone [of s k] assms
  by auto

theorem mp1_threads_alone_witness:
  "mp1_turns example_mp1 [0, 0, 0, 0, 0] ([Insert_process 7], mp1_loaded) =
    rbind (mp1_write example_mp1 (show_u (7 :: u32) @ [newline]) mp1_loaded) (\<lambda>(r, t). Inr ([Done []], t))"
  using mp1_threads_alone [of mp1_loaded example_mp1 7 0] by (simp add: mp1_states example_mp1_def)

end
