(* ===== verification/Mp1_Session.thy ===== *)
theory Mp1_Session
  imports Mp1_Props
begin

text \<open>
  The user program \<open>MP1/userapp.c\<close> run against the module: the shell commands of its children
  write to the status file and read it, and the module's timer refreshes the list while a child
  calculates.
\<close>

section \<open>The program on the module\<close>

text \<open>
  While a child calculates the timer expires and its handler runs, once for each kernel of the list.
\<close>

fun refresh_all :: "mp1_kernel list \<Rightarrow> mp1_state \<Rightarrow> mp1_state option" where
  "refresh_all [] s = Some s"
| "refresh_all (k # ks) s =
     (if mp1_timer s = None then None
      else (case run_handler k (expire s) of Inl e \<Rightarrow> None | Inr t \<Rightarrow> refresh_all ks t))"

text \<open>What \<open>echo\<close> writes: its argument, up to the redirection, and a newline.\<close>

definition echo_output :: "string \<Rightarrow> string" where
  "echo_output cmd = takeWhile (\<lambda>c. c \<noteq> CHR '' '') (drop 5 cmd) @ [newline]"

text \<open>
  The events of the program in turn, with what its children print: \<open>during p\<close> are the kernels at the runs of the
  handler while child \<open>p\<close> calculates, \<open>n\<close> is the size of the reads of \<open>cat\<close>.
\<close>

fun perform :: "mp1_kernel \<Rightarrow> nat \<Rightarrow> (u32 \<Rightarrow> mp1_kernel list) \<Rightarrow> mp1_event list \<Rightarrow> mp1_state \<Rightarrow>
    (string list \<times> mp1_state) option" where
  "perform k n during [] s = Some ([], s)"
| "perform k n during (System p cmd # es) s =
     (if take 5 cmd = ''echo '' then
        (case mp1_write k (echo_output cmd) s of Inl e \<Rightarrow> None | Inr (m, t) \<Rightarrow> perform k n during es t)
      else
        (case drain 2 mp1_read n s of
           Some (Inr (out, t)) \<Rightarrow> map_option (\<lambda>(outs, u). (out # outs, u)) (perform k n during es t)
         | _ \<Rightarrow> None))"
| "perform k n during (Calculate p # es) s = Option.bind (refresh_all (during p) s) (perform k n during es)"
| "perform k n during (e # es) s = perform k n during es s"

section \<open>A refresh\<close>

lemma refresh_append: "refresh_list k (ps @ qs) = refresh_list k ps @ refresh_list k qs"
  by (simp add: refresh_list_eq)

lemma refresh_pids: "pid ` set (refresh_list k ps) = {p \<in> pid ` set ps. pid_task k p \<noteq> None}"
  by (induction ps) (auto simp: get_cpu_use_mp1_def split: option.split)

text \<open>The list, its timer pending, between two runs of the handler.\<close>

definition ticking :: "mp1_state \<Rightarrow> bool" where
  "ticking s \<longleftrightarrow> \<not> lock s \<and> \<not> finished s \<and> (timer_start s \<longrightarrow> mp1_timer s \<noteq> None)"

lemma refresh_all_runs:
  assumes "ticking s" "timer_start s" "p_list s = qs @ [\<lparr>pid = p, time = t0\<rparr>]" "ks \<noteq> []"
    "\<forall>k\<in>set ks. pid_task k p \<noteq> None"
  shows "\<exists>t qs'. refresh_all ks s = Some t \<and> ticking t \<and> timer_start t \<and>
    p_list t = qs' @ [\<lparr>pid = p, time = task_utime (last ks) (the (pid_task (last ks) p))\<rparr>] \<and>
    pid ` set qs' \<subseteq> {q \<in> pid ` set qs. pid_task (last ks) q \<noteq> None}"
  using assms
proof (induction ks arbitrary: s qs t0)
  case (Cons k ks)
  let ?x = "\<lparr>pid = p, time = task_utime k (the (pid_task k p))\<rparr>"
  obtain a where a: "pid_task k p = Some a" using Cons.prems(5) by auto
  have l: "\<not> lock (expire s)" using Cons.prems(1) by (simp add: ticking_def expire_def)
  obtain t where t: "run_handler k (expire s) = Inr t" "ticking t" "timer_start t" "p_list t = refresh_list k qs @ [?x]"
    using run_handler_eq [OF l, of k] Cons.prems(1-3) a
    by (simp add: ticking_def expire_def refresh_append get_cpu_use_mp1_def)
  have go: "refresh_all (k # ks) s = refresh_all ks t" using t(1) Cons.prems(1,2) by (auto simp: ticking_def)
  show ?case
  proof (cases "ks = []")
    case True
    then show ?thesis using t go refresh_pids [of k qs] by auto
  next
    case False
    obtain u qs' where "refresh_all ks t = Some u" "ticking u" "timer_start u"
        "p_list u = qs' @ [\<lparr>pid = p, time = task_utime (last ks) (the (pid_task (last ks) p))\<rparr>]"
        "pid ` set qs' \<subseteq> {q \<in> pid ` set (refresh_list k qs). pid_task (last ks) q \<noteq> None}"
      using Cons.IH [OF t(2,3,4) False] Cons.prems(5) by auto
    then show ?thesis using go False refresh_pids [of k qs] by (intro exI [of _ u] exI [of _ qs']) auto
  qed
qed simp

section \<open>One child\<close>

lemma echo_command: "take 5 (register_command p) = ''echo ''" "echo_output (register_command p) = show_u p @ [newline]"
proof -
  have space: "CHR '' '' \<notin> set (show_u p)" using u32_codec.print_digits [of "CHR '' ''" p] by (auto simp: is_digit_def)
  have "takeWhile (\<lambda>c. c \<noteq> CHR '' '') (show_u p @ '' > /proc/mp1/status'') = show_u p"
    by (subst takeWhile_append2) (use space in auto)
  then show "echo_output (register_command p) = show_u p @ [newline]"
    by (simp add: echo_output_def register_command_def)
qed (simp add: register_command_def)

text \<open>The line of a process is never longer than 34 bytes.\<close>

lemma show_d_length: "length (show_d (w :: u64)) \<le> 20"
proof -
  have "\<bar>sint w\<bar> \<le> 2 ^ 63" using sint_lt [of w] sint_ge [of w] by auto
  then have "nat \<bar>sint w\<bar> < 10 ^ Suc 18" by simp
  then have "length (show_dec (nat \<bar>sint w\<bar>)) \<le> Suc 18" by (rule show_dec_length)
  then show ?thesis by (auto simp: show_d_def show_int_def)
qed

lemma process_line_length: "length (process_line q) \<le> 34"
  using show_u32_length [of "pid q"] show_d_length [of "time q"] by (simp add: process_line_def)

lemma child_runs:
  assumes "ticking s" "node_ok k" "during p \<noteq> []" "\<forall>j\<in>set (during p). pid_task j p \<noteq> None" "34 < n"
    and "\<forall>q\<in>pid ` set (p_list s). pid_task (last (during p)) q = None"
  defines "x \<equiv> \<lparr>pid = p, time = task_utime (last (during p)) (the (pid_task (last (during p)) p))\<rparr>"
  shows "\<exists>t. ticking t \<and> p_list t = [x] \<and> perform k n during (child_turn (Some p) @ es) s =
    map_option (\<lambda>(outs, u). (process_line x # outs, u)) (perform k n during es t)"
proof -
  let ?s = "listed k p s"
  have l: "\<not> lock s" using assms(1) by (simp add: ticking_def)
  have s: "ticking ?s" "timer_start ?s" "p_list ?s = p_list s @ [\<lparr>pid = p, time = 0\<rparr>]"
    using assms(1) by (simp_all add: ticking_def listed_def)
  obtain t qs where t: "refresh_all (during p) ?s = Some t" "ticking t" "p_list t = qs @ [x]"
      "pid ` set qs \<subseteq> {q \<in> pid ` set (p_list s). pid_task (last (during p)) q \<noteq> None}"
    using refresh_all_runs [OF s assms(3,4)] unfolding x_def by blast
  have "{q \<in> pid ` set (p_list s). pid_task (last (during p)) q \<noteq> None} = {}" using assms(6) by auto
  then have "pid ` set qs = {}" using t(4) by (simp only: subset_empty)
  then have list: "p_list t = [x]" using t(3) by simp
  have c: "mp1_contents t = process_line x" using list by (simp add: mp1_contents_def)
  have "fits n (p_list t) (mp1_contents t)" using process_line_length [of x] assms(5) c by (simp add: fits_def)
  moreover have "\<not> lock t" "\<not> finished t" using t(2) by (simp_all add: ticking_def)
  moreover have "mp1_contents t \<noteq> []" using c by (simp add: process_line_def)
  ultimately have "mp1_read n t = Inr (process_line x, t\<lparr>finished := True, lock := False\<rparr>)"
    using mp1_read_eq [of t n] c by simp
  then have d: "drain 2 mp1_read n t = Some (Inr (process_line x, t))"
    using t(2) by (simp add: numeral_2_eq_2 mp1_read_def ticking_def process_line_def)
  have not_echo: "take 5 ''cat /proc/mp1/status'' \<noteq> ''echo ''" by simp
  have "perform k n during (child_turn (Some p) @ es) s =
      map_option (\<lambda>(outs, u). (process_line x # outs, u)) (perform k n during es t)"
    using write_echo [OF l assms(2), of p] t(1) d by (simp add: child_turn_def echo_command)
  then show ?thesis using t(2) list by blast
qed

section \<open>All children\<close>

definition children :: "u32 option list \<Rightarrow> u32 list" where
  "children forks = List.map_filter id forks"

lemma children_simps [simp]:
  "children [] = []" "children (None # fs) = children fs" "children (Some p # fs) = p # children fs"
  by (simp_all add: children_def map_filter_simps)

text \<open>Every child lives while it calculates, the module refreshes the list meanwhile, and the earlier ones have ended.\<close>

fun one_at_a_time :: "(u32 \<Rightarrow> mp1_kernel list) \<Rightarrow> u32 list \<Rightarrow> u32 list \<Rightarrow> bool" where
  "one_at_a_time during earlier [] = True"
| "one_at_a_time during earlier (p # ps) =
     (during p \<noteq> [] \<and> list_all (\<lambda>j. pid_task j p \<noteq> None) (during p) \<and>
      list_all (\<lambda>q. pid_task (last (during p)) q = None) earlier \<and> one_at_a_time during (p # earlier) ps)"

definition final_line :: "(u32 \<Rightarrow> mp1_kernel list) \<Rightarrow> u32 \<Rightarrow> string" where
  "final_line during p =
     show_u p @ '': '' @ show_d (task_utime (last (during p)) (the (pid_task (last (during p)) p))) @ [newline]"

lemma turns_run:
  assumes "node_ok k" "34 < n"
  shows "ticking s \<Longrightarrow> pid ` set (p_list s) \<subseteq> set earlier \<Longrightarrow> one_at_a_time during earlier (children forks) \<Longrightarrow>
    \<exists>t. perform k n during (concat (map child_turn forks)) s = Some (map (final_line during) (children forks), t) \<and> ticking t"
proof (induction forks arbitrary: s earlier)
  case (Cons f forks)
  show ?case
  proof (cases f)
    case None
    then show ?thesis using Cons by (simp add: child_turn_def)
  next
    case (Some p)
    let ?x = "\<lparr>pid = p, time = task_utime (last (during p)) (the (pid_task (last (during p)) p))\<rparr>"
    have h: "during p \<noteq> []" "\<forall>j\<in>set (during p). pid_task j p \<noteq> None"
        "\<forall>q\<in>pid ` set (p_list s). pid_task (last (during p)) q = None"
        "one_at_a_time during (p # earlier) (children forks)"
      using Cons.prems Some by (auto simp: list_all_iff)
    obtain t where t: "ticking t" "p_list t = [?x]" "perform k n during (child_turn (Some p) @ concat (map child_turn forks)) s =
        map_option (\<lambda>(outs, u). (process_line ?x # outs, u)) (perform k n during (concat (map child_turn forks)) t)"
      using child_runs [where during = during and p = p, OF Cons.prems(1) assms(1) h(1,2) assms(2) h(3)] by blast
    have "pid ` set (p_list t) \<subseteq> set (p # earlier)" using t(2) by simp
    from Cons.IH [OF t(1) this h(4)] obtain u where
      u: "perform k n during (concat (map child_turn forks)) t = Some (map (final_line during) (children forks), u)" "ticking u"
      by blast
    have "process_line ?x = final_line during p" by (simp add: process_line_def final_line_def)
    then show ?thesis using t(3) u Some by simp
  qed
qed simp

section \<open>The property\<close>

text \<open>
  C34: The user program on a module that was just loaded. Whatever its forks return, when each child lives while it
  calculates, the timer's handler runs at least once meanwhile, and the children before it have ended by the last of those
  runs, the shell commands of the program all return, and each child prints exactly one line: its own pid with
  the CPU time it had at the last refresh, without a trace of the children that have ended.
\<close>

theorem mp1_program_prints:
  assumes "mp1_start s" "node_ok k" "34 < n" "one_at_a_time during [] (children (take 3 forks))"
  shows "\<exists>t. perform k n during (userapp_mp1 forks) s = Some (map (\<lambda>p. show_u p @ '': '' @
    show_d (task_utime (last (during p)) (the (pid_task (last (during p)) p))) @ [newline]) (children (take 3 forks)), t)"
proof -
  have "ticking s" "p_list s = []"
    using assms(1) by (auto simp: mp1_start_def mp1_init_def mp1_static_def ticking_def)
  then show ?thesis
    using turns_run [OF assms(2,3) _ _ assms(4)] unfolding userapp_mp1_def final_line_def [abs_def] by auto
qed

text \<open>Children 7 and 8, the second fork fails; each has its handler run once, with CPU times 42 and 99.\<close>

definition alone_at :: "u32 \<Rightarrow> u64 \<Rightarrow> mp1_kernel" where
  "alone_at p ticks = example_mp1\<lparr>pid_task := [p \<mapsto> 1], task_utime := (\<lambda>_. ticks)\<rparr>"

definition during_run :: "u32 \<Rightarrow> mp1_kernel list" where
  "during_run p = [alone_at p (if p = 7 then 42 else 99)]"

theorem mp1_program_prints_witness:
  "\<exists>t. perform example_mp1 4096 during_run (userapp_mp1 [Some 7, None, Some 8]) mp1_loaded =
     Some ([''7: 42'' @ [newline], ''8: 99'' @ [newline]], t)"
proof -
  have s: "mp1_start mp1_loaded" unfolding mp1_start_def mp1_loaded_def by blast
  have k: "node_ok example_mp1" "34 < (4096 :: nat)" by (simp_all add: example_mp1_def)
  have o: "one_at_a_time during_run [] (children (take 3 [Some 7, None, Some 8]))"
    by (simp add: during_run_def alone_at_def)
  have d: "show_u (7 :: u32) = ''7''" "show_u (8 :: u32) = ''8''" "show_d (42 :: u64) = ''42''" "show_d (99 :: u64) = ''99''"
    by (simp_all add: show_u_def show_d_def show_int_def show_dec.simps digit_char_def char_of_def bit_simps)
  from mp1_program_prints [OF s k o] show ?thesis
    using d by (simp add: during_run_def alone_at_def)
qed

end
