(* ===== verification/Mp2_Scheduler.thy ===== *)
theory Mp2_Scheduler
  imports ProcFile
begin

unbundle bit_operations_syntax

text \<open>
  The task list of the rate-monotonic scheduler, \<open>MP2/scheduler.h\<close> and \<open>MP2/scheduler.c\<close>:
  registration with admission control, the yield that ends a period, deregistration, the
  search for the READY task of the shortest period, and the start and the end of the list.
  Tasks are slab objects at addresses, the list is the sequence of their addresses, so that the
  pointers \<open>ct\<close> and \<open>dereg_task\<close> are compared and dereferenced as the code does.
\<close>

section \<open>Data\<close>

definition SLEEPING :: u32 where
  "SLEEPING = 1"

definition READY :: u32 where
  "READY = 2"

definition RUNNING :: u32 where
  "RUNNING = 3"

lemmas task_states [simp] = SLEEPING_def READY_def RUNNING_def

text \<open>A kernel timer: the argument of its callback and, while it is pending, its expiry.\<close>

record timer_list =
  tdata :: u64
  expires :: "u64 option"

record mp2_task_struct =
  linux_task :: "addr option"
  timer :: timer_list
  state :: u32
  pid :: u32
  period :: u64
  proc_time :: u64
  next_ddl :: u64

type_synonym slab = "addr \<Rightarrow> mp2_task_struct option"

text \<open>
  The calls a module makes into the Linux scheduler, in the order it makes them; the process
  they act on is a pointer to its \<open>task_struct\<close>.
\<close>

datatype policy = SCHED_NORMAL | SCHED_FIFO

datatype kcall =
    Wake_up_process addr
  | Sched_setscheduler addr policy int
  | Set_task_state addr
  | Schedule

text \<open>
  The globals of \<open>mp2_main.c\<close> and \<open>scheduler.c\<close>: the list \<open>tl\<close> with the slab cache its tasks
  live in, the pointer \<open>ct\<close> to the current task, the admitted utility, the two mutexes and
  the spinlock (held or not), whether the dispatching thread is there and has been woken, the
  \<open>/proc\<close> entries and the static flag of the read handler.
\<close>

record mp2_state =
  task_list :: "addr list"
  slab :: slab
  ct :: "addr option"
  total_util :: u64
  tl_lock :: bool
  ct_lock :: bool
  spin_held :: bool
  dispatcher :: bool
  woken :: bool
  calls :: "kcall list"
  proc_entries :: "string list"
  read_finished :: bool

definition mp2_static :: mp2_state where
  "mp2_static = \<lparr>task_list = [], slab = (\<lambda>_. None), ct = None, total_util = 0, tl_lock = False,
     ct_lock = False, spin_held = False, dispatcher = False, woken = False, calls = [],
     proc_entries = [], read_finished = False\<rparr>"

section \<open>Locks, pointers and kernel calls\<close>

text \<open>
  A mutex that is held when it is asked for is held by a call that has already returned (calls
  are taken one after the other here), so the caller sleeps for good.
\<close>

definition lock_tl :: "mp2_state \<Rightarrow> mp2_state result" where
  "lock_tl s = (if tl_lock s then Inl Deadlock else Inr (s\<lparr>tl_lock := True\<rparr>))"

definition unlock_tl :: "mp2_state \<Rightarrow> mp2_state" where
  "unlock_tl s = s\<lparr>tl_lock := False\<rparr>"

definition lock_ct :: "mp2_state \<Rightarrow> mp2_state result" where
  "lock_ct s = (if ct_lock s then Inl Deadlock else Inr (s\<lparr>ct_lock := True\<rparr>))"

definition unlock_ct :: "mp2_state \<Rightarrow> mp2_state" where
  "unlock_ct s = s\<lparr>ct_lock := False\<rparr>"

definition deref :: "slab \<Rightarrow> addr \<Rightarrow> mp2_task_struct result" where
  "deref h a = (case h a of None \<Rightarrow> Inl UseAfterFree | Some t \<Rightarrow> Inr t)"

definition put_task :: "addr \<Rightarrow> mp2_task_struct \<Rightarrow> mp2_state \<Rightarrow> mp2_state" where
  "put_task a t s = s\<lparr>slab := (slab s)(a \<mapsto> t)\<rparr>"

definition emit :: "kcall list \<Rightarrow> mp2_state \<Rightarrow> mp2_state" where
  "emit cs s = s\<lparr>calls := calls s @ cs\<rparr>"

text \<open>A field of a \<open>task_struct\<close> is reached through a pointer that may be null.\<close>

definition linux_task_of :: "mp2_task_struct \<Rightarrow> addr result" where
  "linux_task_of t = (case linux_task t of None \<Rightarrow> Inl NullDeref | Some k \<Rightarrow> Inr k)"

definition wake_dispatcher :: "mp2_state \<Rightarrow> mp2_state" where
  "wake_dispatcher s = s\<lparr>woken := True\<rparr>"

lemmas lock_defs = lock_tl_def unlock_tl_def lock_ct_def unlock_ct_def
lemmas access_defs = put_task_def emit_def linux_task_of_def wake_dispatcher_def

lemma deref_Inr [simp]: "deref h a = Inr t \<longleftrightarrow> h a = Some t"
  by (simp add: deref_def split: option.splits)

lemma deref_Inl [simp]: "deref h a = Inl e \<longleftrightarrow> h a = None \<and> e = UseAfterFree"
  by (auto simp: deref_def split: option.splits)

lemma deref_Some [simp]: "h a = Some t \<Longrightarrow> deref h a = Inr t"
  by (simp add: deref_def)

text \<open>\<open>find_task_by_pid\<close> looks the pid up in the kernel's table, here the parameter \<open>pid_task\<close>.\<close>

definition find_task_by_pid :: "(u32 \<Rightarrow> addr option) \<Rightarrow> u32 \<Rightarrow> addr option" where
  "find_task_by_pid pid_task nr = pid_task nr"

section \<open>Searches in the list\<close>

text \<open>The first task of a pid, as \<open>Task_register\<close> and \<open>Task_deregister\<close> look for it.\<close>

fun find_pid :: "slab \<Rightarrow> u32 \<Rightarrow> addr list \<Rightarrow> addr option result" where
  "find_pid h p [] = Inr None"
| "find_pid h p (a # as) =
     rbind (deref h a) (\<lambda>t. if pid t = p then Inr (Some a) else find_pid h p as)"

text \<open>The last task of a pid: the loop of \<open>Task_yeild\<close> does not break.\<close>

fun find_last_pid :: "slab \<Rightarrow> u32 \<Rightarrow> addr option \<Rightarrow> addr list \<Rightarrow> addr option result" where
  "find_last_pid h p found [] = Inr found"
| "find_last_pid h p found (a # as) =
     rbind (deref h a) (\<lambda>t. find_last_pid h p (if pid t = p then Some a else found) as)"

fun highest_loop :: "slab \<Rightarrow> addr option \<Rightarrow> addr list \<Rightarrow> addr option result" where
  "highest_loop h highest [] = Inr highest"
| "highest_loop h highest (a # as) =
     rbind (deref h a) (\<lambda>t.
       if state t = 2 then
         (case highest of
            None \<Rightarrow> highest_loop h (Some a) as
          | Some b \<Rightarrow> rbind (deref h b) (\<lambda>u.
              if period t < period u then highest_loop h (Some a) as
              else highest_loop h highest as))
       else highest_loop h highest as)"

definition Task_get_highest :: "mp2_state \<Rightarrow> (addr option \<times> mp2_state) result" where
  "Task_get_highest s =
     rbind (lock_tl s) (\<lambda>s.
     rbind (highest_loop (slab s) None (task_list s)) (\<lambda>highest.
     Inr (highest, unlock_tl s)))"

section \<open>Registration and admission control\<close>

definition SHIFT_BITS :: nat where
  "SHIFT_BITS = 20"

definition MAX_UTIL :: u64 where
  "MAX_UTIL = 726663"

text \<open>The utility of a task in fixed point: \<open>(proc_time << SHIFT_BITS) / period\<close> on 64 bits.\<close>

definition task_util :: "u64 \<Rightarrow> u64 \<Rightarrow> u64" where
  "task_util c p = push_bit SHIFT_BITS c div p"

definition new_task :: "addr option \<Rightarrow> u32 \<Rightarrow> u64 \<Rightarrow> u64 \<Rightarrow> mp2_task_struct" where
  "new_task k p per proc =
     \<lparr>linux_task = k, timer = \<lparr>tdata = ucast p, expires = None\<rparr>, state = SLEEPING, pid = p,
      period = per, proc_time = proc, next_ddl = 0\<rparr>"

text \<open>
  The parts of \<open>Task_register\<close>: the check for the pid under \<open>tl_lock\<close>, which returns
  with the mutex held when the pid is there; admission, which traps on a zero period; the allocation of the new slab
  object, which is filled in before anyone else knows its address; and its insertion under \<open>tl_lock\<close>.
\<close>

definition register_check :: "u32 \<Rightarrow> mp2_state \<Rightarrow> (bool \<times> mp2_state) result" where
  "register_check p s =
     rbind (lock_tl s) (\<lambda>s.
     rbind (find_pid (slab s) p (task_list s)) (\<lambda>itr.
     if itr \<noteq> None then Inr (True, s) else Inr (False, unlock_tl s)))"

definition register_admit :: "u64 \<Rightarrow> u64 \<Rightarrow> mp2_state \<Rightarrow> (bool \<times> mp2_state) result" where
  "register_admit per proc s =
     (if per = 0 then Inl DivideError
      else if MAX_UTIL \<le> total_util s + task_util proc per then Inr (False, s)
      else Inr (True, s\<lparr>total_util := total_util s + task_util proc per\<rparr>))"

definition alloc_task ::
    "(u32 \<Rightarrow> addr option) \<Rightarrow> addr option \<Rightarrow> u32 \<Rightarrow> u64 \<Rightarrow> u64 \<Rightarrow> mp2_state \<Rightarrow> (addr \<times> mp2_state) result" where
  "alloc_task pid_task new p per proc s =
     (case new of
        None \<Rightarrow> Inl NullDeref
      | Some a \<Rightarrow> Inr (a, put_task a (new_task (find_task_by_pid pid_task p) p per proc) s))"

definition link_task :: "addr \<Rightarrow> mp2_state \<Rightarrow> mp2_state result" where
  "link_task a s =
     rbind (lock_tl s) (\<lambda>s.
     rbind (deref (slab s) a) (\<lambda>t.
     Inr (unlock_tl (s\<lparr>task_list := task_list s @ [a]\<rparr>))))"

definition register_insert ::
    "(u32 \<Rightarrow> addr option) \<Rightarrow> addr option \<Rightarrow> u32 \<Rightarrow> u64 \<Rightarrow> u64 \<Rightarrow> mp2_state \<Rightarrow> mp2_state result" where
  "register_insert pid_task new p per proc s =
     rbind (alloc_task pid_task new p per proc s) (\<lambda>(a, s). link_task a s)"

lemmas insert_defs = register_insert_def alloc_task_def link_task_def

definition Task_register ::
    "(u32 \<Rightarrow> addr option) \<Rightarrow> addr option \<Rightarrow> u32 \<Rightarrow> u64 \<Rightarrow> u64 \<Rightarrow> mp2_state \<Rightarrow>
     (int \<times> mp2_state) result" where
  "Task_register pid_task new p per proc s =
     rbind (register_check p s) (\<lambda>(exists, s).
     if exists then Inr (-1, s)
     else rbind (register_admit per proc s) (\<lambda>(admitted, s).
     if \<not> admitted then Inr (-1, s)
     else rbind (register_insert pid_task new p per proc s) (\<lambda>s. Inr (0, s))))"

section \<open>Yield\<close>

text \<open>
  \<open>msecs_to_jiffies\<close> takes an \<open>unsigned int\<close>, so the 64-bit period is cut to its low 32 bits.
  \<open>jiffies\<close> is read once on each path. The path of an expired deadline returns with \<open>tl_lock\<close>
  held; the other path clears \<open>ct\<close> whoever it points to.
\<close>

definition next_deadline :: "(u32 \<Rightarrow> u64) \<Rightarrow> u64 \<Rightarrow> mp2_task_struct \<Rightarrow> u64" where
  "next_deadline m2j jiffies t =
     (if next_ddl t = 0 then jiffies + m2j (ucast (period t))
      else next_ddl t + m2j (ucast (period t)))"

definition yeild_task_at ::
    "(u32 \<Rightarrow> u64) \<Rightarrow> u64 \<Rightarrow> addr \<Rightarrow> mp2_state \<Rightarrow> (int \<times> mp2_state) result" where
  "yeild_task_at m2j jiffies a s =
     rbind (lock_tl s) (\<lambda>s.
     rbind (deref (slab s) a) (\<lambda>t.
     let ddl = next_deadline m2j jiffies t; t' = t\<lparr>next_ddl := ddl\<rparr> in
     if next_ddl t \<noteq> 0 \<and> ddl < jiffies then Inr (-1, put_task a t' s)
     else
       let t'' = t'\<lparr>timer := (timer t)\<lparr>expires := Some ddl\<rparr>, state := SLEEPING\<rparr> in
       rbind (linux_task_of t'') (\<lambda>k.
       rbind (lock_ct (emit [Set_task_state k, Schedule] (put_task a t'' s))) (\<lambda>s.
       Inr (0, wake_dispatcher (unlock_tl (unlock_ct (s\<lparr>ct := None\<rparr>))))))))"

definition Task_yeild ::
    "(u32 \<Rightarrow> u64) \<Rightarrow> u64 \<Rightarrow> u32 \<Rightarrow> mp2_state \<Rightarrow> (int \<times> mp2_state) result" where
  "Task_yeild m2j jiffies p s =
     rbind (lock_tl s) (\<lambda>s.
     rbind (find_last_pid (slab s) p None (task_list s)) (\<lambda>yeild_task.
     case yeild_task of
       None \<Rightarrow> Inr (-1, unlock_tl s)
     | Some a \<Rightarrow> yeild_task_at m2j jiffies a (unlock_tl s)))"

section \<open>Deregistration\<close>

definition drop_current :: "addr \<Rightarrow> mp2_state \<Rightarrow> mp2_state result" where
  "drop_current a s =
     (if ct s = Some a then
        rbind (lock_ct s) (\<lambda>s. Inr (wake_dispatcher (unlock_ct (s\<lparr>ct := None\<rparr>))))
      else Inr s)"

definition deregister_task_at :: "addr \<Rightarrow> mp2_state \<Rightarrow> (int \<times> mp2_state) result" where
  "deregister_task_at a s =
     rbind (lock_tl s) (\<lambda>s.
     rbind (drop_current a s) (\<lambda>s.
     rbind (deref (slab s) a) (\<lambda>t.
     if period t = 0 then Inl DivideError
     else
       Inr (0, unlock_tl (s\<lparr>total_util := total_util s - task_util (proc_time t) (period t),
                            task_list := remove1 a (task_list s),
                            slab := (slab s)(a := None)\<rparr>)))))"

definition Task_deregister :: "u32 \<Rightarrow> mp2_state \<Rightarrow> (int \<times> mp2_state) result" where
  "Task_deregister p s =
     rbind (lock_tl s) (\<lambda>s.
     rbind (find_pid (slab s) p (task_list s)) (\<lambda>dereg_task.
     case dereg_task of
       None \<Rightarrow> Inr (-1, unlock_tl s)
     | Some a \<Rightarrow> deregister_task_at a (unlock_tl s)))"

section \<open>Start and end of the list\<close>

definition Task_init :: "mp2_state \<Rightarrow> mp2_state" where
  "Task_init s = s\<lparr>task_list := []\<rparr>"

fun destroy_loop :: "slab \<Rightarrow> addr list \<Rightarrow> slab result" where
  "destroy_loop h [] = Inr h"
| "destroy_loop h (a # as) = rbind (deref h a) (\<lambda>t. destroy_loop (h(a := None)) as)"

definition Task_destroy :: "mp2_state \<Rightarrow> mp2_state result" where
  "Task_destroy s =
     rbind (lock_tl s) (\<lambda>s.
     rbind (destroy_loop (slab s) (task_list s)) (\<lambda>h.
     Inr (unlock_tl (s\<lparr>task_list := [], slab := h\<rparr>))))"

section \<open>The list as a sequence of tasks\<close>

text \<open>
  The abstract view of the state: the tasks in list order. \<open>live\<close> says that the list holds no
  freed object; under it every search is a search in that sequence and never faults.
\<close>

definition live :: "slab \<Rightarrow> addr list \<Rightarrow> bool" where
  "live h as \<longleftrightarrow> (\<forall>a\<in>set as. h a \<noteq> None)"

definition task_at :: "mp2_state \<Rightarrow> addr \<Rightarrow> mp2_task_struct" where
  "task_at s a = the (slab s a)"

definition tasks :: "mp2_state \<Rightarrow> mp2_task_struct list" where
  "tasks s = map (task_at s) (task_list s)"

definition pids :: "mp2_state \<Rightarrow> u32 list" where
  "pids s = map pid (tasks s)"

lemma live_Nil [simp]: "live h []"
  by (simp add: live_def)

lemma live_Cons [simp]: "live h (a # as) \<longleftrightarrow> (\<exists>t. h a = Some t) \<and> live h as"
  by (auto simp: live_def)

lemma live_append [simp]: "live h (xs @ ys) \<longleftrightarrow> live h xs \<and> live h ys"
  by (auto simp: live_def)

lemma live_member: "live h as \<Longrightarrow> a \<in> set as \<Longrightarrow> \<exists>t. h a = Some t"
  by (auto simp: live_def)

lemma live_upd [simp]: "live h as \<Longrightarrow> live (h(a \<mapsto> t)) as"
  by (auto simp: live_def)

lemma unlocked_tl [simp]: "\<not> tl_lock s \<Longrightarrow> s\<lparr>tl_lock := False\<rparr> = s"
  by (cases s) simp

lemma unlocked_ct [simp]: "\<not> ct_lock s \<Longrightarrow> s\<lparr>ct_lock := False\<rparr> = s"
  by (cases s) simp

lemma find_pid_live: "live h as \<Longrightarrow> find_pid h p as = Inr (find (\<lambda>a. pid (the (h a)) = p) as)"
  by (induction as) auto

lemma find_last_pid_live:
  "live h as \<Longrightarrow> find_last_pid h p found as =
     Inr (case filter (\<lambda>a. pid (the (h a)) = p) as of [] \<Rightarrow> found | xs \<Rightarrow> Some (last xs))"
  by (induction as arbitrary: found) (auto split: list.splits)

lemma filter_distinct_pid:
  assumes "distinct (map f as)" "a \<in> set as" "f a = p"
  shows "filter (\<lambda>a. f a = p) as = [a]"
  using assms by (induction as) (auto simp: filter_empty_conv image_iff)

lemma find_distinct_pid:
  assumes "distinct (map f as)" "a \<in> set as" "f a = p"
  shows "find (\<lambda>a. f a = p) as = Some a"
  using assms by (induction as) auto

lemma destroy_loop_live:
  "distinct as \<Longrightarrow> live h as \<Longrightarrow> destroy_loop h as = Inr (\<lambda>a. if a \<in> set as then None else h a)"
proof (induction as arbitrary: h)
  case (Cons a as)
  then have "live (h(a := None)) as" by (auto simp: live_def)
  with Cons show ?case by (auto simp: fun_eq_iff)
qed simp

section \<open>The highest READY task\<close>

definition is_ready :: "slab \<Rightarrow> addr \<Rightarrow> bool" where
  "is_ready h a \<longleftrightarrow> state (the (h a)) = READY"

definition period_at :: "slab \<Rightarrow> addr \<Rightarrow> u64" where
  "period_at h a = period (the (h a))"

text \<open>The first task of the least period among the READY tasks of the list.\<close>

definition first_least :: "slab \<Rightarrow> addr list \<Rightarrow> addr \<Rightarrow> bool" where
  "first_least h as r \<longleftrightarrow> (\<exists>xs ys. as = xs @ r # ys \<and> is_ready h r \<and>
     (\<forall>a\<in>set xs. is_ready h a \<longrightarrow> period_at h r < period_at h a) \<and>
     (\<forall>a\<in>set ys. is_ready h a \<longrightarrow> period_at h r \<le> period_at h a))"

lemma first_least_member: "first_least h as r \<Longrightarrow> r \<in> set as \<and> is_ready h r"
  by (auto simp: first_least_def)

lemma first_least_le: "first_least h as r \<Longrightarrow> a \<in> set as \<Longrightarrow> is_ready h a \<Longrightarrow> period_at h r \<le> period_at h a"
  by (force simp: first_least_def)

lemma first_least_unique:
  assumes "first_least h as r" "first_least h as q"
  shows "q = r"
proof (rule ccontr)
  assume "q \<noteq> r"
  obtain xs ys where r: "as = xs @ r # ys" "is_ready h r" "\<forall>a\<in>set xs. is_ready h a \<longrightarrow> period_at h r < period_at h a"
    using assms(1) by (auto simp: first_least_def)
  obtain us vs where q: "as = us @ q # vs" "is_ready h q" "\<forall>a\<in>set us. is_ready h a \<longrightarrow> period_at h q < period_at h a"
    using assms(2) by (auto simp: first_least_def)
  have le: "period_at h r \<le> period_at h q" "period_at h q \<le> period_at h r"
    using first_least_le assms first_least_member by blast+
  then have n: "q \<notin> set xs" "r \<notin> set us" using r q by (auto simp: not_less [symmetric])
  have "xs @ r # ys = us @ q # vs" using r q by simp
  then show False using n \<open>q \<noteq> r\<close> by (auto simp: append_eq_append_conv2 Cons_eq_append_conv append_eq_Cons_conv)
qed

lemma first_least_skip: "first_least h as r \<Longrightarrow> \<not> is_ready h b \<or> period_at h r < period_at h b \<Longrightarrow>
    first_least h (b # as) r"
  unfolding first_least_def by (metis append_Cons set_ConsD)

lemma first_least_here:
  "is_ready h b \<Longrightarrow> \<forall>a\<in>set as. is_ready h a \<longrightarrow> period_at h b \<le> period_at h a \<Longrightarrow> first_least h (b # as) b"
  unfolding first_least_def by (rule exI [of _ "[]"], rule exI [of _ as]) auto

lemma highest_loop_Some:
  assumes "live h as" "h b = Some u"
  shows "\<exists>r. highest_loop h (Some b) as = Inr (Some r) \<and>
    (r = b \<and> (\<forall>a\<in>set as. is_ready h a \<longrightarrow> period_at h b \<le> period_at h a) \<or>
     period_at h r < period_at h b \<and> first_least h as r)"
  using assms
proof (induction as arbitrary: b u)
  case (Cons a as)
  then obtain t where t: "h a = Some t" by auto
  show ?case
  proof (cases "state t = 2 \<and> period t < period u")
    case True
    then have eq: "highest_loop h (Some b) (a # as) = highest_loop h (Some a) as"
      using t Cons.prems by (simp add: deref_def)
    from Cons.IH [OF _ t] Cons.prems obtain r where
      r: "highest_loop h (Some a) as = Inr (Some r)"
        "r = a \<and> (\<forall>c\<in>set as. is_ready h c \<longrightarrow> period_at h a \<le> period_at h c) \<or>
         period_at h r < period_at h a \<and> first_least h as r" by auto
    have ra: "is_ready h a" "period_at h a < period_at h b"
      using True t Cons.prems by (auto simp: is_ready_def period_at_def)
    from r(2) have "period_at h r < period_at h b \<and> first_least h (a # as) r"
      using ra by (auto intro: first_least_here first_least_skip)
    with r(1) eq show ?thesis by auto
  next
    case False
    then have eq: "highest_loop h (Some b) (a # as) = highest_loop h (Some b) as"
      using t Cons.prems by (auto simp: deref_def)
    have a: "is_ready h a \<Longrightarrow> period_at h b \<le> period_at h a"
      using False t Cons.prems by (auto simp: is_ready_def period_at_def)
    from Cons.IH [OF _ Cons.prems(2)] Cons.prems(1) obtain r where
      r: "highest_loop h (Some b) as = Inr (Some r)"
        "r = b \<and> (\<forall>c\<in>set as. is_ready h c \<longrightarrow> period_at h b \<le> period_at h c) \<or>
         period_at h r < period_at h b \<and> first_least h as r" by auto
    from r(2) have "r = b \<and> (\<forall>c\<in>set (a # as). is_ready h c \<longrightarrow> period_at h b \<le> period_at h c) \<or>
         period_at h r < period_at h b \<and> first_least h (a # as) r"
      using a by (auto intro: first_least_skip)
    with r(1) eq show ?thesis by auto
  qed
qed simp

lemma highest_loop_None:
  assumes "live h as"
  shows "(\<exists>r. highest_loop h None as = Inr (Some r) \<and> first_least h as r) \<or>
    highest_loop h None as = Inr None \<and> (\<forall>a\<in>set as. \<not> is_ready h a)"
  using assms
proof (induction as)
  case (Cons a as)
  then obtain t where t: "h a = Some t" by auto
  show ?case
  proof (cases "state t = 2")
    case True
    then have "highest_loop h None (a # as) = highest_loop h (Some a) as"
      using t by (simp add: deref_def)
    moreover have "is_ready h a" using True t by (simp add: is_ready_def)
    ultimately show ?thesis
      using highest_loop_Some [where h = h and b = a and u = t and as = as] t Cons.prems
      by (auto intro: first_least_here first_least_skip)
  next
    case False
    then have "highest_loop h None (a # as) = highest_loop h None as" "\<not> is_ready h a"
      using t by (auto simp: deref_def is_ready_def)
    then show ?thesis using Cons by (auto intro: first_least_skip)
  qed
qed simp

end
