(* ===== verification/Mp2_Admission.thy ===== *)
theory Mp2_Admission
  imports Mp2_Scheduler
begin

unbundle bit_operations_syntax

text \<open>
  What the operations of \<open>scheduler.c\<close> do to a well-formed state, in closed form, and the
  invariant they keep: the list holds live, distinct objects with distinct pids and non-zero
  periods, \<open>ct\<close> is null or in the list, and the fixed-point utility is the sum over the list
  and below \<open>MAX_UTIL\<close>. The test of admission control is shown not to wrap.
\<close>

section \<open>Utility on 64 bits\<close>

lemma unat_push_bit_20: "unat (push_bit 20 (c :: u64)) = (unat c mod 2 ^ 44) * 2 ^ 20"
proof -
  have "unat (push_bit 20 c) = take_bit 64 (push_bit 20 (unat c))"
    by (simp add: unsigned_push_bit_eq)
  also have "\<dots> = push_bit 20 (take_bit 44 (unat c))"
    by (simp add: push_bit_take_bit)
  finally show ?thesis by (simp add: push_bit_eq_mult take_bit_eq_mod)
qed

lemma unat_task_util: "unat (task_util c p) = (unat c mod 2 ^ 44) * 2 ^ 20 div unat p"
  by (simp add: task_util_def SHIFT_BITS_def unat_div_distrib unat_push_bit_20)

text \<open>A processing time below \<open>2 ^ 44\<close> is shifted without losing bits.\<close>

lemma unat_task_util_small:
  "unat c < 2 ^ 44 \<Longrightarrow> unat (task_util c p) = unat c * 2 ^ 20 div unat p"
  by (simp add: unat_task_util)

lemma unat_task_util_bound: "unat (task_util c p) \<le> 2 ^ 64 - 2 ^ 20"
proof -
  have "unat c mod 2 ^ 44 \<le> 2 ^ 44 - 1"
    by (rule less_Suc_eq_le [THEN iffD1]) simp
  then have "(unat c mod 2 ^ 44) * 2 ^ 20 \<le> (2 ^ 44 - 1) * 2 ^ 20"
    by (rule mult_le_mono1)
  with div_le_dividend have "(unat c mod 2 ^ 44) * 2 ^ 20 div unat p \<le> (2 ^ 44 - 1) * 2 ^ 20"
    by (rule order_trans)
  then show ?thesis by (simp add: unat_task_util)
qed

lemma admission_sum_exact:
  assumes "unat u < 2 ^ 20"
  shows "unat (u + task_util c p) = unat u + unat (task_util c p)"
proof -
  have "unat u + unat (task_util c p) < 2 ^ LENGTH(64)"
    using assms unat_task_util_bound [of c p] by simp
  then show ?thesis by (rule unat_add_lem [THEN iffD1])
qed

lemma unat_MAX_UTIL: "unat MAX_UTIL = 726663"
  by (simp add: MAX_UTIL_def)

section \<open>The invariant\<close>

definition util_of :: "mp2_task_struct \<Rightarrow> nat" where
  "util_of t = unat (task_util (proc_time t) (period t))"

definition util_sum :: "mp2_state \<Rightarrow> nat" where
  "util_sum s = sum_list (map util_of (tasks s))"

definition task_ok :: "mp2_task_struct \<Rightarrow> bool" where
  "task_ok t \<longleftrightarrow> period t \<noteq> 0 \<and> state t \<in> {SLEEPING, READY, RUNNING} \<and>
     tdata (timer t) = ucast (pid t)"

definition list_ok :: "mp2_state \<Rightarrow> bool" where
  "list_ok s \<longleftrightarrow> distinct (task_list s) \<and> dom (slab s) = set (task_list s) \<and>
     distinct (pids s) \<and> (\<forall>t\<in>set (tasks s). task_ok t)"

definition util_ok :: "mp2_state \<Rightarrow> bool" where
  "util_ok s \<longleftrightarrow> unat (total_util s) = util_sum s \<and> util_sum s < unat MAX_UTIL"

definition ct_ok :: "mp2_state \<Rightarrow> bool" where
  "ct_ok s \<longleftrightarrow> (\<forall>a. ct s = Some a \<longrightarrow> a \<in> set (task_list s))"

definition core_inv :: "mp2_state \<Rightarrow> bool" where
  "core_inv s \<longleftrightarrow> list_ok s \<and> util_ok s \<and> ct_ok s"

definition mp2_inv :: "mp2_state \<Rightarrow> bool" where
  "mp2_inv s \<longleftrightarrow> core_inv s \<and> \<not> ct_lock s \<and> \<not> spin_held s"

lemmas view_defs = tasks_def pids_def task_at_def [abs_def] util_sum_def
lemmas inv_defs = mp2_inv_def core_inv_def list_ok_def util_ok_def ct_ok_def

lemma inv_live: "list_ok s \<Longrightarrow> live (slab s) (task_list s)"
  by (auto simp: list_ok_def live_def)

lemma core_list_ok: "core_inv s \<Longrightarrow> list_ok s"
  by (simp add: core_inv_def)

lemma mp2_core: "mp2_inv s \<Longrightarrow> core_inv s"
  by (simp add: mp2_inv_def)

lemma mp2_list_ok: "mp2_inv s \<Longrightarrow> list_ok s"
  by (simp add: mp2_inv_def core_inv_def)

lemma inv_at: "list_ok s \<Longrightarrow> a \<in> set (task_list s) \<Longrightarrow> slab s a = Some (task_at s a)"
  using live_member [OF inv_live] by (fastforce simp: task_at_def)

lemma inv_task_ok: "list_ok s \<Longrightarrow> a \<in> set (task_list s) \<Longrightarrow> task_ok (task_at s a)"
  by (auto simp: list_ok_def tasks_def)

lemma pids_mem: "p \<in> set (pids s) \<longleftrightarrow> (\<exists>a\<in>set (task_list s). pid (task_at s a) = p)"
  by (auto simp: pids_def tasks_def)

text \<open>The address of the task of a pid, as both searches find it.\<close>

definition addr_of :: "mp2_state \<Rightarrow> u32 \<Rightarrow> addr option" where
  "addr_of s p = find (\<lambda>a. pid (task_at s a) = p) (task_list s)"

lemma addr_of_None: "addr_of s p = None \<longleftrightarrow> p \<notin> set (pids s)"
  by (auto simp: addr_of_def pids_mem find_None_iff)

lemma addr_of_Some: "addr_of s p = Some a \<Longrightarrow> a \<in> set (task_list s) \<and> pid (task_at s a) = p"
  unfolding addr_of_def by (drule find_Some_set) simp

lemma addr_of_member:
  "list_ok s \<Longrightarrow> a \<in> set (task_list s) \<Longrightarrow> pid (task_at s a) = p \<Longrightarrow> addr_of s p = Some a"
  unfolding addr_of_def by (rule find_distinct_pid) (simp_all add: list_ok_def pids_def tasks_def comp_def)

lemma find_pid_inv: "list_ok s \<Longrightarrow> find_pid (slab s) p (task_list s) = Inr (addr_of s p)"
  by (simp add: find_pid_live inv_live addr_of_def task_at_def)

lemma find_last_pid_inv:
  assumes "list_ok s"
  shows "find_last_pid (slab s) p None (task_list s) = Inr (addr_of s p)"
proof (cases "addr_of s p")
  case None
  then have "filter (\<lambda>a. pid (task_at s a) = p) (task_list s) = []"
    by (auto simp: addr_of_None pids_mem filter_empty_conv)
  with None show ?thesis
    using assms by (simp add: find_last_pid_live inv_live task_at_def)
next
  case (Some a)
  then have "filter (\<lambda>a. pid (task_at s a) = p) (task_list s) = [a]"
    using addr_of_Some [OF Some] assms
    by (intro filter_distinct_pid) (simp_all add: list_ok_def pids_def tasks_def comp_def)
  with Some show ?thesis
    using assms by (simp add: find_last_pid_live inv_live task_at_def)
qed

section \<open>Updating a task in place\<close>

lemma core_inv_slab:
  assumes inv: "core_inv s" and dom: "dom h = dom (slab s)"
    and same: "\<And>a. a \<in> set (task_list s) \<Longrightarrow> pid (the (h a)) = pid (task_at s a) \<and>
      period (the (h a)) = period (task_at s a) \<and> proc_time (the (h a)) = proc_time (task_at s a) \<and>
      task_ok (the (h a))"
  shows "core_inv (s\<lparr>slab := h\<rparr>)"
proof -
  let ?s = "s\<lparr>slab := h\<rparr>"
  have at: "task_at ?s a = the (h a)" for a
    by (simp add: task_at_def)
  have "pids ?s = pids s"
    using same at by (simp add: pids_def tasks_def)
  moreover have "util_sum ?s = util_sum s"
    unfolding util_sum_def tasks_def map_map using same at
    by (intro arg_cong [where f = sum_list] map_cong) (auto simp: util_of_def)
  moreover have "\<forall>t\<in>set (tasks ?s). task_ok t"
    using same at by (auto simp: tasks_def)
  ultimately show ?thesis
    using inv dom by (simp add: inv_defs)
qed

lemma core_inv_put:
  assumes "core_inv s" "slab s a = Some t" "task_ok t'"
    "pid t' = pid t" "period t' = period t" "proc_time t' = proc_time t"
  shows "core_inv (s\<lparr>slab := (slab s)(a \<mapsto> t')\<rparr>)"
proof (rule core_inv_slab [OF assms(1)])
  have t: "task_at s a = t" using assms(2) by (simp add: task_at_def)
  show "dom ((slab s)(a \<mapsto> t')) = dom (slab s)" using assms(2) by auto
  fix b assume "b \<in> set (task_list s)"
  then show "pid (the (((slab s)(a \<mapsto> t')) b)) = pid (task_at s b) \<and>
      period (the (((slab s)(a \<mapsto> t')) b)) = period (task_at s b) \<and>
      proc_time (the (((slab s)(a \<mapsto> t')) b)) = proc_time (task_at s b) \<and>
      task_ok (the (((slab s)(a \<mapsto> t')) b))"
    using assms t inv_task_ok [of s b] by (auto simp: core_inv_def task_at_def)
qed

lemma core_inv_cong:
  "task_list s = task_list t \<Longrightarrow> slab s = slab t \<Longrightarrow> ct s = ct t \<Longrightarrow> total_util s = total_util t \<Longrightarrow>
   core_inv s = core_inv t"
  by (simp add: inv_defs view_defs)

lemma core_inv_frame [simp]:
  "core_inv (s\<lparr>tl_lock := b\<rparr>) = core_inv s"
  "core_inv (s\<lparr>ct_lock := b\<rparr>) = core_inv s"
  "core_inv (s\<lparr>spin_held := b\<rparr>) = core_inv s"
  "core_inv (s\<lparr>woken := b\<rparr>) = core_inv s"
  "core_inv (s\<lparr>dispatcher := b\<rparr>) = core_inv s"
  "core_inv (s\<lparr>calls := cs\<rparr>) = core_inv s"
  "core_inv (s\<lparr>proc_entries := es\<rparr>) = core_inv s"
  "core_inv (s\<lparr>read_finished := b\<rparr>) = core_inv s"
  by (rule core_inv_cong; simp)+

lemma core_inv_ct:
  "core_inv s \<Longrightarrow> core_inv (s\<lparr>ct := None\<rparr>)"
  "core_inv s \<Longrightarrow> a \<in> set (task_list s) \<Longrightarrow> core_inv (s\<lparr>ct := Some a\<rparr>)"
  by (simp_all add: inv_defs view_defs)

lemma core_inv_member: "core_inv s \<Longrightarrow> slab s a = Some t \<Longrightarrow> a \<in> set (task_list s)"
  by (auto simp: inv_defs)

lemma core_inv_task_ok: "core_inv s \<Longrightarrow> slab s a = Some t \<Longrightarrow> task_ok t"
  using core_inv_member [of s a t] inv_task_ok [of s a] by (simp add: core_inv_def task_at_def)

lemma core_inv_ct_live: "core_inv s \<Longrightarrow> ct s = Some a \<Longrightarrow> \<exists>t. slab s a = Some t"
  by (auto simp: inv_defs)

section \<open>The operations in closed form\<close>

text \<open>Once a call has left \<open>tl_lock\<close> held, no operation on the list returns.\<close>

lemma locked_operations [simp]:
  assumes "tl_lock s"
  shows "Task_register k new p per proc s = Inl Deadlock"
    and "Task_yeild m2j j p s = Inl Deadlock"
    and "Task_deregister p s = Inl Deadlock"
    and "Task_get_highest s = Inl Deadlock"
    and "Task_destroy s = Inl Deadlock"
  using assms
  by (simp_all add: Task_register_def register_check_def Task_yeild_def Task_deregister_def
      Task_get_highest_def Task_destroy_def lock_tl_def)

definition registered :: "addr \<Rightarrow> mp2_task_struct \<Rightarrow> mp2_state \<Rightarrow> mp2_state" where
  "registered a t s = s\<lparr>total_util := total_util s + task_util (proc_time t) (period t),
     slab := (slab s)(a \<mapsto> t), task_list := task_list s @ [a]\<rparr>"

lemma Task_register_eq:
  assumes "list_ok s" "\<not> tl_lock s"
  shows "Task_register k new p per proc s =
    (if p \<in> set (pids s) then Inr (-1, s\<lparr>tl_lock := True\<rparr>)
     else if per = 0 then Inl DivideError
     else if MAX_UTIL \<le> total_util s + task_util proc per then Inr (-1, s)
     else case new of
        None \<Rightarrow> Inl NullDeref
      | Some a \<Rightarrow> Inr (0, registered a (new_task (k p) p per proc) s))"
proof (cases "addr_of s p")
  case None
  then have "p \<notin> set (pids s)" by (simp add: addr_of_None)
  with None show ?thesis using assms
    by (simp add: Task_register_def register_check_def register_admit_def insert_defs
        find_pid_inv lock_defs access_defs registered_def find_task_by_pid_def new_task_def
        split: option.splits)
next
  case (Some a)
  then have "p \<in> set (pids s)" using addr_of_None [of s p] by fastforce
  with Some show ?thesis using assms
    by (simp add: Task_register_def register_check_def find_pid_inv lock_defs)
qed

definition slept :: "(u32 \<Rightarrow> u64) \<Rightarrow> u64 \<Rightarrow> mp2_task_struct \<Rightarrow> mp2_task_struct" where
  "slept m2j j t = t\<lparr>next_ddl := next_deadline m2j j t,
     timer := (timer t)\<lparr>expires := Some (next_deadline m2j j t)\<rparr>, state := SLEEPING\<rparr>"

definition yielded :: "(u32 \<Rightarrow> u64) \<Rightarrow> u64 \<Rightarrow> addr \<Rightarrow> addr \<Rightarrow> mp2_state \<Rightarrow> mp2_state" where
  "yielded m2j j a k s = s\<lparr>slab := (slab s)(a \<mapsto> slept m2j j (task_at s a)),
     calls := calls s @ [Set_task_state k, Schedule], ct := None, woken := True\<rparr>"

definition missed :: "(u32 \<Rightarrow> u64) \<Rightarrow> u64 \<Rightarrow> mp2_task_struct \<Rightarrow> bool" where
  "missed m2j j t \<longleftrightarrow> next_ddl t \<noteq> 0 \<and> next_deadline m2j j t < j"

lemma Task_yeild_eq:
  assumes "list_ok s" "\<not> tl_lock s" "\<not> ct_lock s"
  shows "Task_yeild m2j j p s =
    (case addr_of s p of
       None \<Rightarrow> Inr (-1, s)
     | Some a \<Rightarrow>
         if missed m2j j (task_at s a) then
           Inr (-1, s\<lparr>slab := (slab s)(a \<mapsto> (task_at s a)\<lparr>next_ddl := next_deadline m2j j (task_at s a)\<rparr>),
                      tl_lock := True\<rparr>)
         else case linux_task (task_at s a) of
             None \<Rightarrow> Inl NullDeref
           | Some k \<Rightarrow> Inr (0, yielded m2j j a k s))"
proof (cases "addr_of s p")
  case None
  then show ?thesis using assms
    by (simp add: Task_yeild_def find_last_pid_inv lock_defs)
next
  case (Some a)
  then have a: "slab s a = Some (task_at s a)"
    using assms(1) addr_of_Some inv_at by blast
  from Some show ?thesis using assms a
    by (simp add: Task_yeild_def yeild_task_at_def find_last_pid_inv lock_defs access_defs
        missed_def Let_def yielded_def slept_def split: option.splits)
qed

definition deregistered :: "addr \<Rightarrow> mp2_state \<Rightarrow> mp2_state" where
  "deregistered a s =
     (if ct s = Some a then s\<lparr>ct := None, woken := True\<rparr> else s)
     \<lparr>total_util := total_util s - task_util (proc_time (task_at s a)) (period (task_at s a)),
      task_list := remove1 a (task_list s), slab := (slab s)(a := None)\<rparr>"

lemma deregistered_fields [simp]:
  "task_list (deregistered a s) = remove1 a (task_list s)"
  "slab (deregistered a s) = (slab s)(a := None)"
  "total_util (deregistered a s) =
     total_util s - task_util (proc_time (task_at s a)) (period (task_at s a))"
  "ct (deregistered a s) = (if ct s = Some a then None else ct s)"
  "woken (deregistered a s) = (woken s \<or> ct s = Some a)"
  "tl_lock (deregistered a s) = tl_lock s"
  "ct_lock (deregistered a s) = ct_lock s"
  "spin_held (deregistered a s) = spin_held s"
  "read_finished (deregistered a s) = read_finished s"
  "calls (deregistered a s) = calls s"
  by (simp_all add: deregistered_def)

lemma Task_deregister_eq:
  assumes "list_ok s" "\<not> tl_lock s" "\<not> ct_lock s"
  shows "Task_deregister p s =
    (case addr_of s p of None \<Rightarrow> Inr (-1, s) | Some a \<Rightarrow> Inr (0, deregistered a s))"
proof (cases "addr_of s p")
  case None
  then show ?thesis using assms
    by (simp add: Task_deregister_def find_pid_inv lock_defs)
next
  case (Some a)
  then have a: "slab s a = Some (task_at s a)" "period (task_at s a) \<noteq> 0"
    using assms(1) addr_of_Some inv_at inv_task_ok task_ok_def by blast+
  from Some show ?thesis using assms a
    by (cases "ct s = Some a")
      (simp_all add: Task_deregister_def deregister_task_at_def drop_current_def find_pid_inv
        lock_defs access_defs deregistered_def)
qed

lemma Task_destroy_eq:
  assumes "list_ok s" "\<not> tl_lock s"
  shows "Task_destroy s = Inr (s\<lparr>task_list := [], slab := (\<lambda>_. None)\<rparr>)"
proof -
  have "(\<lambda>a. if a \<in> set (task_list s) then None else slab s a) = (\<lambda>_. None)"
    using assms(1) by (auto simp: list_ok_def fun_eq_iff)
  then show ?thesis using assms
    by (simp add: Task_destroy_def lock_defs destroy_loop_live inv_live list_ok_def)
qed

lemma Task_get_highest_spec:
  assumes "list_ok s" "\<not> tl_lock s"
  obtains (none) "Task_get_highest s = Inr (None, s)" "\<forall>a\<in>set (task_list s). \<not> is_ready (slab s) a"
  | (some) r where "Task_get_highest s = Inr (Some r, s)" "first_least (slab s) (task_list s) r"
  using highest_loop_None [OF inv_live [OF assms(1)]] assms(2)
  by (auto simp: Task_get_highest_def lock_defs)

lemma Task_get_highest_Some:
  "list_ok s \<Longrightarrow> \<not> tl_lock s \<Longrightarrow> Task_get_highest s = Inr (Some h, s') \<Longrightarrow>
   s' = s \<and> first_least (slab s) (task_list s) h"
  by (cases s rule: Task_get_highest_spec) auto

lemma Task_get_highest_None:
  "list_ok s \<Longrightarrow> \<not> tl_lock s \<Longrightarrow> Task_get_highest s = Inr (None, s') \<Longrightarrow>
   s' = s \<and> (\<forall>a\<in>set (task_list s). \<not> is_ready (slab s) a)"
  by (cases s rule: Task_get_highest_spec) auto

section \<open>Selecting the next task\<close>

text \<open>
  What the dispatching thread relies on: the search returns a candidate of the least key, or
  says that there is none. Keeping the current element unless the candidate's key is smaller
  then leaves nothing ready below the current key.
\<close>

locale highest_selector =
  fixes elems :: "'s \<Rightarrow> 'a list"
    and candidate :: "'s \<Rightarrow> 'a \<Rightarrow> bool"
    and key :: "'s \<Rightarrow> 'a \<Rightarrow> 'k::linorder"
    and select :: "'s \<Rightarrow> ('a option \<times> 's) result"
    and ok :: "'s \<Rightarrow> bool"
  assumes select_returns: "ok s \<Longrightarrow> \<exists>h. select s = Inr (h, s)"
    and select_none: "ok s \<Longrightarrow> select s = Inr (None, s') \<Longrightarrow> a \<in> set (elems s) \<Longrightarrow> \<not> candidate s a"
    and select_some: "ok s \<Longrightarrow> select s = Inr (Some h, s') \<Longrightarrow> h \<in> set (elems s) \<and> candidate s h"
    and select_least: "ok s \<Longrightarrow> select s = Inr (Some h, s') \<Longrightarrow> a \<in> set (elems s) \<Longrightarrow>
      candidate s a \<Longrightarrow> key s h \<le> key s a"
begin

lemma select_iff_candidate:
  assumes "ok s"
  shows "select s = Inr (None, s) \<longleftrightarrow> (\<forall>a\<in>set (elems s). \<not> candidate s a)"
proof
  assume "select s = Inr (None, s)"
  then show "\<forall>a\<in>set (elems s). \<not> candidate s a" using select_none [OF assms] by blast
next
  assume none: "\<forall>a\<in>set (elems s). \<not> candidate s a"
  obtain h where "select s = Inr (h, s)" using select_returns [OF assms] by blast
  then show "select s = Inr (None, s)"
    using none select_some [OF assms] by (cases h) auto
qed

lemma keep_or_switch_least:
  assumes "ok s" "select s = Inr (Some h, s')"
    and "c = (case cur of None \<Rightarrow> h | Some d \<Rightarrow> if key s h < key s d then h else d)"
    and "a \<in> set (elems s)" "candidate s a"
  shows "key s c \<le> key s a"
  using select_least [OF assms(1,2,4,5)] assms(3) by (auto split: option.splits if_splits)

end

interpretation rm: highest_selector task_list "\<lambda>s. is_ready (slab s)" "\<lambda>s. period_at (slab s)"
    Task_get_highest "\<lambda>s. list_ok s \<and> \<not> tl_lock s"
proof (unfold_locales, goal_cases)
  case (1 s)
  then show ?case by (metis Task_get_highest_spec)
qed (use Task_get_highest_None Task_get_highest_Some first_least_member first_least_le in blast)+

section \<open>The operations keep the invariant\<close>

lemma inv_registered:
  assumes inv: "mp2_inv s" and fresh: "slab s a = None" and new: "pid t \<notin> set (pids s)"
    and ok: "task_ok t" and adm: "\<not> MAX_UTIL \<le> total_util s + task_util (proc_time t) (period t)"
  shows "mp2_inv (registered a t s)"
proof -
  let ?s = "registered a t s"
  have notin: "a \<notin> set (task_list s)" using inv fresh by (auto simp: inv_defs)
  have at: "task_at ?s a = t" "b \<in> set (task_list s) \<Longrightarrow> task_at ?s b = task_at s b" for b
    using notin by (auto simp: registered_def task_at_def)
  have tasks: "tasks ?s = tasks s @ [t]"
    using at by (simp add: tasks_def registered_def)
  have "unat (total_util s) < 2 ^ 20"
    using inv by (simp add: inv_defs unat_MAX_UTIL)
  then have sum: "unat (total_util s + task_util (proc_time t) (period t)) =
      unat (total_util s) + util_of t"
    by (simp add: admission_sum_exact util_of_def)
  have "util_ok ?s"
    using inv adm sum tasks unfolding inv_defs util_sum_def
    by (simp add: registered_def word_le_nat_alt)
  moreover have "list_ok ?s"
    using inv notin new ok tasks unfolding inv_defs
    by (auto simp: registered_def pids_def)
  ultimately show ?thesis
    using inv by (auto simp: mp2_inv_def core_inv_def ct_ok_def registered_def)
qed

lemma inv_deregistered:
  assumes inv: "mp2_inv s" and mem: "a \<in> set (task_list s)"
  shows "mp2_inv (deregistered a s)"
proof -
  let ?s = "deregistered a s"
  have d: "distinct (task_list s)" using inv by (simp add: inv_defs)
  have at: "b \<noteq> a \<Longrightarrow> task_at ?s b = task_at s b" for b
    by (simp add: task_at_def)
  have tasks: "tasks ?s = map (task_at s) (remove1 a (task_list s))"
    unfolding tasks_def using at d by (auto intro: map_cong)
  have sub: "set (tasks ?s) \<subseteq> set (tasks s)"
    by (subst tasks) (auto simp: tasks_def dest: set_remove1_subset [THEN subsetD])
  have dp: "distinct (pids ?s)"
    unfolding pids_def by (subst tasks, subst map_map)
      (use inv in \<open>intro distinct_map_remove1; simp add: inv_defs pids_def tasks_def\<close>)
  have le: "util_of (task_at s a) \<le> util_sum s"
    unfolding util_sum_def tasks_def map_map using mem by (intro member_le_sum_list) auto
  have sum: "util_sum ?s = util_sum s - util_of (task_at s a)"
    unfolding util_sum_def by (subst tasks)
      (use mem sum_list_remove1 [of a "task_list s" "util_of \<circ> task_at s"] in \<open>simp add: tasks_def\<close>)
  have le': "task_util (proc_time (task_at s a)) (period (task_at s a)) \<le> total_util s"
    using le inv by (simp add: word_le_nat_alt util_of_def inv_defs)
  have "unat (total_util ?s) = util_sum ?s"
    using unat_sub [OF le'] inv sum by (simp add: util_of_def inv_defs)
  moreover have "util_sum ?s < unat MAX_UTIL"
    using sum inv by (simp add: inv_defs less_imp_diff_less)
  ultimately have util: "util_ok ?s" by (simp add: util_ok_def)
  have "dom (slab ?s) = set (task_list ?s)"
    using inv d by (simp add: inv_defs)
  moreover have "\<forall>t\<in>set (tasks ?s). task_ok t"
    using inv sub by (auto simp: mp2_inv_def core_inv_def list_ok_def)
  ultimately have list: "list_ok ?s" using dp d by (simp add: list_ok_def)
  have "ct_ok ?s"
    using inv d by (auto simp: mp2_inv_def core_inv_def ct_ok_def)
  with util list show ?thesis
    using inv by (simp add: mp2_inv_def core_inv_def)
qed

end
