(* ===== verification/Registry.thy ===== *)
theory Registry
  imports Prelude
begin

text \<open>
  The contract of a list of registered processes: \<open>Task_register\<close> and \<open>Task_deregister\<close> of the
  scheduler and of the profiler both keep a list with one entry per pid, append to it and remove
  from it. What follows for sequences of calls is proved once from the contract.
\<close>

section \<open>Sequences of calls\<close>

text \<open>Every call must return \<open>0\<close>; the first refusal ends the sequence with its code.\<close>

fun call_all :: "('q \<Rightarrow> 's \<Rightarrow> (int \<times> 's) result) \<Rightarrow> 'q list \<Rightarrow> 's \<Rightarrow> (int \<times> 's) result" where
  "call_all f [] s = Inr (0, s)"
| "call_all f (q # qs) s =
     rbind (f q s) (\<lambda>(r, s'). if r = 0 then call_all f qs s' else Inr (r, s'))"

text \<open>What the environment promises for each call holds all along a sequence.\<close>

fun promised :: "('q \<Rightarrow> 's \<Rightarrow> bool) \<Rightarrow> ('q \<Rightarrow> 's \<Rightarrow> (int \<times> 's) result) \<Rightarrow> 'q list \<Rightarrow> 's \<Rightarrow> bool" where
  "promised adm f [] s = True"
| "promised adm f (q # qs) s =
     (adm q s \<and> (case f q s of Inl e \<Rightarrow> True | Inr (r, s') \<Rightarrow> promised adm f qs s'))"

section \<open>The contract\<close>

text \<open>
  A registration request carries a pid (\<open>key\<close>) and what the environment supplies for it, of
  which \<open>adm\<close> states the promise.
\<close>

locale pid_registry =
  fixes pids :: "'s \<Rightarrow> 'p list"
    and ok :: "'s \<Rightarrow> bool"
    and key :: "'q \<Rightarrow> 'p"
    and adm :: "'q \<Rightarrow> 's \<Rightarrow> bool"
    and reg :: "'q \<Rightarrow> 's \<Rightarrow> (int \<times> 's) result"
    and dereg :: "'p \<Rightarrow> 's \<Rightarrow> (int \<times> 's) result"
  assumes pids_distinct: "ok s \<Longrightarrow> distinct (pids s)"
    and reg_accepts: "ok s \<Longrightarrow> adm q s \<Longrightarrow> reg q s = Inr (0, s') \<Longrightarrow>
      key q \<notin> set (pids s) \<and> ok s' \<and> pids s' = pids s @ [key q]"
    and reg_refuses: "ok s \<Longrightarrow> adm q s \<Longrightarrow> reg q s = Inr (r, s') \<Longrightarrow> r \<noteq> 0 \<Longrightarrow> pids s' = pids s"
    and dereg_present: "ok s \<Longrightarrow> p \<in> set (pids s) \<Longrightarrow>
      \<exists>s'. dereg p s = Inr (0, s') \<and> ok s' \<and> pids s' = remove1 p (pids s)"
    and dereg_absent: "ok s \<Longrightarrow> p \<notin> set (pids s) \<Longrightarrow>
      \<exists>s'. dereg p s = Inr (-1, s') \<and> ok s' \<and> pids s' = pids s"
begin

lemma reg_dup_refused:
  "ok s \<Longrightarrow> adm q s \<Longrightarrow> key q \<in> set (pids s) \<Longrightarrow> reg q s = Inr (r, s') \<Longrightarrow> r \<noteq> 0"
  using reg_accepts by blast

lemma reg_dereg:
  assumes "ok s" "adm q s" "reg q s = Inr (0, s')"
  shows "\<exists>t. dereg (key q) s' = Inr (0, t) \<and> ok t \<and> pids t = pids s"
  using reg_accepts [OF assms] dereg_present [of s' "key q"] by (auto simp: remove1_append)

lemma dereg_twice:
  assumes "ok s" "p \<in> set (pids s)"
  shows "\<exists>t u. dereg p s = Inr (0, t) \<and> dereg p t = Inr (-1, u) \<and> pids u = pids t"
proof -
  obtain t where t: "dereg p s = Inr (0, t)" "ok t" "pids t = remove1 p (pids s)"
    using dereg_present [OF assms] by blast
  then have "p \<notin> set (pids t)" using pids_distinct [OF assms(1)] by simp
  then show ?thesis using t dereg_absent [of t p] by blast
qed

lemma reg_all_pids:
  "ok s \<Longrightarrow> promised adm reg qs s \<Longrightarrow> call_all reg qs s = Inr (0, s') \<Longrightarrow>
   ok s' \<and> pids s' = pids s @ map key qs"
proof (induction qs arbitrary: s)
  case (Cons q qs)
  then obtain r s1 where 1: "reg q s = Inr (r, s1)"
    "(if r = 0 then call_all reg qs s1 else Inr (r, s1)) = Inr (0, s')"
    by (auto simp: result_simps)
  then have r: "r = 0" by (auto split: if_splits)
  with 1 Cons.prems have "ok s1" "pids s1 = pids s @ [key q]" "promised adm reg qs s1"
    using reg_accepts [OF Cons.prems(1)] by auto
  then show ?case using Cons.IH [of s1] 1 r by simp
qed simp

lemma dereg_all_pids:
  "ok s \<Longrightarrow> distinct ps \<Longrightarrow> set ps \<subseteq> set (pids s) \<Longrightarrow>
   \<exists>s'. call_all dereg ps s = Inr (0, s') \<and> ok s' \<and> pids s' = filter (\<lambda>q. q \<notin> set ps) (pids s)"
proof (induction ps arbitrary: s)
  case (Cons p ps)
  then obtain t where t: "dereg p s = Inr (0, t)" "ok t" "pids t = remove1 p (pids s)"
    using dereg_present [of s p] by auto
  have d: "distinct (pids s)" using Cons.prems pids_distinct by blast
  have "set ps \<subseteq> set (pids t)" using Cons.prems t d by auto
  then obtain s' where s': "call_all dereg ps t = Inr (0, s')" "ok s'"
    "pids s' = filter (\<lambda>q. q \<notin> set ps) (pids t)"
    using Cons.IH [OF t(2)] Cons.prems by auto
  have "filter (\<lambda>q. q \<notin> set ps) (remove1 p (pids s)) = filter (\<lambda>q. q \<notin> set (p # ps)) (pids s)"
    using d by (auto simp: distinct_remove1_removeAll removeAll_filter_not_eq intro: filter_cong)
  then show ?case using t s' by simp
qed simp

text \<open>A session that registers some processes and deregisters them, in any order, leaves no trace.\<close>

lemma session_balanced:
  assumes "ok s" "promised adm reg qs s" "call_all reg qs s = Inr (0, s')"
    "distinct ps" "set ps = key ` set qs"
  shows "\<exists>t. call_all dereg ps s' = Inr (0, t) \<and> ok t \<and> pids t = pids s"
proof -
  have s': "ok s'" "pids s' = pids s @ map key qs" using reg_all_pids [OF assms(1-3)] by auto
  then have d: "distinct (pids s @ map key qs)" using pids_distinct [of s'] by simp
  have "filter (\<lambda>q. q \<notin> set ps) (pids s @ map key qs) = pids s"
    using d assms(5) by (auto simp: filter_empty_conv filter_id_conv)
  then show ?thesis using dereg_all_pids [OF s'(1) assms(4)] s'(2) assms(5) by simp
qed

end

end
