(* ===== verification/Mp2_Main.thy ===== *)
theory Mp2_Main
  imports Mp2_Admission Registry
begin

text \<open>
  The module \<open>MP2/mp2_main.c\<close> around the task list: the timer callback, the dispatching thread,
  the read and write handlers of \<open>/proc/mp2/status\<close>, loading and unloading, and the steps the
  loaded module takes. Each handler is one step; the dispatching thread steps when it has been
  woken.
\<close>

section \<open>What the kernel supplies to a call\<close>

text \<open>
  The kernel's pid table and clock conversion, the current \<open>jiffies\<close>, the object a slab
  allocation returns, the bytes behind a fresh buffer, and the contents of uninitialised locals.
\<close>

record mp2_kernel =
  pid_task :: "u32 \<Rightarrow> addr option"
  msecs_to_jiffies :: "u32 \<Rightarrow> u64"
  jiffies :: u64
  slab_object :: "addr option"
  beyond :: "char list"
  junk_pid :: u32
  junk_period :: u64
  junk_proc_time :: u64

section \<open>Timer callback\<close>

fun callback_loop :: "u64 \<Rightarrow> slab \<Rightarrow> addr list \<Rightarrow> slab result" where
  "callback_loop data h [] = Inr h"
| "callback_loop data h (a # as) =
     rbind (deref h a) (\<lambda>t.
       callback_loop data (if ucast (pid t) = data then h(a \<mapsto> t\<lparr>state := READY\<rparr>) else h) as)"

definition mp2_timer_callback :: "u64 \<Rightarrow> mp2_state \<Rightarrow> mp2_state result" where
  "mp2_timer_callback data s =
     (if spin_held s then Inl Deadlock
      else let s = s\<lparr>spin_held := True\<rparr> in
        rbind (callback_loop data (slab s) (task_list s)) (\<lambda>h.
        Inr (wake_dispatcher (s\<lparr>slab := h, spin_held := False\<rparr>))))"

section \<open>Dispatching thread\<close>

text \<open>\<open>ct->period > highest->period\<close>\<close>

definition ct_above :: "addr \<Rightarrow> addr \<Rightarrow> mp2_state \<Rightarrow> bool result" where
  "ct_above c h s =
     rbind (deref (slab s) c) (\<lambda>t. rbind (deref (slab s) h) (\<lambda>u. Inr (period u < period t)))"

definition preempt :: "addr \<Rightarrow> mp2_state \<Rightarrow> mp2_state result" where
  "preempt c s =
     rbind (deref (slab s) c) (\<lambda>t.
     let s = put_task c (t\<lparr>state := READY\<rparr>) s in
     rbind (linux_task_of t) (\<lambda>k. Inr (emit [Sched_setscheduler k SCHED_NORMAL 0] s)))"

definition run_task :: "addr \<Rightarrow> mp2_state \<Rightarrow> mp2_state result" where
  "run_task h s =
     rbind (deref (slab s) h) (\<lambda>t.
     rbind (linux_task_of t) (\<lambda>k.
     let s = put_task h (t\<lparr>state := RUNNING\<rparr>) (emit [Wake_up_process k] s) in
     Inr ((emit [Sched_setscheduler k SCHED_FIFO 99] s)\<lparr>ct := Some h\<rparr>)))"

definition dispatch_switch :: "addr option \<Rightarrow> mp2_state \<Rightarrow> mp2_state result" where
  "dispatch_switch highest s =
     rbind (lock_ct s) (\<lambda>s.
     rbind (case highest of
         None \<Rightarrow> (case ct s of None \<Rightarrow> Inr s | Some c \<Rightarrow> preempt c s)
       | Some h \<Rightarrow>
           rbind (case ct s of
               None \<Rightarrow> Inr s
             | Some c \<Rightarrow> rbind (ct_above c h s) (\<lambda>b. if b then preempt c s else Inr s)) (\<lambda>s.
           case ct s of
               None \<Rightarrow> run_task h s
             | Some c \<Rightarrow> rbind (ct_above c h s) (\<lambda>b. if b then run_task h s else Inr s)))
     (\<lambda>s. Inr (unlock_ct s)))"

definition dispatch_body :: "mp2_state \<Rightarrow> mp2_state result" where
  "dispatch_body s = rbind (Task_get_highest s) (\<lambda>(highest, s). dispatch_switch highest s)"

text \<open>
  The thread sleeps at the top of its loop and runs the body once per wake-up, the last time
  for the wake-up of \<open>kthread_stop\<close>; the argument is the number of rounds.
\<close>

fun dispaching_thread_function :: "nat \<Rightarrow> mp2_state \<Rightarrow> mp2_state result" where
  "dispaching_thread_function 0 s = Inr s"
| "dispaching_thread_function (Suc n) s =
     rbind (dispatch_body (s\<lparr>woken := False\<rparr>)) (dispaching_thread_function n)"

section \<open>The status file\<close>

definition task_line :: "mp2_task_struct \<Rightarrow> string" where
  "task_line t = show_u (pid t) @ '': '' @ show_u (period t) @ '', '' @ show_u (proc_time t)
     @ '', '' @ show_u (state t) @ [newline]"

definition mp2_read :: "nat \<Rightarrow> mp2_state \<Rightarrow> (string \<times> mp2_state) result" where
  "mp2_read count s =
     (if read_finished s then Inr ([], s\<lparr>read_finished := False\<rparr>)
      else let s = s\<lparr>read_finished := True\<rparr> in
        rbind (lock_tl s) (\<lambda>s.
        rbind (status_lines count (\<lambda>a. rbind (deref (slab s) a) (\<lambda>t. Inr (task_line t))) []
                 (task_list s)) (\<lambda>buf.
        Inr (buf, unlock_tl s))))"

text \<open>
  The parsing half of the write handler. The buffer holds the written bytes and is not closed
  with a NUL, so the string runs on into the bytes behind it. The first byte selects the case;
  the first token is split off and its character is read back into \<open>op\<close>.
\<close>

datatype mp2_command =
    Register u32 u64 u64
  | Yield u32
  | Deregister u32
  | Ignored

definition parse_command :: "mp2_kernel \<Rightarrow> char list \<Rightarrow> mp2_command result" where
  "parse_command k data =
     (case data of
        [] \<Rightarrow> Inl NullDeref
      | op # _ \<Rightarrow>
          let buf = Some (cstr (data @ beyond k)) in
          if op = CHR ''R'' then
            let (t1, buf) = strsep (CHR '','') buf; (t2, buf) = strsep (CHR '','') buf in
            rbind (scan_local t2 (junk_pid k)) (\<lambda>p.
            let (t3, buf) = strsep (CHR '','') buf in
            rbind (scan_local t3 (junk_period k)) (\<lambda>per.
            let (t4, buf) = strsep (CHR '','') buf in
            rbind (scan_local t4 (junk_proc_time k)) (\<lambda>proc.
            Inr (Register p per proc))))
          else if op = CHR ''Y'' then
            let (t1, buf) = strsep (CHR '','') buf; (t2, buf) = strsep (CHR '','') buf in
            rbind (scan_local t2 (junk_pid k)) (\<lambda>p. Inr (Yield p))
          else if op = CHR ''D'' then
            let (t1, buf) = strsep (CHR '','') buf; (t2, buf) = strsep (CHR '','') buf in
            rbind (scan_local t2 (junk_pid k)) (\<lambda>p. Inr (Deregister p))
          else Inr Ignored)"

definition run_command :: "mp2_kernel \<Rightarrow> mp2_command \<Rightarrow> mp2_state \<Rightarrow> (int \<times> mp2_state) result" where
  "run_command k cmd s =
     (case cmd of
        Register p per proc \<Rightarrow> Task_register (pid_task k) (slab_object k) p per proc s
      | Yield p \<Rightarrow> Task_yeild (msecs_to_jiffies k) (jiffies k) p s
      | Deregister p \<Rightarrow> Task_deregister p s
      | Ignored \<Rightarrow> Inr (0, s))"

text \<open>The handler ignores what the operation returns and reports all bytes as written.\<close>

definition mp2_write :: "mp2_kernel \<Rightarrow> char list \<Rightarrow> mp2_state \<Rightarrow> (nat \<times> mp2_state) result" where
  "mp2_write k data s =
     rbind (parse_command k data) (\<lambda>cmd.
     rbind (run_command k cmd s) (\<lambda>(ret, s).
     Inr (length data, s)))"

section \<open>Loading and unloading\<close>

definition mp2_init :: "mp2_state \<Rightarrow> mp2_state" where
  "mp2_init s =
     (Task_init (s\<lparr>proc_entries := proc_entries s @ [''mp2'', ''mp2/status'']\<rparr>))
       \<lparr>spin_held := False, dispatcher := True\<rparr>"

definition mp2_exit :: "mp2_state \<Rightarrow> mp2_state result" where
  "mp2_exit s =
     rbind (dispaching_thread_function 1 s) (\<lambda>s.
     rbind (Task_destroy (s\<lparr>dispatcher := False\<rparr>)) (\<lambda>s.
     Inr (s\<lparr>proc_entries := removeAll ''mp2'' (removeAll ''mp2/status'' (proc_entries s))\<rparr>)))"

section \<open>Steps of the loaded module\<close>

text \<open>
  When a timer fires the kernel takes it off its queue and calls the callback with its data. A
  slab allocation returns an object that is not in use.
\<close>

definition fire_timer :: "addr \<Rightarrow> mp2_state \<Rightarrow> mp2_state result" where
  "fire_timer a s =
     rbind (deref (slab s) a) (\<lambda>t.
       mp2_timer_callback (tdata (timer t)) (put_task a (t\<lparr>timer := (timer t)\<lparr>expires := None\<rparr>\<rparr>) s))"

definition fresh_object :: "mp2_kernel \<Rightarrow> mp2_state \<Rightarrow> bool" where
  "fresh_object k s \<longleftrightarrow> (\<forall>a. slab_object k = Some a \<longrightarrow> slab s a = None)"

definition timer_pending :: "addr \<Rightarrow> mp2_state \<Rightarrow> bool" where
  "timer_pending a s \<longleftrightarrow> a \<in> set (task_list s) \<and> expires (timer (task_at s a)) \<noteq> None"

inductive mp2_step :: "mp2_state \<Rightarrow> mp2_state \<Rightarrow> bool" where
  step_write: "fresh_object k s \<Longrightarrow> mp2_write k data s = Inr (n, t) \<Longrightarrow> mp2_step s t"
| step_read: "mp2_read count s = Inr (buf, t) \<Longrightarrow> mp2_step s t"
| step_timer: "timer_pending a s \<Longrightarrow> fire_timer a s = Inr t \<Longrightarrow> mp2_step s t"
| step_dispatch: "dispatcher s \<Longrightarrow> woken s \<Longrightarrow> dispaching_thread_function 1 s = Inr t \<Longrightarrow>
    mp2_step s t"

inductive_cases mp2_stepE: "mp2_step s t"

definition mp2_start :: "mp2_state \<Rightarrow> bool" where
  "mp2_start s \<longleftrightarrow> s = mp2_init mp2_static"

end
