(* ===== verification/Mp2_Safety.thy ===== *)
theory Mp2_Safety
  imports Mp2_Main
begin

text \<open>
  The handlers of the scheduler module keep the invariant and never read a freed object; the
  invariant holds in every reachable state. The dispatching thread is described exactly.
\<close>

section \<open>The parts of the dispatching thread\<close>

lemma preempt_Inr:
  "preempt c s = Inr t \<longleftrightarrow> (\<exists>u k. slab s c = Some u \<and> linux_task u = Some k \<and>
     t = s\<lparr>slab := (slab s)(c \<mapsto> u\<lparr>state := READY\<rparr>),
           calls := calls s @ [Sched_setscheduler k SCHED_NORMAL 0]\<rparr>)"
  by (auto simp: preempt_def result_simps access_defs split: option.splits)

lemma run_task_Inr:
  "run_task h s = Inr t \<longleftrightarrow> (\<exists>u k. slab s h = Some u \<and> linux_task u = Some k \<and>
     t = s\<lparr>slab := (slab s)(h \<mapsto> u\<lparr>state := RUNNING\<rparr>),
           calls := calls s @ [Wake_up_process k, Sched_setscheduler k SCHED_FIFO 99], ct := Some h\<rparr>)"
  by (auto simp: run_task_def result_simps access_defs split: option.splits)

lemma ct_above_eq:
  "slab s c = Some t \<Longrightarrow> slab s h = Some u \<Longrightarrow> ct_above c h s = Inr (period u < period t)"
  by (simp add: ct_above_def)

lemma preempt_ends:
  assumes "core_inv s" "slab s c = Some u"
  shows "ends (preempt c s) {NullDeref} (\<lambda>t. core_inv t \<and> ct t = ct s \<and> ct_lock t = ct_lock s \<and>
      spin_held t = spin_held s \<and> tl_lock t = tl_lock s \<and> task_list t = task_list s)"
proof -
  have "task_ok u" using assms by (rule core_inv_task_ok)
  then have "core_inv (s\<lparr>slab := (slab s)(c \<mapsto> u\<lparr>state := READY\<rparr>)\<rparr>)"
    using assms by (intro core_inv_put) (auto simp: task_ok_def)
  then show ?thesis using assms
    by (auto simp: preempt_def access_defs split: option.splits)
qed

lemma run_task_ends:
  assumes "core_inv s" "slab s h = Some u"
  shows "ends (run_task h s) {NullDeref} (\<lambda>t. core_inv t \<and> ct_lock t = ct_lock s \<and>
      spin_held t = spin_held s \<and> tl_lock t = tl_lock s \<and> task_list t = task_list s)"
proof -
  have "task_ok u" using assms by (rule core_inv_task_ok)
  then have "core_inv (s\<lparr>slab := (slab s)(h \<mapsto> u\<lparr>state := RUNNING\<rparr>)\<rparr>)" (is "core_inv ?t")
    using assms by (intro core_inv_put) (auto simp: task_ok_def)
  then have "core_inv (?t\<lparr>ct := Some h\<rparr>)"
    using core_inv_member [OF assms] by (intro core_inv_ct) auto
  then have "core_inv (s\<lparr>slab := (slab s)(h \<mapsto> u\<lparr>state := RUNNING\<rparr>), calls := cs, ct := Some h\<rparr>)" for cs
    by (rule core_inv_cong [THEN iffD1, rotated -1]) simp_all
  then show ?thesis using assms
    by (auto simp: run_task_def access_defs split: option.splits)
qed

lemma dispatch_switch_ends:
  assumes inv: "mp2_inv s" and h: "\<And>a. h = Some a \<Longrightarrow> a \<in> set (task_list s)"
  shows "ends (dispatch_switch h s) {NullDeref} (\<lambda>t. mp2_inv t \<and> tl_lock t = tl_lock s)"
proof -
  let ?Q = "\<lambda>t. core_inv t \<and> spin_held t = spin_held s \<and> tl_lock t = tl_lock s"
  let ?s = "s\<lparr>ct_lock := True\<rparr>"
  have core: "core_inv ?s" using inv by (simp add: mp2_inv_def)
  have live: "\<And>a t. core_inv t \<Longrightarrow> task_list t = task_list s \<Longrightarrow> h = Some a \<Longrightarrow> \<exists>u. slab t a = Some u"
    using h by (metis core_list_ok inv_at)
  have pre: "ends (preempt c ?s) {NullDeref} (\<lambda>t. core_inv t \<and> ct t = ct s \<and>
      spin_held t = spin_held s \<and> tl_lock t = tl_lock s \<and> task_list t = task_list s)" if "ct s = Some c" for c
    using core_inv_ct_live [OF core, of c] that preempt_ends [OF core, of c]
    by (auto elim!: ends_mono)
  have ready: "ends (case ct ?s of None \<Rightarrow> Inr ?s
        | Some c \<Rightarrow> rbind (ct_above c a ?s) (\<lambda>b. if b then preempt c ?s else Inr ?s)) {NullDeref}
      (\<lambda>t. core_inv t \<and> ct t = ct s \<and> spin_held t = spin_held s \<and> tl_lock t = tl_lock s \<and>
        task_list t = task_list s)" if "h = Some a" for a
    using core live [OF core _ that] core_inv_ct_live [OF core] pre
    by (auto simp: ct_above_eq split: option.splits)
  have switch: "ends (case ct t of None \<Rightarrow> run_task a t
        | Some c \<Rightarrow> rbind (ct_above c a t) (\<lambda>b. if b then run_task a t else Inr t)) {NullDeref} ?Q"
    if t: "core_inv t" "spin_held t = spin_held s" "tl_lock t = tl_lock s" "task_list t = task_list s"
      and a: "h = Some a" for a t
  proof -
    obtain u where u: "slab t a = Some u" using live t a by blast
    have "ends (run_task a t) {NullDeref} ?Q"
      using run_task_ends [OF t(1) u] t by (auto elim: ends_mono)
    then show ?thesis
      using t u core_inv_ct_live [OF t(1)] by (auto simp: ct_above_eq split: option.splits)
  qed
  have "ends (case h of None \<Rightarrow> (case ct ?s of None \<Rightarrow> Inr ?s | Some c \<Rightarrow> preempt c ?s)
      | Some a \<Rightarrow> rbind (case ct ?s of None \<Rightarrow> Inr ?s
          | Some c \<Rightarrow> rbind (ct_above c a ?s) (\<lambda>b. if b then preempt c ?s else Inr ?s)) (\<lambda>t.
         case ct t of None \<Rightarrow> run_task a t
          | Some c \<Rightarrow> rbind (ct_above c a t) (\<lambda>b. if b then run_task a t else Inr t)))
      {NullDeref} ?Q"
  proof (cases h)
    case None
    then show ?thesis using core pre by (auto split: option.splits elim: ends_mono)
  next
    case (Some a)
    show ?thesis
      unfolding Some option.case
      by (rule ends_rbind [OF ready [OF Some]]) (use switch Some in blast)
  qed
  then show ?thesis
    unfolding dispatch_switch_def lock_ct_def using inv
    by (auto simp: mp2_inv_def unlock_ct_def intro!: ends_rbind)
qed

text \<open>Which task is current after a switch, and what the switch leaves alone.\<close>

lemma dispatch_switch_Some:
  assumes "dispatch_switch (Some h) s = Inr t"
  shows "ct t = (case ct s of None \<Rightarrow> Some h
      | Some c \<Rightarrow> if period_at (slab s) h < period_at (slab s) c then Some h else Some c)"
    and "task_list t = task_list s"
    and "period_at (slab t) a = period_at (slab s) a"
    and "is_ready (slab t) a \<Longrightarrow> is_ready (slab s) a \<or>
      ct s = Some a \<and> period_at (slab s) h < period_at (slab s) a"
  using assms
  by (auto simp: dispatch_switch_def result_simps preempt_Inr run_task_Inr lock_defs ct_above_def
      period_at_def is_ready_def split: option.splits if_splits)

lemma dispatch_keep:
  assumes "\<not> ct_lock s" "slab s h = Some u" "ct s = Some c" "slab s c = Some v" "\<not> period u < period v"
  shows "dispatch_switch (Some h) s = Inr s"
  using assms by (simp add: dispatch_switch_def lock_defs ct_above_eq)

lemma dispatch_replace:
  assumes "\<not> ct_lock s" "slab s h = Some u" "ct s = Some c" "slab s c = Some v" "period u < period v"
    "linux_task u = Some kh" "linux_task v = Some kc"
  shows "dispatch_switch (Some h) s =
    Inr (s\<lparr>slab := (slab s)(c \<mapsto> v\<lparr>state := READY\<rparr>, h \<mapsto> u\<lparr>state := RUNNING\<rparr>),
      calls := calls s @ [Sched_setscheduler kc SCHED_NORMAL 0, Wake_up_process kh,
        Sched_setscheduler kh SCHED_FIFO 99], ct := Some h\<rparr>)"
proof -
  have "h \<noteq> c" using assms by auto
  then show ?thesis using assms
    by (simp add: dispatch_switch_def lock_defs ct_above_eq preempt_def run_task_def access_defs)
qed

lemma dispatch_start:
  assumes "\<not> ct_lock s" "slab s h = Some u" "ct s = None" "linux_task u = Some kh"
  shows "dispatch_switch (Some h) s =
    Inr (s\<lparr>slab := (slab s)(h \<mapsto> u\<lparr>state := RUNNING\<rparr>),
      calls := calls s @ [Wake_up_process kh, Sched_setscheduler kh SCHED_FIFO 99], ct := Some h\<rparr>)"
  using assms by (simp add: dispatch_switch_def lock_defs run_task_def access_defs)

lemma dispatch_idle:
  assumes "\<not> ct_lock s" "ct s = Some c" "slab s c = Some v" "linux_task v = Some kc"
  shows "dispatch_switch None s =
    Inr (s\<lparr>slab := (slab s)(c \<mapsto> v\<lparr>state := READY\<rparr>),
      calls := calls s @ [Sched_setscheduler kc SCHED_NORMAL 0]\<rparr>)"
  using assms by (simp add: dispatch_switch_def lock_defs preempt_def access_defs)

section \<open>Callback\<close>

definition mark_ready :: "u64 \<Rightarrow> slab \<Rightarrow> addr list \<Rightarrow> slab" where
  "mark_ready data h as = (\<lambda>a. if a \<in> set as \<and> ucast (pid (the (h a))) = data
     then Some ((the (h a))\<lparr>state := READY\<rparr>) else h a)"

lemma callback_loop_live:
  "distinct as \<Longrightarrow> live h as \<Longrightarrow> callback_loop data h as = Inr (mark_ready data h as)"
proof (induction as arbitrary: h)
  case (Cons a as)
  then obtain t where t: "h a = Some t" by auto
  let ?h = "if ucast (pid t) = data then h(a \<mapsto> t\<lparr>state := READY\<rparr>) else h"
  have "callback_loop data h (a # as) = callback_loop data ?h as" using t by simp
  also have "live ?h as" using Cons.prems(2) by simp
  with Cons.prems(1) have "callback_loop data ?h as = Inr (mark_ready data ?h as)"
    by (intro Cons.IH) simp_all
  also have "mark_ready data ?h as = mark_ready data h (a # as)"
  proof
    fix b
    show "mark_ready data ?h as b = mark_ready data h (a # as) b"
      using t Cons.prems(1) by (cases "b = a") (auto simp: mark_ready_def)
  qed
  finally show ?case .
qed (simp add: mark_ready_def)

lemma unlocked_spin [simp]: "\<not> spin_held s \<Longrightarrow> s\<lparr>spin_held := False\<rparr> = s"
  by (cases s) simp

lemma callback_eq:
  assumes "list_ok s" "\<not> spin_held s"
  shows "mp2_timer_callback data s =
    Inr (s\<lparr>slab := mark_ready data (slab s) (task_list s), spin_held := False, woken := True\<rparr>)"
  using assms by (simp add: mp2_timer_callback_def callback_loop_live inv_live list_ok_def
      wake_dispatcher_def)

lemma mark_ready_at:
  assumes "list_ok s" "a \<in> set (task_list s)"
  shows "the (mark_ready data (slab s) (task_list s) a) =
    (if ucast (pid (task_at s a)) = data then (task_at s a)\<lparr>state := READY\<rparr> else task_at s a)"
  using assms by (simp add: mark_ready_def task_at_def)

lemma dom_mark_ready: "live h as \<Longrightarrow> dom (mark_ready data h as) = dom h"
  by (auto simp: mark_ready_def live_def split: if_splits)

lemma core_inv_mark_ready:
  assumes "core_inv s"
  shows "core_inv (s\<lparr>slab := mark_ready data (slab s) (task_list s)\<rparr>)"
proof (rule core_inv_slab [OF assms])
  have ok: "list_ok s" using assms by (rule core_list_ok)
  then show "dom (mark_ready data (slab s) (task_list s)) = dom (slab s)"
    by (intro dom_mark_ready inv_live)
  fix a assume "a \<in> set (task_list s)"
  then show "pid (the (mark_ready data (slab s) (task_list s) a)) = pid (task_at s a) \<and>
      period (the (mark_ready data (slab s) (task_list s) a)) = period (task_at s a) \<and>
      proc_time (the (mark_ready data (slab s) (task_list s) a)) = proc_time (task_at s a) \<and>
      task_ok (the (mark_ready data (slab s) (task_list s) a))"
    using mark_ready_at [OF ok] inv_task_ok [OF ok] by (simp add: task_ok_def)
qed

section \<open>Every handler\<close>

lemma callback_ends:
  assumes "mp2_inv s"
  shows "ends (mp2_timer_callback data s) {} (\<lambda>t. mp2_inv t \<and> tl_lock t = tl_lock s)"
proof -
  let ?t = "s\<lparr>slab := mark_ready data (slab s) (task_list s)\<rparr>"
  have "core_inv ?t" using assms by (intro core_inv_mark_ready mp2_core)
  then have "core_inv (?t\<lparr>spin_held := False, woken := True\<rparr>)" by simp
  then show ?thesis
    using assms callback_eq [OF mp2_list_ok [OF assms]] by (simp add: mp2_inv_def)
qed

lemma fire_timer_ends:
  assumes inv: "mp2_inv s" and mem: "a \<in> set (task_list s)"
  shows "ends (fire_timer a s) {} (\<lambda>t. mp2_inv t \<and> tl_lock t = tl_lock s)"
proof -
  obtain u where u: "slab s a = Some u" using inv_at [OF mp2_list_ok [OF inv] mem] by blast
  let ?t = "put_task a (u\<lparr>timer := (timer u)\<lparr>expires := None\<rparr>\<rparr>) s"
  have "core_inv ?t"
    unfolding put_task_def using inv u core_inv_task_ok [OF mp2_core [OF inv] u]
    by (intro core_inv_put [OF mp2_core u]) (auto simp: task_ok_def)
  then have "mp2_inv ?t" using inv by (simp add: mp2_inv_def put_task_def)
  from callback_ends [OF this] show ?thesis
    using u by (simp add: fire_timer_def put_task_def)
qed

lemma dispatch_body_ends:
  assumes "mp2_inv s"
  shows "ends (dispatch_body s) {NullDeref, Deadlock} (\<lambda>t. mp2_inv t \<and> tl_lock t = tl_lock s)"
proof (cases "tl_lock s")
  case True
  then show ?thesis by (simp add: dispatch_body_def)
next
  case False
  obtain h where h: "Task_get_highest s = Inr (h, s)"
    using rm.select_returns mp2_list_ok [OF assms] False by blast
  have "ends (dispatch_switch h s) {NullDeref} (\<lambda>t. mp2_inv t \<and> tl_lock t = tl_lock s)"
    using h rm.select_some mp2_list_ok [OF assms] False assms by (intro dispatch_switch_ends) auto
  then show ?thesis by (auto simp: dispatch_body_def h elim: ends_mono)
qed

lemma thread_ends:
  "mp2_inv s \<Longrightarrow> ends (dispaching_thread_function n s) {NullDeref, Deadlock}
     (\<lambda>t. mp2_inv t \<and> tl_lock t = tl_lock s)"
proof (induction n arbitrary: s)
  case (Suc n)
  let ?s = "s\<lparr>woken := False\<rparr>"
  have "mp2_inv ?s" using Suc.prems by (simp add: mp2_inv_def)
  from dispatch_body_ends [OF this] show ?case
    unfolding dispaching_thread_function.simps
    by (rule ends_rbind) (auto intro: ends_mono [OF Suc.IH])
qed simp

lemma Task_register_ends:
  assumes "mp2_inv s" "\<And>a. new = Some a \<Longrightarrow> slab s a = None"
  shows "ends (Task_register k new p per proc s) {NullDeref, DivideError, Deadlock}
    (\<lambda>(r, t). mp2_inv t)"
proof (cases "tl_lock s")
  case False
  have "mp2_inv (registered a (new_task (k p) p per proc) s)"
    if "p \<notin> set (pids s)" "per \<noteq> 0" "\<not> MAX_UTIL \<le> total_util s + task_util proc per" "new = Some a" for a
    using that assms by (intro inv_registered) (auto simp: new_task_def task_ok_def)
  then show ?thesis
    using assms False by (auto simp: Task_register_eq mp2_list_ok mp2_inv_def split: option.splits)
qed simp

lemma Task_yeild_ends:
  assumes inv: "mp2_inv s"
  shows "ends (Task_yeild m2j j p s) {NullDeref, Deadlock} (\<lambda>(r, t). mp2_inv t)"
proof (cases "tl_lock s \<or> addr_of s p = None")
  case True
  show ?thesis
  proof (cases "tl_lock s")
    case False
    then show ?thesis
      using True inv Task_yeild_eq [OF mp2_list_ok [OF inv] False] by (simp add: mp2_inv_def)
  qed simp
next
  case False
  then obtain a where a: "addr_of s p = Some a" by auto
  have ok: "list_ok s" using inv by (rule mp2_list_ok)
  have at: "slab s a = Some (task_at s a)" "task_ok (task_at s a)"
    using addr_of_Some [OF a] inv_at [OF ok] inv_task_ok [OF ok] by auto
  let ?ddl = "next_deadline m2j j (task_at s a)"
  have "core_inv (s\<lparr>slab := (slab s)(a \<mapsto> (task_at s a)\<lparr>next_ddl := ?ddl\<rparr>)\<rparr>)"
    using inv at by (intro core_inv_put mp2_core) (auto simp: task_ok_def)
  then have miss: "mp2_inv (s\<lparr>slab := (slab s)(a \<mapsto> (task_at s a)\<lparr>next_ddl := ?ddl\<rparr>), tl_lock := True\<rparr>)"
    using inv by (simp add: mp2_inv_def)
  have "core_inv (s\<lparr>slab := (slab s)(a \<mapsto> slept m2j j (task_at s a))\<rparr>)"
    using inv at by (intro core_inv_put mp2_core) (auto simp: task_ok_def slept_def)
  then have "core_inv (s\<lparr>slab := (slab s)(a \<mapsto> slept m2j j (task_at s a)), ct := None\<rparr>)"
    by (rule core_inv_ct)
  then have "core_inv (yielded m2j j a k s)" for k
    by (rule core_inv_cong [THEN iffD1, rotated -1]) (simp_all add: yielded_def)
  then have "mp2_inv (yielded m2j j a k s)" for k
    using inv by (simp add: mp2_inv_def yielded_def)
  with miss show ?thesis
    using False inv ok a by (auto simp: Task_yeild_eq mp2_inv_def split: option.splits)
qed

lemma Task_deregister_ends:
  assumes inv: "mp2_inv s"
  shows "ends (Task_deregister p s) {Deadlock} (\<lambda>(r, t). mp2_inv t)"
proof (cases "tl_lock s")
  case False
  then show ?thesis
    using inv inv_deregistered [OF inv] addr_of_Some [of s p]
    by (auto simp: Task_deregister_eq mp2_list_ok mp2_inv_def split: option.splits)
qed simp

lemma scan_local_ends: "ends (scan_local tok junk) {NullDeref} (\<lambda>_. True)"
  by (simp add: scan_local_def split: option.splits)

lemma parse_command_ends: "ends (parse_command k data) {NullDeref} (\<lambda>_. True)"
  unfolding parse_command_def Let_def
  by (auto split: list.splits prod.splits simp del: strsep.simps intro!: ends_rbind [OF scan_local_ends])

lemma run_command_ends:
  assumes "mp2_inv s" "fresh_object k s"
  shows "ends (run_command k cmd s) {NullDeref, DivideError, Deadlock} (\<lambda>(r, t). mp2_inv t)"
  using assms
  by (auto simp: run_command_def fresh_object_def split: mp2_command.splits
      intro!: ends_mono [OF Task_register_ends] ends_mono [OF Task_yeild_ends]
        ends_mono [OF Task_deregister_ends])

lemma mp2_write_ends:
  assumes "mp2_inv s" "fresh_object k s"
  shows "ends (mp2_write k data s) {NullDeref, DivideError, Deadlock} (\<lambda>(n, t). mp2_inv t)"
proof -
  have "ends (parse_command k data) {NullDeref, DivideError, Deadlock} (\<lambda>_. True)"
    using parse_command_ends by (rule ends_mono) auto
  then show ?thesis
    unfolding mp2_write_def
    by (rule ends_rbind) (auto intro!: ends_rbind [OF run_command_ends [OF assms]])
qed

lemma mp2_read_ends:
  assumes inv: "mp2_inv s"
  shows "ends (mp2_read n s) {Deadlock, BufferOverflow} (\<lambda>(buf, t). mp2_inv t \<and> tl_lock t = tl_lock s)"
proof -
  have line: "\<forall>a\<in>set (task_list s). rbind (deref (slab s) a) (\<lambda>t. Inr (task_line t)) =
      Inr (task_line (task_at s a))"
    using inv_at [OF mp2_list_ok [OF inv]] by simp
  show ?thesis
    using inv status_lines_total [OF line, of n "[]"]
    by (simp add: mp2_read_def lock_defs mp2_inv_def)
qed

lemma mp2_step_inv:
  assumes "mp2_inv s" "mp2_step s t"
  shows "mp2_inv t"
  using assms(2)
proof cases
  case (step_write k data n)
  then show ?thesis using mp2_write_ends [OF assms(1), of k data] by simp
next
  case (step_read count buf)
  then show ?thesis using mp2_read_ends [OF assms(1), of count] by simp
next
  case (step_timer a)
  then show ?thesis using fire_timer_ends [OF assms(1), of a] by (simp add: timer_pending_def)
next
  case step_dispatch
  then show ?thesis using thread_ends [OF assms(1), of 1] by (simp del: dispaching_thread_function.simps)
qed

lemma mp2_start_inv: "mp2_start s \<Longrightarrow> mp2_inv s"
  by (simp add: mp2_start_def mp2_init_def mp2_static_def Task_init_def inv_defs view_defs unat_MAX_UTIL)

interpretation mp2: inductive_invariant mp2_start mp2_step mp2_inv
  by unfold_locales (fact mp2_start_inv, fact mp2_step_inv)

section \<open>Schedules\<close>

text \<open>
  A schedule names the steps of an execution; running it gives the state after them, or \<open>None\<close>
  when a step is not enabled or does not return.
\<close>

datatype mp2_action =
    Write mp2_kernel "char list"
  | Read nat
  | Fire addr
  | Dispatch

definition returned :: "('a \<times> mp2_state) result \<Rightarrow> mp2_state option" where
  "returned m = (case m of Inl e \<Rightarrow> None | Inr (x, t) \<Rightarrow> Some t)"

fun run_action :: "mp2_action \<Rightarrow> mp2_state \<Rightarrow> mp2_state option" where
  "run_action (Write k data) s = (if fresh_object k s then returned (mp2_write k data s) else None)"
| "run_action (Read n) s = returned (mp2_read n s)"
| "run_action (Fire a) s =
     (if timer_pending a s then (case fire_timer a s of Inl e \<Rightarrow> None | Inr t \<Rightarrow> Some t) else None)"
| "run_action Dispatch s =
     (if dispatcher s \<and> woken s
      then (case dispaching_thread_function 1 s of Inl e \<Rightarrow> None | Inr t \<Rightarrow> Some t) else None)"

fun run_schedule :: "mp2_action list \<Rightarrow> mp2_state \<Rightarrow> mp2_state option" where
  "run_schedule [] s = Some s"
| "run_schedule (x # xs) s = Option.bind (run_action x s) (run_schedule xs)"

lemma returned_Some: "returned m = Some t \<longleftrightarrow> (\<exists>x. m = Inr (x, t))"
  by (auto simp: returned_def split: sum.splits)

lemma run_action_step: "run_action x s = Some t \<Longrightarrow> mp2_step s t"
  by (cases x) (auto simp: returned_Some simp del: dispaching_thread_function.simps
      split: if_splits sum.splits intro: mp2_step.intros)

lemma run_schedule_reach:
  "reach mp2_start mp2_step s \<Longrightarrow> run_schedule xs s = Some t \<Longrightarrow> reach mp2_start mp2_step t"
proof (induction xs arbitrary: s)
  case (Cons x xs)
  then obtain u where "run_action x s = Some u" "run_schedule xs u = Some t"
    by (auto simp: bind_eq_Some_conv)
  then show ?case using Cons run_action_step reach_step by metis
qed simp

lemma loaded_reach: "reach mp2_start mp2_step (mp2_init mp2_static)"
  by (rule reach_start) (simp add: mp2_start_def)

section \<open>The contracts the module meets\<close>

text \<open>A registration request: the kernel's part, the pid, the period and the processing time.\<close>

type_synonym mp2_request = "mp2_kernel \<times> u32 \<times> u64 \<times> u64"

definition request_pid :: "mp2_request \<Rightarrow> u32" where
  "request_pid q = fst (snd q)"

definition request :: "mp2_request \<Rightarrow> mp2_state \<Rightarrow> (int \<times> mp2_state) result" where
  "request q = (case q of (k, p, per, proc) \<Rightarrow> run_command k (Register p per proc))"

definition unlocked :: "mp2_state \<Rightarrow> bool" where
  "unlocked s \<longleftrightarrow> mp2_inv s \<and> \<not> tl_lock s"

lemma unlockedD:
  "unlocked s \<Longrightarrow> mp2_inv s" "unlocked s \<Longrightarrow> \<not> tl_lock s" "unlocked s \<Longrightarrow> list_ok s"
  "unlocked s \<Longrightarrow> \<not> ct_lock s" "unlocked s \<Longrightarrow> \<not> spin_held s"
  by (simp_all add: unlocked_def mp2_inv_def core_inv_def)

lemma yield_yielded:
  assumes "unlocked s" "a \<in> set (task_list s)" "pid (task_at s a) = p" "linux_task (task_at s a) = Some k"
    "\<not> missed m2j j (task_at s a)"
  shows "Task_yeild m2j j p s = Inr (0, yielded m2j j a k s)" "unlocked (yielded m2j j a k s)"
proof -
  have "addr_of s p = Some a" using assms(2,3) unlockedD(3) [OF assms(1)] by (intro addr_of_member)
  then show y: "Task_yeild m2j j p s = Inr (0, yielded m2j j a k s)"
    using assms(4,5) unlockedD [OF assms(1)] by (simp add: Task_yeild_eq)
  show "unlocked (yielded m2j j a k s)"
    using Task_yeild_ends [OF unlockedD(1) [OF assms(1)], of m2j j p] y unlockedD(2) [OF assms(1)]
    by (simp add: unlocked_def yielded_def)
qed

lemma registered_pids:
  assumes "list_ok s" "slab s a = None"
  shows "pids (registered a t s) = pids s @ [pid t]"
proof -
  have "a \<notin> set (task_list s)" using assms by (auto simp: list_ok_def)
  then show ?thesis by (simp add: registered_def view_defs)
qed

lemma deregistered_pids:
  assumes "list_ok s" "a \<in> set (task_list s)"
  shows "pids (deregistered a s) = remove1 (pid (task_at s a)) (pids s)"
proof -
  have d: "distinct (map (pid \<circ> task_at s) (task_list s))" "distinct (task_list s)"
    using assms by (simp_all add: list_ok_def pids_def tasks_def)
  have "pids (deregistered a s) = map (pid \<circ> task_at s) (remove1 a (task_list s))"
    using d by (auto simp: view_defs)
  also have "\<dots> = remove1 (pid (task_at s a)) (map (pid \<circ> task_at s) (task_list s))"
    using d assms(2) remove1_map [of "pid \<circ> task_at s" a "task_list s"]
    by (simp add: distinct_map insert_absorb)
  finally show ?thesis by (simp add: pids_def tasks_def)
qed

lemma unlocked_registered:
  assumes "unlocked s" "slab s a = None" "p \<notin> set (pids s)" "per \<noteq> 0"
    "\<not> MAX_UTIL \<le> total_util s + task_util proc per"
  shows "unlocked (registered a (new_task k p per proc) s)"
proof -
  have "mp2_inv (registered a (new_task k p per proc) s)"
    using assms by (intro inv_registered) (auto simp: new_task_def task_ok_def unlocked_def)
  then show ?thesis using assms(1) by (simp add: unlocked_def registered_def)
qed

lemma unlocked_deregistered: "unlocked s \<Longrightarrow> a \<in> set (task_list s) \<Longrightarrow> unlocked (deregistered a s)"
  by (simp add: unlocked_def inv_deregistered)

interpretation mp2_reg: pid_registry pids unlocked request_pid "\<lambda>q. fresh_object (fst q)" request
    Task_deregister
proof (unfold_locales, goal_cases)
  case (1 s)
  then show ?case using unlockedD(3) [of s] by (simp add: list_ok_def)
next
  case (2 s q s')
  obtain k p per proc where q: "q = (k, p, per, proc)" by (cases q) auto
  let ?t = "\<lambda>a. registered a (new_task (pid_task k p) p per proc) s"
  from 2 obtain a where a: "slab_object k = Some a" "s' = ?t a" "p \<notin> set (pids s)" "per \<noteq> 0"
    "\<not> MAX_UTIL \<le> total_util s + task_util proc per"
    using unlockedD [OF 2(1)]
    by (auto simp: q request_def run_command_def Task_register_eq split: if_splits option.splits)
  with 2 have "slab s a = None" by (simp add: q fresh_object_def)
  then have "pids s' = pids s @ [p]" "unlocked s'"
    using a registered_pids [OF unlockedD(3) [OF 2(1)], of a "new_task (pid_task k p) p per proc"]
      unlocked_registered [OF 2(1)] by (simp_all add: new_task_def)
  then show ?case using a by (simp add: q request_pid_def)
next
  case (3 s q r s')
  obtain k p per proc where q: "q = (k, p, per, proc)" by (cases q) auto
  from 3 show ?case using unlockedD [OF 3(1)]
    by (auto simp: q request_def run_command_def Task_register_eq view_defs
        split: if_splits option.splits)
next
  case (4 s p)
  then obtain a where a: "addr_of s p = Some a" using addr_of_None by fastforce
  show ?case
    using a addr_of_Some [OF a] unlockedD [OF 4(1)] unlocked_deregistered [OF 4(1)]
    by (simp add: Task_deregister_eq deregistered_pids)
next
  case (5 s p)
  then show ?case using unlockedD [OF 5(1)] by (simp add: Task_deregister_eq addr_of_None [THEN iffD2])
qed

text \<open>The status file: one line per task, in list order.\<close>

definition mp2_contents :: "mp2_state \<Rightarrow> string" where
  "mp2_contents s = concat (map task_line (tasks s))"

lemma mp2_contents_frame [simp]:
  "mp2_contents (s\<lparr>read_finished := b\<rparr>) = mp2_contents s"
  by (simp add: mp2_contents_def view_defs)

lemma unlocked_read_finished [simp]: "unlocked (s\<lparr>read_finished := b\<rparr>) = unlocked s"
  by (simp add: unlocked_def mp2_inv_def)

lemma mp2_read_eq:
  assumes "unlocked s" "\<not> read_finished s"
  shows "mp2_read n s = (if fits n (task_list s) (mp2_contents s)
     then Inr (mp2_contents s, s\<lparr>read_finished := True\<rparr>) else Inl BufferOverflow)"
proof -
  have line: "\<forall>a\<in>set (task_list s). rbind (deref (slab s) a) (\<lambda>t. Inr (task_line t)) =
      Inr (task_line (task_at s a))"
    using inv_at unlockedD(3) [OF assms(1)] by simp
  have "concat (map (\<lambda>a. task_line (task_at s a)) (task_list s)) = mp2_contents s"
    by (simp add: mp2_contents_def tasks_def comp_def)
  then show ?thesis
    using assms(2) unlockedD(2) [OF assms(1)] status_lines_total [OF line, of n "[]"]
    by (simp add: mp2_read_def lock_defs fits_def)
qed

interpretation mp2_file: proc_status_file task_list mp2_contents read_finished unlocked mp2_read
proof (unfold_locales, goal_cases)
  case (3 s n)
  then show ?case by (simp add: mp2_read_def)
qed (simp_all add: mp2_read_eq)

end
