(* ===== verification/Binary64.thy ===== *)
theory Binary64
  imports Complex_Main "HOL-Library.Log_Nat" CString
begin

text \<open>
  The \<open>double\<close> arithmetic of the user programs: IEEE 754 binary64 with rounding to the nearest
  value and ties to even, over exact rationals, and the fixed-point output of \<open>printf\<close>. The
  values that occur here lie between \<open>2 ^ -80\<close> and \<open>2 ^ 80\<close>, so the exponent needs no bounds and no
  result is infinite or not a number.
\<close>

section \<open>Rounding\<close>

type_synonym double = rat

definition round_even :: "rat \<Rightarrow> int" where
  "round_even x =
     (let f = \<lfloor>x\<rfloor>; d = x - of_int f in
      if d < 1 / 2 then f else if 1 / 2 < d then f + 1 else if even f then f else f + 1)"

text \<open>The binary exponent of a positive number.\<close>

definition expo :: "rat \<Rightarrow> int" where
  "expo x =
     (let (a, b) = quotient_of x; e = bitlen a - bitlen b in
      if 2 powi e \<le> x then e else e - 1)"

definition fl :: "rat \<Rightarrow> double" where
  "fl x =
     (if x = 0 then 0
      else let e = expo \<bar>x\<bar> in of_int (round_even (x * 2 powi (52 - e))) * 2 powi (e - 52))"

text \<open>A double has a significand of 53 bits.\<close>

definition is_double :: "rat \<Rightarrow> bool" where
  "is_double x \<longleftrightarrow> (\<exists>m e. x = of_int m * 2 powi e \<and> \<bar>m\<bar> \<le> 2 ^ 53)"

definition d_of_int :: "int \<Rightarrow> double" where
  "d_of_int n = fl (of_int n)"

definition d_add :: "double \<Rightarrow> double \<Rightarrow> double" where
  "d_add x y = fl (x + y)"

definition d_sub :: "double \<Rightarrow> double \<Rightarrow> double" where
  "d_sub x y = fl (x - y)"

definition d_mul :: "double \<Rightarrow> double \<Rightarrow> double" where
  "d_mul x y = fl (x * y)"

definition d_div :: "double \<Rightarrow> double \<Rightarrow> double" where
  "d_div x y = fl (x / y)"

section \<open>The nearest integer\<close>

lemma round_even_error: "\<bar>of_int (round_even x) - x\<bar> \<le> 1 / 2"
proof -
  have "of_int \<lfloor>x\<rfloor> \<le> x" "x < of_int \<lfloor>x\<rfloor> + 1" using floor_correct [of x] by simp_all
  then show ?thesis unfolding round_even_def Let_def by (auto split: if_splits simp: abs_le_iff)
qed

lemma round_even_int [simp]: "round_even (of_int n) = n"
  by (simp add: round_even_def)

lemma round_even_nearest: "\<bar>of_int (round_even x) - x\<bar> \<le> \<bar>of_int n - x\<bar>"
proof (cases "n = round_even x")
  case False
  have "\<bar>of_int (round_even x) - x\<bar> \<le> 1 / 2" by (rule round_even_error)
  moreover have "1 \<le> \<bar>n - round_even x\<bar>" using False by simp
  then have "(1 :: rat) \<le> of_int \<bar>n - round_even x\<bar>" by (simp only: of_int_1_le_iff)
  then have "(1 :: rat) \<le> \<bar>of_int n - of_int (round_even x)\<bar>" by simp
  ultimately show ?thesis by linarith
qed simp

lemma round_even_bounds: "of_int a \<le> x \<Longrightarrow> x \<le> of_int b \<Longrightarrow> a \<le> round_even x \<and> round_even x \<le> b"
proof -
  assume "of_int a \<le> x" "x \<le> of_int b"
  with round_even_error [of x] have "of_int a - 1 < (of_int (round_even x) :: rat)" "(of_int (round_even x) :: rat) < of_int b + 1"
    by linarith+
  then have "of_int (a - 1) < (of_int (round_even x) :: rat)" "(of_int (round_even x) :: rat) < of_int (b + 1)" by simp_all
  then show ?thesis unfolding of_int_less_iff by simp
qed

section \<open>The exponent\<close>

lemma bitlen_powi_bounds:
  assumes "0 < n"
  shows "2 powi (bitlen n - 1) \<le> (of_int n :: rat)" "(of_int n :: rat) < 2 powi bitlen n"
proof -
  have b: "2 ^ nat (bitlen n - 1) \<le> n" "n < 2 ^ nat (bitlen n)" "0 < bitlen n"
    using bitlen_bounds [OF assms] bitlen_nonneg [of n] bitlen_eq_zero_iff [of n] assms
    by (auto simp: less_le)
  have "2 powi (bitlen n - 1) = (of_int (2 ^ nat (bitlen n - 1)) :: rat)" using b(3) by (simp add: power_int_def)
  also have "\<dots> \<le> of_int n" using b(1) by (simp only: of_int_le_iff)
  finally show "2 powi (bitlen n - 1) \<le> (of_int n :: rat)" .
  have "(of_int n :: rat) < of_int (2 ^ nat (bitlen n))" using b(2) by (simp only: of_int_less_iff)
  then show "(of_int n :: rat) < 2 powi bitlen n" using b(3) by (simp add: power_int_def)
qed

lemma powi_mono: "a \<le> b \<Longrightarrow> (2 :: rat) powi a \<le> 2 powi b"
  by (rule power_int_increasing) simp_all

lemma powi_add: "(2 :: rat) powi (a + b) = 2 powi a * 2 powi b"
  by (rule power_int_add) simp

lemma powi_pos [simp]: "0 < (2 :: rat) powi a"
  by simp

lemma expo_bounds:
  assumes "0 < x"
  shows "2 powi expo x \<le> x" "x < 2 powi (expo x + 1)"
proof -
  obtain a b where q: "quotient_of x = (a, b)" by (cases "quotient_of x")
  then have b: "0 < b" and x: "x = of_int a / of_int b" by (auto intro: quotient_of_denom_pos quotient_of_div)
  with assms have a: "0 < a" by (simp add: zero_less_divide_iff)
  define la lb where "la = bitlen a" and "lb = bitlen b"
  have A: "2 powi (la - 1) \<le> (of_int a :: rat)" "(of_int a :: rat) < 2 powi la"
    using bitlen_powi_bounds [of a] a by (simp_all add: la_def)
  have B: "2 powi (lb - 1) \<le> (of_int b :: rat)" "(of_int b :: rat) < 2 powi lb"
    using bitlen_powi_bounds [of b] b by (simp_all add: lb_def)
  have bp: "(0 :: rat) < of_int b" using b by simp
  have "2 powi (la - lb - 1) * of_int b \<le> 2 powi (la - lb - 1) * (2 powi lb :: rat)"
    using B(2) by (intro mult_left_mono) simp_all
  also have "\<dots> = 2 powi (la - 1)" by (simp flip: powi_add)
  also have "\<dots> \<le> of_int a" by (rule A)
  finally have lo: "2 powi (la - lb - 1) \<le> x" using bp x by (simp add: pos_le_divide_eq)
  have "(of_int a :: rat) < 2 powi la" by (rule A)
  also have "(2 :: rat) powi la = 2 powi (la - lb + 1) * 2 powi (lb - 1)" by (simp flip: powi_add)
  also have "\<dots> \<le> 2 powi (la - lb + 1) * of_int b" using B(1) by (intro mult_left_mono) simp_all
  finally have hi: "x < 2 powi (la - lb + 1)" using bp x by (simp add: pos_divide_less_eq)
  have e: "expo x = (if 2 powi (la - lb) \<le> x then la - lb else la - lb - 1)"
    by (simp add: expo_def q la_def lb_def)
  show "2 powi expo x \<le> x" using lo by (simp add: e)
  show "x < 2 powi (expo x + 1)" using hi by (simp add: e)
qed

lemma expo_less: "0 < x \<Longrightarrow> x < 2 powi k \<Longrightarrow> expo x < k"
  using expo_bounds(1) [of x] powi_mono [of k "expo x"] by (meson less_le_trans not_less)

section \<open>The nearest double\<close>

lemma scaled_unit: "x * 2 powi (52 - e) * 2 powi (e - 52) = (x :: rat)"
  by (simp add: mult.assoc flip: powi_add)

text \<open>On a nonzero number rounding is to the nearest multiple of the unit in the last place.\<close>

lemma fl_unit:
  assumes "x \<noteq> 0" "u = 2 powi (expo \<bar>x\<bar> - 52)"
  shows "fl x = of_int (round_even (x / u)) * u" "2 ^ 52 * u \<le> \<bar>x\<bar>" "\<bar>x\<bar> < 2 ^ 53 * u"
proof -
  have u: "x / u = x * 2 powi (52 - expo \<bar>x\<bar>)"
    using assms(2) scaled_unit [of x "expo \<bar>x\<bar>"] by (simp add: divide_eq_eq)
  show "fl x = of_int (round_even (x / u)) * u" unfolding u using assms by (simp add: fl_def Let_def)
  have "2 ^ 52 * u = 2 powi (52 + (expo \<bar>x\<bar> - 52))" unfolding assms(2) powi_add [of 52] by simp
  then show "2 ^ 52 * u \<le> \<bar>x\<bar>" using expo_bounds(1) [of "\<bar>x\<bar>"] assms(1) by simp
  have "2 ^ 53 * u = 2 powi (53 + (expo \<bar>x\<bar> - 52))" unfolding assms(2) powi_add [of 53] by simp
  moreover have "53 + (expo \<bar>x\<bar> - 52) = expo \<bar>x\<bar> + 1" by simp
  ultimately show "\<bar>x\<bar> < 2 ^ 53 * u" using expo_bounds(2) [of "\<bar>x\<bar>"] assms(1) by simp
qed

lemma fl_is_double: "is_double (fl x)"
proof (cases "x = 0")
  case True
  then show ?thesis by (auto simp: fl_def is_double_def intro: exI [of _ 0])
next
  case False
  define u where "u = (2 :: rat) powi (expo \<bar>x\<bar> - 52)"
  note f = fl_unit [OF False u_def]
  have up: "0 < u" by (simp add: u_def)
  have "of_int (- (2 ^ 53)) \<le> x / u" "x / u \<le> of_int (2 ^ 53)"
    using f(3) up by (simp_all add: pos_divide_le_eq pos_le_divide_eq abs_less_iff)
  from round_even_bounds [OF this] have "\<bar>round_even (x / u)\<bar> \<le> 2 ^ 53" by (simp add: abs_le_iff)
  with f(1) show ?thesis unfolding is_double_def u_def by blast
qed

lemma scaled_error: "0 < u \<Longrightarrow> \<bar>of_int k * u - x\<bar> = \<bar>of_int k - x / u\<bar> * (u :: rat)"
  by (metis abs_mult_pos' diff_divide_eq_iff divide_diff_eq_iff eq_divide_eq less_imp_le less_irrefl
      nonzero_eq_divide_eq mult.commute abs_mult abs_of_pos)

lemma unit_multiple_nearest:
  "0 < u \<Longrightarrow> \<bar>of_int (round_even (x / u)) * u - x\<bar> \<le> \<bar>of_int n * u - x\<bar>"
  unfolding scaled_error using round_even_nearest [of "x / u" n]
  by (intro mult_right_mono) simp_all

lemma fl_nearest:
  assumes "is_double d"
  shows "\<bar>fl x - x\<bar> \<le> \<bar>d - x\<bar>"
proof (cases "x = 0")
  case False
  define u where "u = (2 :: rat) powi (expo \<bar>x\<bar> - 52)"
  note f = fl_unit [OF False u_def]
  have up: "0 < u" by (simp add: u_def)
  obtain m e where d: "d = of_int m * 2 powi e" "\<bar>m\<bar> \<le> 2 ^ 53" using assms by (auto simp: is_double_def)
  show ?thesis
  proof (cases "expo \<bar>x\<bar> - 52 \<le> e")
    case True
    then obtain k where k: "e = expo \<bar>x\<bar> - 52 + int k" using zle_iff_zadd by auto
    have "d = of_int (m * 2 ^ k) * u" unfolding d(1) k powi_add u_def by (simp add: mult_ac)
    then show ?thesis unfolding f(1) using unit_multiple_nearest [OF up] by metis
  next
    case False
    then have e: "e \<le> expo \<bar>x\<bar> - 53" by simp
    have m: "of_int \<bar>m\<bar> \<le> (2 :: rat) ^ 53" using d(2) by (simp only: of_int_le_numeral_power_cancel_iff)
    have "\<bar>d\<bar> = of_int \<bar>m\<bar> * 2 powi e" by (simp add: d(1) abs_mult)
    also have "\<dots> \<le> 2 ^ 53 * 2 powi (expo \<bar>x\<bar> - 53)"
      using m e by (intro mult_mono powi_mono) simp_all
    also have "\<dots> = 2 ^ 52 * u" unfolding u_def
      using powi_add [of 53 "expo \<bar>x\<bar> - 53"] powi_add [of 52 "expo \<bar>x\<bar> - 52"] by simp
    finally have small: "\<bar>d\<bar> \<le> 2 ^ 52 * u" .
    define n where "n = (if 0 < x then 2 ^ 52 else - (2 ^ 52) :: int)"
    have "\<bar>of_int n * u - x\<bar> \<le> \<bar>d - x\<bar>"
      using small f(2) by (cases "0 < x") (simp_all add: n_def abs_if split: if_splits)
    then show ?thesis unfolding f(1) using unit_multiple_nearest [OF up, of x n] by linarith
  qed
qed (simp add: fl_def)

lemma fl_double [simp]: "is_double x \<Longrightarrow> fl x = x"
  using fl_nearest [of x x] by simp

lemma fl_mono:
  assumes "x \<le> y"
  shows "fl x \<le> fl y"
proof (rule ccontr)
  assume "\<not> fl x \<le> fl y"
  moreover have "\<bar>fl x - x\<bar> \<le> \<bar>fl y - x\<bar>" "\<bar>fl y - y\<bar> \<le> \<bar>fl x - y\<bar>"
    by (simp_all add: fl_nearest fl_is_double)
  ultimately have "y \<le> x" by linarith
  with assms have "x = y" by simp
  with \<open>\<not> fl x \<le> fl y\<close> show False by simp
qed

lemma is_double_int: "\<bar>n\<bar> \<le> 2 ^ 53 \<Longrightarrow> is_double (of_int n)"
  unfolding is_double_def by (rule exI [of _ n], rule exI [of _ 0]) simp

lemma is_double_power: "is_double (2 powi k)"
  unfolding is_double_def by (rule exI [of _ 1], rule exI [of _ k]) simp

lemma is_double_uminus: "is_double x \<Longrightarrow> is_double (- x)"
  unfolding is_double_def by (metis abs_minus_cancel minus_mult_left of_int_minus)

lemma fl_error:
  assumes "\<bar>x\<bar> \<le> 2 powi k"
  shows "\<bar>fl x - x\<bar> \<le> 2 powi (k - 54)"
proof (cases "x = 0 \<or> \<bar>x\<bar> = 2 powi k")
  case True
  then have "x = 0 \<or> x = 2 powi k \<or> x = - (2 powi k)" by linarith
  then have "is_double x" using is_double_power is_double_uminus is_double_int [of 0] by auto
  then show ?thesis by simp
next
  case False
  define u where "u = (2 :: rat) powi (expo \<bar>x\<bar> - 52)"
  have up: "0 < u" by (simp add: u_def)
  have "expo \<bar>x\<bar> < k" using False assms by (intro expo_less) simp_all
  then have "u \<le> 2 powi (1 + (k - 54))" unfolding u_def by (intro powi_mono) simp
  then have uk: "u \<le> 2 * 2 powi (k - 54)" by (simp only: powi_add power_int_1_right)
  have "\<bar>fl x - x\<bar> = \<bar>of_int (round_even (x / u)) - x / u\<bar> * u"
    using False fl_unit(1) [OF _ u_def] scaled_error [OF up] by simp
  also have "\<dots> \<le> 1 / 2 * u" using up round_even_error by (intro mult_right_mono) simp_all
  finally show ?thesis using uk by linarith
qed

section \<open>Fixed-point output\<close>

text \<open>\<open>%f\<close>: the value in millionths, ties to even, with six digits after the point.\<close>

definition millionths :: "double \<Rightarrow> nat" where
  "millionths x = nat (round_even (\<bar>x\<bar> * 10 ^ 6))"

definition show_fixed :: "nat \<Rightarrow> string" where
  "show_fixed n =
     (let frac = show_dec (n mod 10 ^ 6) in
      show_dec (n div 10 ^ 6) @ ''.'' @ replicate (6 - length frac) (CHR ''0'') @ frac)"

definition show_f :: "double \<Rightarrow> string" where
  "show_f x = (if x < 0 then ''-'' else '''') @ show_fixed (millionths x)"

lemma millionths_error: "\<bar>of_nat (millionths x) - 1000000 * \<bar>x\<bar>\<bar> \<le> 1 / 2"
proof -
  have "0 \<le> round_even (\<bar>x\<bar> * 10 ^ 6)"
    using round_even_bounds [of 0 "\<bar>x\<bar> * 10 ^ 6" "\<lceil>\<bar>x\<bar> * 10 ^ 6\<rceil>"] by (simp add: le_of_int_ceiling)
  then have "of_nat (millionths x) = (of_int (round_even (\<bar>x\<bar> * 10 ^ 6)) :: rat)"
    by (simp add: millionths_def)
  with round_even_error [of "\<bar>x\<bar> * 10 ^ 6"] show ?thesis by (simp add: mult.commute)
qed

end
