(* ===== verification/Mp2_Job.thy ===== *)
theory Mp2_Job
  imports Binary64
begin

text \<open>
  The timed work of \<open>MP2/userapp.h\<close>: the clock reading in milliseconds as a \<open>double\<close>, the busy loop of
  one period and the line of measurements. The program computes with rounded numbers; the lemmas
  compare them with the exact time in microseconds.
\<close>

section \<open>Clock readings\<close>

text \<open>Both fields of a \<open>timeval\<close> are a \<open>long\<close>.\<close>

record timeval =
  tv_sec :: u64
  tv_usec :: u64

text \<open>\<open>t.tv_sec*1000.0+t.tv_usec/1000.0\<close>\<close>

definition msec :: "timeval \<Rightarrow> double" where
  "msec t = d_add (d_mul (d_of_int (sint (tv_sec t))) 1000) (d_div (d_of_int (sint (tv_usec t))) 1000)"

section \<open>The job of one period\<close>

text \<open>
  \<open>result = (result * (result + 1)) % 500\<close> on \<open>int\<close>; the remainder of C truncates towards
  zero.
\<close>

definition c_rem :: "int \<Rightarrow> int \<Rightarrow> int" where
  "c_rem a b = sgn a * (\<bar>a\<bar> mod \<bar>b\<bar>)"

definition job_step :: "int \<Rightarrow> int" where
  "job_step result = c_rem (result * (result + 1)) 500"

definition job_continues :: "timeval \<Rightarrow> timeval \<Rightarrow> bool" where
  "job_continues start now \<longleftrightarrow> d_sub (msec now) (msec start) < 90"

text \<open>
  \<open>clock n\<close> is what the call of \<open>gettimeofday\<close> with number \<open>n\<close> fills in; \<open>n\<close> is the number of the next
  call. \<open>None\<close> is running out of fuel.
\<close>

fun job_loop :: "nat \<Rightarrow> (nat \<Rightarrow> timeval) \<Rightarrow> timeval \<Rightarrow> timeval \<Rightarrow> nat \<Rightarrow> int \<Rightarrow> (int \<times> nat) option" where
  "job_loop 0 clock start now n result = None"
| "job_loop (Suc fuel) clock start now n result =
     (if job_continues start now then job_loop fuel clock start (clock n) (Suc n) (job_step result)
      else Some (result, n))"

definition do_job :: "nat \<Rightarrow> (nat \<Rightarrow> timeval) \<Rightarrow> nat \<Rightarrow> nat option" where
  "do_job fuel clock n = map_option snd (job_loop fuel clock (clock n) (clock (Suc n)) (Suc (Suc n)) 1)"

section \<open>The line of measurements\<close>

text \<open>
  \<open>start.tv_sec*1000+start.tv_usec/1000.0\<close>: in the first column the product is one of integers,
  at the width of \<open>long\<close>.
\<close>

definition msec_long :: "timeval \<Rightarrow> double" where
  "msec_long t = d_add (d_of_int (sint (tv_sec t * 1000))) (d_div (d_of_int (sint (tv_usec t))) 1000)"

definition actual_proc_time :: "timeval \<Rightarrow> timeval \<Rightarrow> double" where
  "actual_proc_time start now = d_sub (msec now) (msec_long start)"

definition since_initial :: "timeval \<Rightarrow> timeval \<Rightarrow> double" where
  "since_initial initial t = d_sub (msec t) (msec initial)"

definition tab :: char where
  "tab = CHR 0x09"

definition print_result :: "timeval \<Rightarrow> timeval \<Rightarrow> timeval \<Rightarrow> u32 \<Rightarrow> u32 \<Rightarrow> u32 \<Rightarrow> string" where
  "print_result initial start now me period proc_time =
     show_u me @ [tab] @ show_d period @ [tab] @ show_d proc_time @ [tab] @
     show_f (actual_proc_time start now) @ [tab] @ show_f (since_initial initial start) @ [tab] @
     show_f (since_initial initial now) @ [newline]"

section \<open>Readings against exact time\<close>

text \<open>A reading of the clock between 1970 and 2038, and its time in microseconds.\<close>

definition timeval_ok :: "timeval \<Rightarrow> bool" where
  "timeval_ok t \<longleftrightarrow> uint (tv_sec t) < 2 ^ 31 \<and> uint (tv_usec t) < 10 ^ 6"

definition usecs :: "timeval \<Rightarrow> int" where
  "usecs t = uint (tv_sec t) * 10 ^ 6 + uint (tv_usec t)"

definition elapsed :: "timeval \<Rightarrow> timeval \<Rightarrow> int" where
  "elapsed start now = usecs now - usecs start"

lemma sint_small: "uint (w :: u64) < 2 ^ 63 \<Longrightarrow> sint w = uint w"
  by (simp add: sint_uint signed_take_bit_int_eq_self order_trans [OF _ uint_ge_0])

lemma fl_mult_1000:
  assumes "0 \<le> s" "s < 2 ^ 31"
  shows "d_mul (d_of_int s) 1000 = of_int (s * 1000)" "d_of_int (s * 1000) = of_int (s * 1000)"
proof -
  have "is_double (of_int s)" "is_double (of_int (s * 1000))"
    using assms by (intro is_double_int; simp)+
  then show "d_mul (d_of_int s) 1000 = of_int (s * 1000)" "d_of_int (s * 1000) = of_int (s * 1000)"
    by (simp_all add: d_mul_def d_of_int_def)
qed

lemma msec_eq:
  assumes "timeval_ok t"
  shows "msec t = fl (of_int (uint (tv_sec t) * 1000) + fl (of_int (uint (tv_usec t)) / 1000))"
    and "msec_long t = msec t"
proof -
  define s u where "s = uint (tv_sec t)" and "u = uint (tv_usec t)"
  have su: "0 \<le> s" "s < 2 ^ 31" "0 \<le> u" "u < 10 ^ 6"
    using assms by (simp_all add: s_def u_def timeval_ok_def)
  have sec: "sint (tv_sec t) = s" "sint (tv_usec t) = u"
    using assms by (simp_all add: s_def u_def timeval_ok_def sint_small)
  have "uint (tv_sec t * 1000) = s * 1000"
    using uint_mult_lem [of "tv_sec t" 1000] assms by (simp add: s_def timeval_ok_def)
  then have long: "sint (tv_sec t * 1000) = s * 1000"
    using assms by (simp add: s_def timeval_ok_def sint_small)
  have u: "d_of_int u = of_int u" using su(3,4) by (simp add: d_of_int_def is_double_int)
  show m: "msec t = fl (of_int (uint (tv_sec t) * 1000) + fl (of_int (uint (tv_usec t)) / 1000))"
    unfolding s_def [symmetric] u_def [symmetric]
    by (simp only: msec_def sec d_add_def fl_mult_1000 [OF su(1,2)] d_div_def u)
  show "msec_long t = msec t"
    unfolding m s_def [symmetric] u_def [symmetric]
    by (simp only: msec_long_def long sec d_add_def fl_mult_1000 [OF su(1,2)] d_div_def u)
qed

lemma fl_thousandth:
  assumes "0 \<le> u" "u < 10 ^ 6"
  shows "0 \<le> fl (of_int u / 1000)" "fl (of_int u / 1000) \<le> 1000"
  using fl_mono [of 0 "of_int u / 1000"] fl_mono [of "of_int u / 1000" 1000] is_double_int [of 0]
    is_double_int [of 1000] assms by simp_all

lemma msec_error:
  assumes "timeval_ok t"
  shows "\<bar>msec t - of_int (usecs t) / 1000\<bar> \<le> 1 / 8000" "0 \<le> msec t" "msec t \<le> 2 ^ 41"
proof -
  define s u where "s = uint (tv_sec t)" and "u = uint (tv_usec t)"
  have su: "0 \<le> s" "s < 2 ^ 31" "0 \<le> u" "u < 10 ^ 6"
    using assms by (simp_all add: s_def u_def timeval_ok_def)
  have us: "usecs t = s * 10 ^ 6 + u" by (simp add: usecs_def s_def u_def)
  have m: "msec t = fl (of_int (s * 1000) + fl (of_int u / 1000))"
    unfolding s_def u_def by (rule msec_eq(1) [OF assms])
  have q: "0 \<le> (of_int u :: rat) / 1000" "of_int u / 1000 \<le> (1000 :: rat)"
    using su(3,4) by simp_all
  have e1: "\<bar>fl (of_int u / 1000) - of_int u / 1000\<bar> \<le> 1 / 400000"
    by (rule order_trans [OF fl_error [where k = 10]]) (use q in \<open>simp_all add: power_int_minus\<close>)
  note q' = fl_thousandth [OF su(3,4)]
  have s': "0 \<le> (of_int (s * 1000) :: rat)" "of_int (s * 1000) \<le> (2147483647000 :: rat)"
    using su by simp_all
  have e2: "\<bar>msec t - (of_int (s * 1000) + fl (of_int u / 1000))\<bar> \<le> 1 / 8192"
    using fl_error [of "of_int (s * 1000) + fl (of_int u / 1000)" 41] q' s'
    by (simp add: m power_int_minus field_simps abs_le_iff)
  have x: "of_int (usecs t) / 1000 = of_int (s * 1000) + (of_int u :: rat) / 1000"
    by (simp add: us field_simps)
  show "\<bar>msec t - of_int (usecs t) / 1000\<bar> \<le> 1 / 8000"
    unfolding x using e1 e2 unfolding abs_le_iff by linarith
  have "is_double (2 ^ 41)" using is_double_int [of "2 ^ 41"] by simp
  then show "0 \<le> msec t" "msec t \<le> 2 ^ 41"
    using fl_mono [of 0 "of_int (s * 1000) + fl (of_int u / 1000)"] q' s' is_double_int [of 0]
      fl_mono [of "of_int (s * 1000) + fl (of_int u / 1000)" "2 ^ 41"] by (simp_all add: m)
qed

lemma elapsed_error:
  assumes "timeval_ok start" "timeval_ok now"
  shows "\<bar>d_sub (msec now) (msec start) - of_int (elapsed start now) / 1000\<bar> \<le> 2 / 5000"
proof -
  note a = msec_error [OF assms(1)] and b = msec_error [OF assms(2)]
  have "\<bar>d_sub (msec now) (msec start) - (msec now - msec start)\<bar> \<le> 1 / 8192"
    unfolding d_sub_def using fl_error [of "msec now - msec start" 41] a b
    by (simp add: power_int_minus abs_le_iff)
  then show ?thesis
    using a(1) b(1) unfolding elapsed_def of_int_diff diff_divide_distrib abs_le_iff by linarith
qed

lemma msec_mono:
  assumes "timeval_ok a" "timeval_ok b" "usecs a \<le> usecs b"
  shows "msec a \<le> msec b"
proof -
  define s u s' u' where defs: "s = uint (tv_sec a)" "u = uint (tv_usec a)" "s' = uint (tv_sec b)" "u' = uint (tv_usec b)"
  have u: "0 \<le> u" "u < 10 ^ 6" "0 \<le> u'" "u' < 10 ^ 6"
    using assms(1,2) by (simp_all add: defs timeval_ok_def)
  have le: "s * 10 ^ 6 + u \<le> s' * 10 ^ 6 + u'" using assms(3) by (simp add: usecs_def defs)
  have "of_int (s * 1000) + fl (of_int u / 1000) \<le> of_int (s' * 1000) + fl (of_int u' / 1000)"
  proof (cases "s < s'")
    case True
    then have "(of_int (s * 1000 + 1000) :: rat) \<le> of_int (s' * 1000)" by (subst of_int_le_iff) simp
    with fl_thousandth [OF u(1,2)] fl_thousandth [OF u(3,4)] show ?thesis by simp
  next
    case False
    then have "s = s'" "u \<le> u'" using le u by simp_all
    then show ?thesis by (simp add: fl_mono divide_right_mono)
  qed
  then show ?thesis
    unfolding msec_eq(1) [OF assms(1)] msec_eq(1) [OF assms(2)] defs by (rule fl_mono)
qed

text \<open>
  The rounded test decides as the exact one does, except when exactly 90 milliseconds have
  passed.
\<close>

lemma job_continues_exact:
  assumes "timeval_ok start" "timeval_ok now"
  shows "elapsed start now < 90000 \<Longrightarrow> job_continues start now"
    "90000 < elapsed start now \<Longrightarrow> \<not> job_continues start now"
proof -
  note e = elapsed_error [OF assms, unfolded abs_le_iff]
  show "job_continues start now" if "elapsed start now < 90000"
  proof -
    have "of_int (elapsed start now) \<le> (of_int 89999 :: rat)" using that by (subst of_int_le_iff) simp
    with e show ?thesis unfolding job_continues_def by simp
  qed
  show "\<not> job_continues start now" if "90000 < elapsed start now"
  proof -
    have "(of_int 90001 :: rat) \<le> of_int (elapsed start now)" using that by (subst of_int_le_iff) simp
    with e show ?thesis unfolding job_continues_def by simp
  qed
qed

lemma job_step_bounds: "0 \<le> r \<Longrightarrow> 0 \<le> job_step r \<and> job_step r < 500"
  by (auto simp: job_step_def c_rem_def sgn_if)

text \<open>
  The loop returns at the first reading that its test rejects, and the accumulator stays small.
\<close>

lemma job_loop_returns:
  assumes "\<forall>i<k. job_continues start (clock (n + i))" "\<not> job_continues start (clock (n + k))"
    "k < fuel" "0 \<le> r0" "r0 < 500"
  shows "\<exists>r. job_loop fuel clock start (clock n) (Suc n) r0 = Some (r, n + k + 1) \<and> 0 \<le> r \<and> r < 500"
  using assms
proof (induction k arbitrary: n fuel r0)
  case 0
  then show ?case by (cases fuel) auto
next
  case (Suc k)
  obtain f where f: "fuel = Suc f" using Suc.prems(3) by (cases fuel) auto
  have "\<forall>i<k. job_continues start (clock (Suc n + i))" using Suc.prems(1) by auto
  then have "\<exists>r. job_loop f clock start (clock (Suc n)) (Suc (Suc n)) (job_step r0) = Some (r, Suc n + k + 1) \<and> 0 \<le> r \<and> r < 500"
    using Suc.IH [of "Suc n" f "job_step r0"] Suc.prems f job_step_bounds [of r0] by auto
  moreover have "job_continues start (clock n)" using Suc.prems(1) by force
  ultimately show ?case by (simp add: f)
qed

lemma do_job_returns:
  assumes "\<forall>i<k. job_continues (clock n) (clock (Suc n + i))" "\<not> job_continues (clock n) (clock (Suc n + k))" "k < fuel"
  shows "do_job fuel clock n = Some (n + k + 2)"
  using job_loop_returns [OF assms, of 1] by (auto simp: do_job_def)

lemma do_job_stops:
  assumes "\<forall>i\<le>n + fuel. timeval_ok (clock i)" "j < fuel" "90000 < elapsed (clock n) (clock (Suc n + j))"
  shows "\<exists>k\<le>j. do_job fuel clock n = Some (Suc n + k + 1) \<and> 90000 \<le> elapsed (clock n) (clock (Suc n + k)) \<and>
    (\<forall>i<k. elapsed (clock n) (clock (Suc n + i)) \<le> 90000)"
proof -
  note exact = job_continues_exact [OF assms(1) [rule_format] assms(1) [rule_format]]
  let ?stop = "\<lambda>k. \<not> job_continues (clock n) (clock (Suc n + k))"
  have "?stop j" using exact(2) [of n "Suc n + j"] assms(2,3) by simp
  then obtain k where k: "?stop k" "\<forall>i<k. \<not> ?stop i" "k \<le> j"
    using exists_least_iff [of ?stop] by (metis not_less)
  have "do_job fuel clock n = Some (Suc n + k + 1)"
    using do_job_returns [where k = k and n = n and fuel = fuel and clock = clock] k assms(2) by simp
  moreover have "90000 \<le> elapsed (clock n) (clock (Suc n + k))"
    using exact(1) [of n "Suc n + k"] k(1,3) assms(2) by (force simp: not_less)
  moreover have "elapsed (clock n) (clock (Suc n + i)) \<le> 90000" if "i < k" for i
    using exact(2) [of n "Suc n + i"] k(2,3) that assms(2) by (force simp: not_less)
  ultimately show ?thesis using k(3) by blast
qed

text \<open>
  Each printed time is exact up to 400 nanoseconds, in the millionths of a millisecond that
  \<open>%f\<close> prints.
\<close>

lemma since_printed:
  assumes "timeval_ok start" "timeval_ok now" "usecs start \<le> usecs now"
  shows "show_f (since_initial start now) = show_fixed (millionths (since_initial start now))"
    and "\<bar>int (millionths (since_initial start now)) - 1000 * elapsed start now\<bar> \<le> 400"
proof -
  let ?x = "since_initial start now"
  have pos: "0 \<le> ?x"
    using msec_mono [OF assms] fl_mono [of 0 "msec now - msec start"] is_double_int [of 0]
    by (simp add: since_initial_def d_sub_def)
  then show "show_f ?x = show_fixed (millionths ?x)" by (simp add: show_f_def)
  have e: "\<bar>?x - of_int (elapsed start now) / 1000\<bar> \<le> 2 / 5000"
    unfolding since_initial_def by (rule elapsed_error [OF assms(1,2)])
  have "\<bar>of_nat (millionths ?x) - 1000000 * ?x\<bar> \<le> 1 / 2"
    using millionths_error [of ?x] pos by simp
  moreover have "\<bar>1000000 * ?x - 1000 * of_int (elapsed start now)\<bar> \<le> 400"
    using e unfolding abs_le_iff by linarith
  ultimately have "\<bar>of_int (int (millionths ?x) - 1000 * elapsed start now)\<bar> \<le> (801 / 2 :: rat)"
    unfolding abs_le_iff by simp
  then have "of_int \<bar>int (millionths ?x) - 1000 * elapsed start now\<bar> < (of_int 401 :: rat)" by simp
  then have "\<bar>int (millionths ?x) - 1000 * elapsed start now\<bar> < 401" by (simp only: of_int_less_iff)
  then show "\<bar>int (millionths ?x) - 1000 * elapsed start now\<bar> \<le> 400" by simp
qed

lemma actual_proc_time_since: "timeval_ok start \<Longrightarrow> actual_proc_time start now = since_initial start now"
  by (simp add: actual_proc_time_def since_initial_def msec_eq(2))

end
