(* ===== verification/Mp2_App.thy ===== *)
theory Mp2_App
  imports Mp2_Safety Mp2_Job
begin

text \<open>
  The user program \<open>MP2/userapp.c\<close> with the commands of \<open>MP2/userapp.h\<close>: the shell commands by which a
  process registers, yields and deregisters, and \<open>main\<close> with everything it prints and runs. What the
  module's parser reads from those commands is proved here.
\<close>

section \<open>Commands\<close>

definition MP2_PATH :: string where
  "MP2_PATH = ''/proc/mp2/status''"

definition shell_echo :: "string \<Rightarrow> string" where
  "shell_echo line = ''echo '' @ [CHR 0x22] @ line @ [CHR 0x22] @ '' > '' @ MP2_PATH"

definition register_line :: "u32 \<Rightarrow> u32 \<Rightarrow> u32 \<Rightarrow> string" where
  "register_line p per proc = ''R, '' @ show_u p @ '', '' @ show_u per @ '', '' @ show_u proc"

definition yield_line :: "u32 \<Rightarrow> string" where
  "yield_line p = ''Y, '' @ show_u p"

definition deregister_line :: "u32 \<Rightarrow> string" where
  "deregister_line p = ''D, '' @ show_u p"

text \<open>The string that \<open>sprintf\<close> leaves in the 100 bytes of \<open>command\<close>, handed to \<open>system\<close>.\<close>

definition register_process :: "u32 \<Rightarrow> u32 \<Rightarrow> u32 \<Rightarrow> string" where
  "register_process p per proc = shell_echo (register_line p per proc)"

definition yield_process :: "u32 \<Rightarrow> string" where
  "yield_process p = shell_echo (yield_line p)"

definition deregister_process :: "u32 \<Rightarrow> string" where
  "deregister_process p = shell_echo (deregister_line p)"

section \<open>main\<close>

text \<open>What can be seen of the program: its standard output and the shell commands.\<close>

datatype app_event =
    Print string
  | System string

text \<open>\<open>BUFFERLEN - 1\<close> bytes of the status file at most are read and printed as a C string.\<close>

definition BUFFERLEN :: nat where
  "BUFFERLEN = 5000"

definition show_status :: "string \<Rightarrow> app_event list" where
  "show_status content =
     [Print (''show registed pids'' @ [newline]),
      Print (cstr (take (BUFFERLEN - 1) content @ [NUL]) @ [newline])]"

text \<open>The loop over the periods; the number of the next reading of the clock is threaded.\<close>

fun period_loop ::
    "nat \<Rightarrow> (nat \<Rightarrow> timeval) \<Rightarrow> timeval \<Rightarrow> u32 \<Rightarrow> u32 \<Rightarrow> u32 \<Rightarrow> nat \<Rightarrow> nat \<Rightarrow> (app_event list \<times> nat) option" where
  "period_loop fuel clock t0 me per proc 0 n = Some ([], n)"
| "period_loop fuel clock t0 me per proc (Suc left) n =
     (case do_job fuel clock (Suc n) of
        None \<Rightarrow> None
      | Some n' \<Rightarrow>
          map_option (\<lambda>(es, n'').
              ([Print (print_result t0 (clock n) (clock n') me per proc), System (yield_process me)] @ es, n''))
            (period_loop fuel clock t0 me per proc left (Suc n')))"

definition usage_text :: "string \<Rightarrow> app_event list" where
  "usage_text name =
     [Print (''Invalid arguments. '' @ [newline] @ '' usage: '' @ name @
        '' <period> <proc_time> <num_of_period>'' @ [newline]),
      Print ('' The processing time for this application, aka, arg[2] is 100ms'' @ [newline])]"

definition columns_text :: string where
  "columns_text = ''pid'' @ [tab] @ ''period'' @ [tab] @ ''proc_t'' @ [tab] @ ''actu_proc_t'' @ [tab] @
     ''start_time'' @ [tab] @ ''end_time'' @ [newline]"

text \<open>
  \<open>argv\<close> includes the program's name, \<open>me\<close> is what \<open>getpid\<close> returns, \<open>status\<close> the content of the
  status file or \<open>None\<close> when \<open>fopen\<close> fails. A failed \<open>fopen\<close> is reported and its null pointer is then
  read from. The result is what was printed and run, with the exit code or the fault;
  \<open>fuel\<close> bounds the rounds of each busy loop.
\<close>

definition userapp_main ::
    "nat \<Rightarrow> string list \<Rightarrow> u32 \<Rightarrow> string option \<Rightarrow> (nat \<Rightarrow> timeval) \<Rightarrow> (app_event list \<times> int result) option" where
  "userapp_main fuel argv me status clock =
     (if length argv \<noteq> 4 then
        Some (usage_text (case argv of [] \<Rightarrow> ''(null)'' | name # _ \<Rightarrow> name), Inr 1)
      else
        let num_of_period = atoi (argv ! 3); per = atoi (argv ! 1); proc = atoi (argv ! 2);
            start = [Print (''period: '' @ show_d per @ '', computation time: '' @ show_d proc @
                       '', number of period: '' @ show_d num_of_period @ [newline]),
                     System (register_process me per proc)] in
        case status of
          None \<Rightarrow> Some (start @ [Print (''Fail to open '' @ MP2_PATH)], Inl NullDeref)
        | Some content \<Rightarrow>
            map_option (\<lambda>(es, n).
                (start @ show_status content @ [System (yield_process me), Print columns_text] @ es @
                   [System (deregister_process me)], Inr 0))
              (period_loop fuel clock (clock 0) me per proc (nat (sint num_of_period)) 1))"

text \<open>The commands among the events.\<close>

fun commands :: "app_event list \<Rightarrow> string list" where
  "commands [] = []"
| "commands (Print _ # es) = commands es"
| "commands (System c # es) = c # commands es"

lemma commands_append [simp]: "commands (xs @ ys) = commands xs @ commands ys"
  by (induction xs rule: commands.induct) auto

lemma period_loop_commands:
  "period_loop fuel clock t0 me per proc left n = Some (es, n') \<Longrightarrow>
   commands es = replicate left (yield_process me) \<and> length es = 2 * left"
  by (induction left arbitrary: n es) (auto split: option.splits)

section \<open>What the module reads from the commands\<close>

lemma scan_u_ucast:
  "scan_u (CHR '' '' # show_u (w :: u32)) = Some (ucast w :: u64)"
  "scan_u (CHR '' '' # show_u (w :: u32) @ newline # r) = Some (ucast w :: u64)"
proof -
  have "scan_u ('' '' @ show_dec (unat w) @ []) = Some (of_nat (unat w) :: u64)"
    by (rule scan_u_show_dec) (simp_all add: is_space_def)
  then show "scan_u (CHR '' '' # show_u w) = Some (ucast w :: u64)"
    by (simp add: show_u_def unsigned_of_nat)
  have "scan_u ('' '' @ show_dec (unat w) @ newline # r) = Some (of_nat (unat w) :: u64)"
    by (rule scan_u_show_dec) (simp_all add: is_space_def is_digit_def newline_def)
  then show "scan_u (CHR '' '' # show_u w @ newline # r) = Some (ucast w :: u64)"
    by (simp add: show_u_def unsigned_of_nat)
qed

lemma digits_no_comma: "CHR '','' \<notin> set (show_u (w :: u32))"
  by (rule u32_codec.print_no_char) (simp add: is_digit_def)

lemma strsep_field:
  "strsep (CHR '','') (Some (CHR '' '' # show_u (w :: u32) @ CHR '','' # r)) =
     (Some (CHR '' '' # show_u w), Some r)"
  using strsep_token [of "CHR '',''" "CHR '' '' # show_u w" r] digits_no_comma [of w] by simp

lemma strsep_head:
  "c \<noteq> CHR '','' \<Longrightarrow> strsep (CHR '','') (Some (c # CHR '','' # r)) = (Some [c], Some r)"
  by simp

lemma strsep_last_field:
  "\<exists>t rest. strsep (CHR '','') (Some (CHR '' '' # show_u (w :: u32) @ newline # r)) = (Some t, rest) \<and>
     scan_u t = Some (ucast w :: u64) \<and> scan_u t = Some w"
proof -
  obtain r' where r': "takeWhile (\<lambda>c. c \<noteq> CHR '','') ((CHR '' '' # show_u w) @ newline # r) =
      (CHR '' '' # show_u w) @ newline # r'"
    using last_field [of "CHR '',''" "CHR '' '' # show_u w" r] digits_no_comma [of w] by (auto simp: newline_def)
  show ?thesis
    using r' scan_u_ucast(2) [of w r'] u32_codec.scan_print_field_line [of w r'] by simp
qed

lemma parse_register_line:
  "parse_command k (register_line p per proc @ [newline]) = Inr (Register p (ucast per) (ucast proc))"
proof -
  let ?s = "register_line p per proc"
  have "NUL \<notin> set ?s"
    using digits_no_NUL by (simp add: register_line_def) (simp add: NUL_def)
  then have c: "cstr ((?s @ [newline]) @ beyond k) = CHR ''R'' # CHR '','' # CHR '' '' # show_u p @ CHR '','' #
      CHR '' '' # show_u per @ CHR '','' # CHR '' '' # show_u proc @ newline # cstr (beyond k)"
    by (subst line_cstr) (simp_all add: register_line_def)
  obtain t rest where last: "strsep (CHR '','') (Some (CHR '' '' # show_u proc @ newline # cstr (beyond k))) =
      (Some t, rest)" "scan_u t = Some (ucast proc :: u64)"
    using strsep_last_field by blast
  have hd: "\<exists>cs. ?s @ [newline] = CHR ''R'' # cs" by (simp add: register_line_def)
  then obtain cs where cs: "?s @ [newline] = CHR ''R'' # cs" by blast
  have c': "cstr (CHR ''R'' # cs @ beyond k) = CHR ''R'' # CHR '','' # CHR '' '' # show_u p @ CHR '','' #
      CHR '' '' # show_u per @ CHR '','' # CHR '' '' # show_u proc @ newline # cstr (beyond k)"
    using c unfolding cs by simp
  show ?thesis
    unfolding parse_command_def cs list.case
    by (simp del: strsep.simps add: c' strsep_head strsep_field last
        scan_local_Some [OF u32_codec.scan_print_field] scan_local_Some [OF scan_u_ucast(1)]
        scan_local_Some)
qed

lemma parse_pid_line:
  assumes "c = CHR ''Y'' \<or> c = CHR ''D''"
  shows "parse_command k ((c # '', '' @ show_u p) @ [newline]) =
    Inr (if c = CHR ''Y'' then Yield p else Deregister p)"
proof -
  let ?s = "c # '', '' @ show_u p"
  have "NUL \<notin> set ?s"
    using digits_no_NUL assms by auto (simp_all add: NUL_def)
  then have c: "cstr ((?s @ [newline]) @ beyond k) = c # CHR '','' # CHR '' '' # show_u p @ newline # cstr (beyond k)"
    by (subst line_cstr) simp_all
  obtain t rest where last: "strsep (CHR '','') (Some (CHR '' '' # show_u p @ newline # cstr (beyond k))) =
      (Some t, rest)" "scan_u t = Some p"
    using strsep_last_field by blast
  have "c \<noteq> CHR '',''" using assms by auto
  then show ?thesis
    using assms c last unfolding parse_command_def
    by (auto simp del: strsep.simps simp: strsep_head scan_local_Some)
qed

lemma parse_yield_line: "parse_command k (yield_line p @ [newline]) = Inr (Yield p)"
  using parse_pid_line [of "CHR ''Y''" k p] by (simp add: yield_line_def)

lemma parse_deregister_line: "parse_command k (deregister_line p @ [newline]) = Inr (Deregister p)"
  using parse_pid_line [of "CHR ''D''" k p] by (simp add: deregister_line_def)

lemmas parse_lines = parse_register_line parse_yield_line parse_deregister_line

end
