(* ===== verification/Mp2_Props.thy ===== *)
theory Mp2_Props
  imports Complex_Main Mp2_App
begin

unbundle bit_operations_syntax

text \<open>
  The properties of the scheduler module and of its user program, each with a witness on a
  concrete state where it has hypotheses. The example states are the ends of schedules of the
  loaded module, evaluated by the simplifier.
\<close>

section \<open>Example kernel and states\<close>

text \<open>A kernel in which pid \<open>p\<close> has its process at address \<open>p\<close> and one jiffy is one millisecond.\<close>

definition example_kernel :: "addr \<Rightarrow> u64 \<Rightarrow> mp2_kernel" where
  "example_kernel a now = \<lparr>pid_task = (\<lambda>p. Some (unat p)), msecs_to_jiffies = ucast, jiffies = now,
     slab_object = Some a, beyond = [], junk_pid = 0, junk_period = 0, junk_proc_time = 0\<rparr>"

definition loaded :: mp2_state where
  "loaded = mp2_init mp2_static"

text \<open>Task 1 of period 100 registers, yields, becomes READY and runs.\<close>

definition start_first :: "mp2_action list" where
  "start_first = [Write (example_kernel 1 1000) (register_line 1 100 10 @ [newline]),
     Write (example_kernel 2 1000) (yield_line 1 @ [newline]), Fire 1, Dispatch]"

definition first_running :: mp2_state where
  "first_running = the (run_schedule start_first loaded)"

text \<open>Task 2 of period 50 registers while task 1 runs.\<close>

definition second_registered :: mp2_state where
  "second_registered = the (run_schedule
     (start_first @ [Write (example_kernel 2 1000) (register_line 2 50 10 @ [newline])]) loaded)"

text \<open>Both tasks have yielded once, task 1 runs, and the timer of task 2 has fired.\<close>

definition start_both :: "mp2_action list" where
  "start_both = [Write (example_kernel 1 1000) (register_line 1 100 10 @ [newline]),
     Write (example_kernel 2 1000) (yield_line 1 @ [newline]),
     Write (example_kernel 2 1000) (register_line 2 50 10 @ [newline]),
     Write (example_kernel 3 1000) (yield_line 2 @ [newline]), Fire 1, Dispatch, Fire 2]"

definition second_ready :: mp2_state where
  "second_ready = the (run_schedule start_both loaded)"

lemmas eval_data = loaded_def start_both_def second_ready_def start_first_def first_running_def second_registered_def
  example_kernel_def mp2_static_def mp2_init_def Task_init_def SHIFT_BITS_def MAX_UTIL_def

lemmas eval_scheduler = lock_defs access_defs find_task_by_pid_def new_task_def task_util_def
  Task_register_def register_check_def register_admit_def insert_defs Task_yeild_def
  yeild_task_at_def next_deadline_def Task_deregister_def deregister_task_at_def drop_current_def
  Task_get_highest_def

lemmas eval_main = mp2_write_def run_command_def parse_lines mp2_timer_callback_def fire_timer_def
  dispatch_body_def dispatch_switch_def ct_above_def preempt_def run_task_def returned_def
  fresh_object_def timer_pending_def task_at_def

lemmas eval = eval_data eval_scheduler eval_main

lemma loaded_unlocked: "unlocked loaded"
  using mp2_start_inv [of loaded]
  by (simp add: unlocked_def mp2_start_def loaded_def mp2_init_def mp2_static_def Task_init_def)

lemma schedule_unlocked:
  "run_schedule xs loaded = Some t \<Longrightarrow> \<not> tl_lock t \<Longrightarrow> unlocked t"
  using mp2.reachable_inv [OF run_schedule_reach [OF loaded_reach, of xs t]]
  by (simp add: unlocked_def loaded_def)

lemma first_running_unlocked: "unlocked first_running"
  by (rule schedule_unlocked [of start_first]) (simp_all add: eval)

lemma second_registered_unlocked: "unlocked second_registered"
  by (rule schedule_unlocked
        [of "start_first @ [Write (example_kernel 2 1000) (register_line 2 50 10 @ [newline])]"])
    (simp_all add: eval)

lemma second_ready_unlocked: "unlocked second_ready"
  by (rule schedule_unlocked [of start_both]) (simp_all add: eval)

section \<open>The invariant\<close>

text \<open>
  C1: The invariant of the loaded module when its handlers run one after the other, each write, read, timer and round of the
  dispatching thread to its end before the next begins. In every state it reaches so, whatever is written to its status file
  and in whatever order timers fire and the thread runs, the pids are distinct, the slab objects
  in use are exactly those of the list, the current task is one of them, every task has a
  non-zero period and one of the three states, and the admitted utility is the sum of the
  utilities of the list and below the limit. Where handlers overlap this is not so: two registrations
  at once can list a pid twice or pass the limit together, and can lose one of their updates of the utility.
\<close>

theorem mp2_reachable_invariant:
  assumes "reach mp2_start mp2_step s"
  shows "distinct (pids s) \<and> distinct (task_list s) \<and> dom (slab s) = set (task_list s) \<and>
    (\<forall>a. ct s = Some a \<longrightarrow> a \<in> set (task_list s)) \<and>
    (\<forall>t\<in>set (tasks s). period t \<noteq> 0 \<and> state t \<in> {SLEEPING, READY, RUNNING}) \<and>
    unat (total_util s) = sum_list (map (\<lambda>t. unat (task_util (proc_time t) (period t))) (tasks s)) \<and>
    unat (total_util s) < 726663"
proof -
  have "mp2_inv s" using assms by (rule mp2.reachable_inv)
  moreover have "map util_of (tasks s) = map (\<lambda>t. unat (task_util (proc_time t) (period t))) (tasks s)"
    by (simp add: util_of_def)
  ultimately show ?thesis
    by (simp add: inv_defs task_ok_def util_sum_def unat_MAX_UTIL)
qed

theorem mp2_reachable_invariant_witness:
  "pids first_running = [1] \<and> ct first_running = Some 1 \<and> unat (total_util first_running) < 726663"
proof -
  have "run_schedule start_first (mp2_init mp2_static) = Some first_running"
    by (simp add: eval)
  then have "reach mp2_start mp2_step first_running"
    by (rule run_schedule_reach [OF loaded_reach])
  from mp2_reachable_invariant [OF this] show ?thesis
    by (simp add: eval view_defs)
qed

text \<open>
  C2: When the handlers run one after the other, each to its end, none of them ever reads a slab object that is not in use, in
  any state reached so: neither a write with any bytes, nor a read, nor a firing timer, nor any number of
  rounds of the dispatching thread, nor unloading. The restriction is needed: a yield, a deregistration, the dispatching thread and the timers'
  callback keep pointers across unlocks, and read freed objects when a deregistration comes in between.
\<close>

theorem mp2_no_use_after_free:
  assumes "reach mp2_start mp2_step s" and "fresh_object k s"
  shows "mp2_write k data s \<noteq> Inl UseAfterFree \<and> mp2_read n s \<noteq> Inl UseAfterFree \<and>
    dispaching_thread_function m s \<noteq> Inl UseAfterFree \<and> mp2_exit s \<noteq> Inl UseAfterFree \<and>
    \<not> (timer_pending a s \<and> fire_timer a s = Inl UseAfterFree)"
proof -
  have inv: "mp2_inv s" using assms(1) by (rule mp2.reachable_inv)
  have "mp2_exit s \<noteq> Inl UseAfterFree"
  proof
    assume "mp2_exit s = Inl UseAfterFree"
    then obtain t where t: "dispaching_thread_function 1 s = Inr t"
      "Task_destroy (t\<lparr>dispatcher := False\<rparr>) = Inl UseAfterFree"
      using thread_ends [OF inv, of 1]
      by (auto simp: mp2_exit_def result_simps simp del: dispaching_thread_function.simps)
    have "mp2_inv (t\<lparr>dispatcher := False\<rparr>)"
      using thread_ends [OF inv, of 1] t(1) by (simp add: mp2_inv_def)
    with t(2) show False
      by (cases "tl_lock t") (simp_all add: Task_destroy_eq mp2_list_ok)
  qed
  then show ?thesis
    using mp2_write_ends [OF inv assms(2), of data] mp2_read_ends [OF inv, of n]
      thread_ends [OF inv, of m] fire_timer_ends [OF inv, of a]
    by (auto simp: ends_def timer_pending_def simp del: dispaching_thread_function.simps)
qed

theorem mp2_no_use_after_free_witness:
  "fresh_object (example_kernel 2 1000) first_running \<and>
   mp2_write (example_kernel 2 1000) (deregister_line 1 @ [newline]) first_running \<noteq> Inl UseAfterFree"
proof -
  have r: "reach mp2_start mp2_step first_running"
    by (rule run_schedule_reach [OF loaded_reach, of start_first]) (simp add: eval)
  have f: "fresh_object (example_kernel 2 1000) first_running"
    by (simp add: eval)
  show ?thesis using f mp2_no_use_after_free [OF r f] by blast
qed

section \<open>Admission control\<close>

text \<open>
  C5: Admission control is exact for processing times below \<open>2 ^ 44\<close>: a new pid with a non-zero
  period is registered if and only if the utility of the list plus the floor of
  \<open>proc_time * 2 ^ 20 / period\<close>, as natural numbers, is below the limit; neither the shift nor
  the sum wraps.
\<close>

theorem admission_exact:
  assumes "unlocked s" "p \<notin> set (pids s)" "per \<noteq> 0" "unat proc < 2 ^ 44"
  shows "(\<exists>t. Task_register k (Some a) p per proc s = Inr (0, t)) \<longleftrightarrow>
    util_sum s + unat proc * 2 ^ 20 div unat per < 726663"
proof -
  have u: "unat (total_util s) = util_sum s" "util_sum s < 726663"
    using unlockedD(1) [OF assms(1)] by (simp_all add: inv_defs unat_MAX_UTIL)
  then have "unat (total_util s + task_util proc per) =
      util_sum s + unat proc * 2 ^ 20 div unat per"
    using admission_sum_exact [of "total_util s" proc per] unat_task_util_small [OF assms(4), of per]
    by simp
  then have "MAX_UTIL \<le> total_util s + task_util proc per \<longleftrightarrow>
      726663 \<le> util_sum s + unat proc * 2 ^ 20 div unat per"
    by (simp add: word_le_nat_alt unat_MAX_UTIL)
  then show ?thesis
    using assms(2,3) unlockedD [OF assms(1)] by (auto simp: Task_register_eq)
qed

theorem admission_exact_witness:
  "(\<exists>t. Task_register (\<lambda>p. Some 2) (Some 2) 2 50 10 first_running = Inr (0, t)) \<and>
   \<not> (\<exists>t. Task_register (\<lambda>p. Some 2) (Some 2) 2 50 40 first_running = Inr (0, t))"
proof -
  have h: "2 \<notin> set (pids first_running)" "util_sum first_running = 104857"
    by (simp_all add: eval view_defs util_of_def)
  show ?thesis
    using admission_exact [OF first_running_unlocked h(1), of 50 10 "\<lambda>p. Some 2" 2]
      admission_exact [OF first_running_unlocked h(1), of 50 40 "\<lambda>p. Some 2" 2] h(2)
    by simp
qed

lemma real_div_bound: "real a / real b \<le> real (a div b) + 1"
  using real_of_int_floor_add_one_ge [of "real a / real b"] by (simp add: floor_divide_of_nat_eq)

lemma real_util_bound:
  assumes "\<forall>t\<in>set ts. unat (proc_time t) < 2 ^ 44"
  shows "(\<Sum>t\<leftarrow>ts. real (unat (proc_time t)) * 2 ^ 20 / real (unat (period t))) \<le>
    real (\<Sum>t\<leftarrow>ts. util_of t) + real (length ts)"
  using assms
proof (induction ts)
  case (Cons t ts)
  have "util_of t = unat (proc_time t) * 2 ^ 20 div unat (period t)"
    using Cons.prems by (simp add: util_of_def unat_task_util_small)
  then have "real (unat (proc_time t)) * 2 ^ 20 / real (unat (period t)) \<le> real (util_of t) + 1"
    using real_div_bound [of "unat (proc_time t) * 2 ^ 20" "unat (period t)"] by simp
  with Cons show ?case by simp
qed simp

text \<open>
  The real utilisation of every reachable task set whose processing times are below
  \<open>2 ^ 44\<close> stays below the limit \<open>726663 / 2 ^ 20\<close> (about 0.693) up to the rounding of one unit
  of \<open>1 / 2 ^ 20\<close> per task.
\<close>

theorem utilisation_bound:
  assumes "reach mp2_start mp2_step s" "\<forall>t\<in>set (tasks s). unat (proc_time t) < 2 ^ 44"
  shows "(\<Sum>t\<leftarrow>tasks s. real (unat (proc_time t)) / real (unat (period t))) <
    (726663 + real (length (tasks s))) / 2 ^ 20"
proof -
  have "util_sum s < 726663"
    using mp2.reachable_inv [OF assms(1)] by (simp add: inv_defs unat_MAX_UTIL)
  then have "(\<Sum>t\<leftarrow>tasks s. real (unat (proc_time t)) * 2 ^ 20 / real (unat (period t))) <
      726663 + real (length (tasks s))"
    using real_util_bound [OF assms(2)] unfolding util_sum_def by linarith
  moreover have "(\<Sum>t\<leftarrow>tasks s. real (unat (proc_time t)) * 2 ^ 20 / real (unat (period t))) =
      (\<Sum>t\<leftarrow>tasks s. real (unat (proc_time t)) / real (unat (period t))) * 2 ^ 20"
    by (subst sum_list_mult_const [symmetric]) (simp add: mult.commute)
  ultimately show ?thesis by (simp add: field_simps)
qed

theorem utilisation_bound_witness:
  "(\<Sum>t\<leftarrow>tasks first_running. real (unat (proc_time t)) / real (unat (period t))) <
    (726663 + real (length (tasks first_running))) / 2 ^ 20 \<and> length (tasks first_running) = 1"
proof -
  have r: "reach mp2_start mp2_step first_running"
    by (rule run_schedule_reach [OF loaded_reach, of start_first]) (simp add: eval)
  have h: "\<forall>t\<in>set (tasks first_running). unat (proc_time t) < 2 ^ 44"
    by (simp add: eval view_defs)
  show ?thesis using utilisation_bound [OF r h] by (simp add: eval view_defs)
qed

text \<open>
  The limit is not enforced for processing times of \<open>2 ^ 44\<close> and more: the shift drops
  their high bits, so a task that asks for \<open>2 ^ 44\<close> times its period is admitted at no cost.
\<close>

theorem admission_shift_wraps:
  "\<exists>t u. Task_register (\<lambda>p. Some 2) (Some 2) 2 1 (2 ^ 44) loaded = Inr (0, t) \<and>
     unat (total_util t) = 0 \<and> tasks t = [u] \<and> unat (proc_time u) = 2 ^ 44 * unat (period u)"
  by (simp add: eval view_defs)

section \<open>Dispatching\<close>

text \<open>
  C6: Rate-monotonic choice: after the body of the dispatching thread, if any task was READY,
  there is a current task, and no READY task has a shorter period than it.
\<close>

theorem dispatch_rate_monotonic:
  assumes "unlocked s" "dispatch_body s = Inr t" "\<exists>b\<in>set (task_list s). is_ready (slab s) b"
  shows "\<exists>c. ct t = Some c \<and> c \<in> set (task_list t) \<and>
    (\<forall>a\<in>set (task_list t). is_ready (slab t) a \<longrightarrow> period_at (slab t) c \<le> period_at (slab t) a)"
proof -
  have ok: "list_ok s \<and> \<not> tl_lock s" using unlockedD [OF assms(1)] by simp
  obtain h where h: "Task_get_highest s = Inr (Some h, s)"
    using assms(3) rm.select_returns [OF ok] rm.select_none [OF ok] by (metis not_None_eq)
  have sw: "dispatch_switch (Some h) s = Inr t"
    using assms(2) h by (simp add: dispatch_body_def)
  note t = dispatch_switch_Some [OF sw]
  let ?c = "case ct s of None \<Rightarrow> h | Some d \<Rightarrow> if period_at (slab s) h < period_at (slab s) d then h else d"
  have c: "ct t = Some ?c" using t(1) by (simp split: option.splits)
  have mem: "?c \<in> set (task_list t)"
    using t(2) rm.select_some [OF ok h] unlockedD(1) [OF assms(1)]
    by (auto simp: inv_defs split: option.splits)
  have "period_at (slab s) ?c \<le> period_at (slab s) a"
    if "a \<in> set (task_list s)" "is_ready (slab t) a" for a
    using rm.keep_or_switch_least [OF ok h refl that(1), of "ct s"] t(4) [OF that(2)] by fastforce
  then show ?thesis using c mem t(2,3) by auto
qed

theorem dispatch_rate_monotonic_witness:
  "\<exists>t c. dispatch_body second_ready = Inr t \<and> ct second_ready = Some 1 \<and> ct t = Some c \<and>
     (\<forall>a\<in>set (task_list t). is_ready (slab t) a \<longrightarrow> period_at (slab t) c \<le> period_at (slab t) a)"
proof -
  have r: "\<exists>b\<in>set (task_list second_ready). is_ready (slab second_ready) b"
    by (simp add: eval is_ready_def)
  have "\<exists>t. dispatch_body second_ready = Inr t"
    by (simp add: eval)
  then obtain t where t: "dispatch_body second_ready = Inr t" by blast
  have c: "ct second_ready = Some 1" by (simp add: eval)
  show ?thesis using t c dispatch_rate_monotonic [OF second_ready_unlocked t r] by blast
qed

text \<open>
  What a preemption does. When the first READY task of the least period has a shorter period
  than the current task, the thread marks the current task READY and puts its process back to
  normal scheduling, then wakes the chosen one, marks it RUNNING, gives it FIFO priority 99 and
  makes it current, in that order; nothing else changes.
\<close>

theorem dispatch_preempts:
  assumes "unlocked s" "first_least (slab s) (task_list s) h" "ct s = Some c"
    "period_at (slab s) h < period_at (slab s) c"
    "linux_task (task_at s h) = Some kh" "linux_task (task_at s c) = Some kc"
  shows "dispatch_body s =
    Inr (s\<lparr>slab := (slab s)(c \<mapsto> (task_at s c)\<lparr>state := READY\<rparr>, h \<mapsto> (task_at s h)\<lparr>state := RUNNING\<rparr>),
      calls := calls s @ [Sched_setscheduler kc SCHED_NORMAL 0, Wake_up_process kh,
        Sched_setscheduler kh SCHED_FIFO 99], ct := Some h\<rparr>)"
proof -
  have ok: "list_ok s" "\<not> tl_lock s" "\<not> ct_lock s" using unlockedD [OF assms(1)] by simp_all
  have "h \<in> set (task_list s)" "c \<in> set (task_list s)"
    using first_least_member [OF assms(2)] assms(3) unlockedD(1) [OF assms(1)] by (auto simp: inv_defs)
  then have at: "slab s h = Some (task_at s h)" "slab s c = Some (task_at s c)"
    using inv_at [OF ok(1)] by blast+
  obtain h' where h': "Task_get_highest s = Inr (h', s)"
    using rm.select_returns [of s] ok by blast
  have "h' = Some h"
  proof (cases h')
    case None
    then show ?thesis
      using Task_get_highest_None [OF ok(1,2)] h' first_least_member [OF assms(2)] by blast
  next
    case (Some r)
    then show ?thesis
      using Task_get_highest_Some [OF ok(1,2)] h' first_least_unique [OF assms(2)] by blast
  qed
  then show ?thesis
    using h' dispatch_replace [OF ok(3) at(1) assms(3) at(2)] assms(4-6)
    by (simp add: dispatch_body_def period_at_def task_at_def)
qed

theorem dispatch_preempts_witness:
  "\<exists>t. dispatch_body second_ready = Inr t \<and> ct t = Some 2 \<and> state (task_at t 1) = READY \<and>
     state (task_at t 2) = RUNNING"
proof -
  have f: "first_least (slab second_ready) (task_list second_ready) 2"
    unfolding first_least_def by (rule exI [of _ "[1]"]) (simp add: eval is_ready_def)
  have c: "ct second_ready = Some 1" and p: "period_at (slab second_ready) 2 < period_at (slab second_ready) 1"
    and k: "linux_task (task_at second_ready 2) = Some 2" "linux_task (task_at second_ready 1) = Some 1"
    by (simp_all add: eval period_at_def)
  show ?thesis
    using dispatch_preempts [OF second_ready_unlocked f c p k] by (simp add: task_at_def)
qed

text \<open>
  When no task is READY the thread demotes the current task to READY and normal scheduling
  but leaves it current; a second round then selects this very task and does nothing, because
  it compares the task with itself. The demoted task gets no real-time priority back from the
  dispatching thread while it stays current and alone.
\<close>

theorem dispatch_idle_stalls:
  assumes "unlocked s" "\<forall>a\<in>set (task_list s). \<not> is_ready (slab s) a" "ct s = Some c"
    "linux_task (task_at s c) = Some k"
  shows "\<exists>t. dispatch_body s = Inr t \<and> ct t = Some c \<and> state (task_at t c) = READY \<and>
    calls t = calls s @ [Sched_setscheduler k SCHED_NORMAL 0] \<and> dispatch_body t = Inr t"
proof -
  have ok: "list_ok s" "\<not> tl_lock s" "\<not> ct_lock s" using unlockedD [OF assms(1)] by simp_all
  have mem: "c \<in> set (task_list s)"
    using assms(3) unlockedD(1) [OF assms(1)] by (simp add: inv_defs)
  have at: "slab s c = Some (task_at s c)" using inv_at [OF ok(1) mem] .
  let ?t = "s\<lparr>slab := (slab s)(c \<mapsto> (task_at s c)\<lparr>state := READY\<rparr>),
      calls := calls s @ [Sched_setscheduler k SCHED_NORMAL 0]\<rparr>"
  have "Task_get_highest s = Inr (None, s)"
    using rm.select_iff_candidate [of s] ok assms(2) by blast
  then have 1: "dispatch_body s = Inr ?t"
    using dispatch_idle [OF ok(3) assms(3) at assms(4)] by (simp add: dispatch_body_def)
  have inv: "mp2_inv ?t" using dispatch_body_ends [OF unlockedD(1) [OF assms(1)]] 1 by simp
  then have ok': "list_ok ?t \<and> \<not> tl_lock ?t" using ok by (simp add: mp2_list_ok)
  obtain h where h: "Task_get_highest ?t = Inr (h, ?t)"
    using rm.select_returns [OF ok'] by blast
  have ready: "is_ready (slab ?t) a \<longleftrightarrow> a = c" if "a \<in> set (task_list s)" for a
    using that assms(2) by (auto simp: is_ready_def)
  then have "h = Some c"
    using rm.select_none [OF ok'] rm.select_some [OF ok'] h mem by (cases h) auto
  then have "dispatch_body ?t = Inr ?t"
    using h dispatch_keep [of ?t c "(task_at s c)\<lparr>state := READY\<rparr>" c "(task_at s c)\<lparr>state := READY\<rparr>"]
      ok(3) assms(3) by (simp add: dispatch_body_def)
  with 1 show ?thesis using assms(3) by (intro exI [of _ ?t]) (simp add: task_at_def)
qed

theorem dispatch_idle_stalls_witness:
  "\<exists>t. dispatch_body first_running = Inr t \<and> ct t = Some 1 \<and> state (task_at t 1) = READY \<and>
     dispatch_body t = Inr t"
proof -
  have h: "\<forall>a\<in>set (task_list first_running). \<not> is_ready (slab first_running) a"
    "ct first_running = Some 1" "linux_task (task_at first_running 1) = Some 1"
    by (simp_all add: eval is_ready_def)
  show ?thesis using dispatch_idle_stalls [OF first_running_unlocked h] by blast
qed

section \<open>Locks that are not released\<close>

lemma locked_exit: "tl_lock s \<Longrightarrow> mp2_exit s = Inl Deadlock"
  by (simp add: mp2_exit_def dispatch_body_def)

lemma locked_write: "tl_lock s \<Longrightarrow> mp2_write k (deregister_line q @ [newline]) s = Inl Deadlock"
  by (simp add: mp2_write_def parse_lines run_command_def)

text \<open>
  Registering a pid that is already there returns -1 and leaves the tasks alone, but it
  also leaves \<open>tl_lock\<close> held: after it no registration, yield or deregistration of any process
  returns, the dispatching thread does not, and neither does unloading the module.
\<close>

theorem register_duplicate_blocks:
  assumes "unlocked s" "p \<in> set (pids s)"
  shows "\<exists>t. Task_register k new p per proc s = Inr (-1, t) \<and> tasks t = tasks s \<and>
    Task_register k' new' p' per' proc' t = Inl Deadlock \<and> Task_yeild m2j j p' t = Inl Deadlock \<and>
    Task_deregister p' t = Inl Deadlock \<and> dispatch_body t = Inl Deadlock \<and> mp2_exit t = Inl Deadlock"
proof -
  let ?t = "s\<lparr>tl_lock := True\<rparr>"
  have "Task_register k new p per proc s = Inr (-1, ?t)"
    using assms(2) unlockedD [OF assms(1)] by (simp add: Task_register_eq)
  then show ?thesis
    by (intro exI [of _ ?t]) (simp add: locked_exit dispatch_body_def view_defs)
qed

theorem register_duplicate_blocks_witness:
  "\<exists>t. Task_register (\<lambda>p. Some 1) (Some 2) 1 100 10 first_running = Inr (-1, t) \<and>
     Task_deregister 1 t = Inl Deadlock"
proof -
  have p: "1 \<in> set (pids first_running)" by (simp add: eval view_defs)
  show ?thesis using register_duplicate_blocks [OF first_running_unlocked p] by blast
qed

text \<open>
  The same happens to a yield that comes after the next deadline: it returns -1 with the
  deadline moved on, the timer not armed and the task's state as it was, and it leaves
  \<open>tl_lock\<close> held, so that nothing that takes the mutex returns any more.
\<close>

theorem yield_missed_blocks:
  assumes "unlocked s" "a \<in> set (task_list s)" "pid (task_at s a) = p"
    "next_ddl (task_at s a) \<noteq> 0" "next_ddl (task_at s a) + m2j (ucast (period (task_at s a))) < j"
  shows "\<exists>t. Task_yeild m2j j p s = Inr (-1, t) \<and>
    next_ddl (task_at t a) = next_ddl (task_at s a) + m2j (ucast (period (task_at s a))) \<and>
    timer (task_at t a) = timer (task_at s a) \<and> state (task_at t a) = state (task_at s a) \<and>
    ct t = ct s \<and> Task_register k' new' p' per' proc' t = Inl Deadlock \<and>
    Task_yeild m2j' j' p' t = Inl Deadlock \<and> Task_deregister p' t = Inl Deadlock \<and>
    dispatch_body t = Inl Deadlock \<and> mp2_exit t = Inl Deadlock"
proof -
  have "addr_of s p = Some a" using assms(2,3) unlockedD(3) [OF assms(1)] by (intro addr_of_member)
  moreover have "missed m2j j (task_at s a)"
    using assms(4,5) by (simp add: missed_def next_deadline_def)
  ultimately show ?thesis
    using unlockedD [OF assms(1)] assms(4)
    by (simp add: Task_yeild_eq Task_register_def register_check_def locked_exit dispatch_body_def lock_defs result_simps)
      (simp add: task_at_def next_deadline_def)
qed

theorem yield_missed_blocks_witness:
  "\<exists>t. Task_yeild ucast 1300 1 first_running = Inr (-1, t) \<and> mp2_exit t = Inl Deadlock"
proof -
  have h: "1 \<in> set (task_list first_running)" "pid (task_at first_running 1) = 1"
    "next_ddl (task_at first_running 1) \<noteq> 0"
    "next_ddl (task_at first_running 1) + (ucast :: u32 \<Rightarrow> u64) (ucast (period (task_at first_running 1))) < 1300"
    by (simp_all add: eval)
  show ?thesis using yield_missed_blocks [where m2j = ucast and j = 1300, OF first_running_unlocked h] by blast
qed

text \<open>
  C37: Two paths that report an error return with \<open>tl_lock\<close> held: the registration of a pid that is already
  there, which leaves the tasks alone, and a yield that comes after its next deadline, which moves the deadline
  on by one period, does not arm the timer and leaves the task's state and the current task as they were. After either of them no registration, yield or
  deregistration of any process returns, the dispatching thread does not, and neither does unloading the module.
\<close>

theorem error_paths_block:
  assumes "unlocked s" "a \<in> set (task_list s)" "pid (task_at s a) = p"
  shows "(\<exists>t. Task_register k new p per proc s = Inr (-1, t) \<and> tasks t = tasks s \<and>
      Task_register k' new' p' per' proc' t = Inl Deadlock \<and> Task_yeild m2j j p' t = Inl Deadlock \<and>
      Task_deregister p' t = Inl Deadlock \<and> dispatch_body t = Inl Deadlock \<and> mp2_exit t = Inl Deadlock) \<and>
    (next_ddl (task_at s a) \<noteq> 0 \<and> next_ddl (task_at s a) + m2j (ucast (period (task_at s a))) < j \<longrightarrow>
     (\<exists>t. Task_yeild m2j j p s = Inr (-1, t) \<and>
      next_ddl (task_at t a) = next_ddl (task_at s a) + m2j (ucast (period (task_at s a))) \<and>
      timer (task_at t a) = timer (task_at s a) \<and> state (task_at t a) = state (task_at s a) \<and>
      ct t = ct s \<and> Task_register k' new' p' per' proc' t = Inl Deadlock \<and>
      Task_yeild m2j' j' p' t = Inl Deadlock \<and> Task_deregister p' t = Inl Deadlock \<and>
      dispatch_body t = Inl Deadlock \<and> mp2_exit t = Inl Deadlock))"
proof -
  have "p \<in> set (pids s)" using assms(2,3) by (auto simp: pids_mem)
  note first = register_duplicate_blocks [OF assms(1) this] and late = yield_missed_blocks [OF assms]
  show ?thesis by (intro conjI impI; (rule first | elim conjE, rule late)) assumption+
qed

theorem error_paths_block_witness:
  "(\<exists>t. Task_register (\<lambda>p. Some 1) (Some 2) 1 100 10 first_running = Inr (-1, t) \<and> Task_deregister 1 t = Inl Deadlock) \<and>
   (\<exists>t. Task_yeild ucast 1300 1 first_running = Inr (-1, t) \<and> mp2_exit t = Inl Deadlock)"
proof -
  have h: "1 \<in> set (task_list first_running)" "pid (task_at first_running 1) = 1"
    and late: "next_ddl (task_at first_running 1) \<noteq> 0 \<and>
      next_ddl (task_at first_running 1) + (ucast :: u32 \<Rightarrow> u64) (ucast (period (task_at first_running 1))) < 1300"
    by (simp_all add: eval)
  show ?thesis
    using error_paths_block [where m2j = ucast and j = 1300, OF first_running_unlocked h] late by blast
qed

section \<open>Registration, yield and deregistration\<close>

text \<open>
  Deregistering a task right after its registration restores the state exactly, the utility
  and the slab included.
\<close>

theorem register_deregister_roundtrip:
  assumes "unlocked s" "slab s a = None" "Task_register k (Some a) p per proc s = Inr (0, t)"
  shows "Task_deregister p t = Inr (0, s)"
proof -
  let ?n = "new_task (k p) p per proc"
  have u: "p \<notin> set (pids s)" "per \<noteq> 0" "\<not> MAX_UTIL \<le> total_util s + task_util proc per"
    "t = registered a ?n s"
    using assms(3) unlockedD [OF assms(1)] by (auto simp: Task_register_eq split: if_splits)
  have t: "unlocked t" using unlocked_registered [OF assms(1,2) u(1-3), of "k p"] u(4) by simp
  have notin: "a \<notin> set (task_list s)" "ct s \<noteq> Some a"
    using assms(2) unlockedD(1) [OF assms(1)] by (auto simp: inv_defs)
  have at: "task_at t a = ?n" by (simp add: u(4) registered_def task_at_def)
  then have "addr_of t p = Some a"
    using unlockedD(3) [OF t] by (intro addr_of_member) (simp_all add: u(4) registered_def new_task_def)
  then have "Task_deregister p t = Inr (0, deregistered a t)"
    using unlockedD [OF t] by (simp add: Task_deregister_eq)
  also have "deregistered a t = s"
    using notin assms(2) at unfolding deregistered_def
    by (cases s) (simp add: u(4) registered_def new_task_def remove1_append fun_upd_idem)
  finally show ?thesis .
qed

theorem register_deregister_roundtrip_witness:
  "Task_deregister 2 second_registered = Inr (0, first_running)"
proof -
  have a: "slab first_running 2 = None"
    and r: "Task_register (\<lambda>p. Some (unat p)) (Some 2) 2 50 10 first_running = Inr (0, second_registered)"
    by (simp_all add: eval)
  show ?thesis using register_deregister_roundtrip [OF first_running_unlocked a r] .
qed

text \<open>
  A session of registrations, each with a fresh slab object, that were all accepted can be
  undone by deregistering the same pids in any order: every deregistration returns 0 and the
  list of pids is the one before, in the same order.
\<close>

theorem registration_session:
  assumes "unlocked s" "promised (\<lambda>q. fresh_object (fst q)) request qs s"
    "call_all request qs s = Inr (0, t)" "distinct ps" "set ps = request_pid ` set qs"
  shows "\<exists>u. call_all Task_deregister ps t = Inr (0, u) \<and> unlocked u \<and> pids u = pids s"
  by (rule mp2_reg.session_balanced [OF assms])

theorem registration_session_witness:
  "\<exists>t u. call_all request [(example_kernel 1 0, 1, 100, 10), (example_kernel 2 0, 2, 50, 10)] loaded = Inr (0, t) \<and>
     pids t = [1, 2] \<and> call_all Task_deregister [1, 2] t = Inr (0, u) \<and> pids u = []"
proof -
  let ?qs = "[(example_kernel 1 0, 1, 100, 10), (example_kernel 2 0, 2, 50, 10)] :: mp2_request list"
  have p: "promised (\<lambda>q. fresh_object (fst q)) request ?qs loaded"
    by (simp add: eval request_def)
  have "\<exists>t. call_all request ?qs loaded = Inr (0, t) \<and> pids t = [1, 2]"
    by (simp add: eval request_def view_defs)
  then obtain t where t: "call_all request ?qs loaded = Inr (0, t)" "pids t = [1, 2]" by blast
  have d: "distinct [1, 2 :: u32]" "set [1, 2] = request_pid ` set ?qs"
    by (simp_all add: request_pid_def)
  have "pids loaded = []" by (simp add: eval view_defs)
  with t registration_session [OF loaded_unlocked p t(1) d] show ?thesis by auto
qed

text \<open>
  A yield in time puts its task to sleep, arms its timer at the new deadline (the previous
  deadline, or now for a first yield, plus the period's low 32 bits in jiffies), clears the
  current task whoever it was and wakes the dispatching thread.
\<close>

theorem yield_in_time:
  assumes "unlocked s" "a \<in> set (task_list s)" "pid (task_at s a) = p" "linux_task (task_at s a) = Some k"
    and ddl: "d = (if next_ddl (task_at s a) = 0 then j else next_ddl (task_at s a)) +
      m2j (ucast (period (task_at s a)))"
    and "next_ddl (task_at s a) = 0 \<or> j \<le> d"
  shows "\<exists>t. Task_yeild m2j j p s = Inr (0, t) \<and> unlocked t \<and> state (task_at t a) = SLEEPING \<and>
    next_ddl (task_at t a) = d \<and> expires (timer (task_at t a)) = Some d \<and> ct t = None \<and> woken t \<and>
    pids t = pids s \<and> (\<forall>b\<in>set (task_list s) - {a}. task_at t b = task_at s b)"
proof -
  have d: "next_deadline m2j j (task_at s a) = d" using ddl by (simp add: next_deadline_def)
  then have "\<not> missed m2j j (task_at s a)" using assms(6) by (auto simp: missed_def)
  note y = yield_yielded [OF assms(1-4) this]
  have "pids (yielded m2j j a k s) = pids s"
    by (simp add: view_defs yielded_def slept_def)
  then show ?thesis
    using y d by (intro exI [of _ "yielded m2j j a k s"]) (simp add: yielded_def slept_def task_at_def)
qed

theorem yield_in_time_witness:
  "\<exists>t. Task_yeild ucast 1090 1 first_running = Inr (0, t) \<and> expires (timer (task_at t 1)) = Some 1200"
proof -
  have h: "1 \<in> set (task_list first_running)" "pid (task_at first_running 1) = 1"
    "linux_task (task_at first_running 1) = Some 1"
    "1200 = (if next_ddl (task_at first_running 1) = 0 then 1090 else next_ddl (task_at first_running 1)) +
       (ucast :: u32 \<Rightarrow> u64) (ucast (period (task_at first_running 1)))"
    "next_ddl (task_at first_running 1) = 0 \<or> 1090 \<le> (1200 :: u64)"
    by (simp_all add: eval)
  show ?thesis using yield_in_time [where m2j = ucast and j = 1090 and d = 1200, OF first_running_unlocked h] by blast
qed

section \<open>Timer callback, status file, unloading\<close>

text \<open>
  The callback of a registered task's timer makes exactly this task READY and wakes the
  dispatching thread; every other task, the list, the current task and the utility stay. With
  the data of a pid that is not registered no task changes.
\<close>

theorem timer_callback_exact:
  assumes "unlocked s"
  shows "\<exists>t. mp2_timer_callback (ucast p) s = Inr t \<and> unlocked t \<and> woken t \<and> ct t = ct s \<and>
    task_list t = task_list s \<and> total_util t = total_util s \<and>
    (\<forall>b\<in>set (task_list s). task_at t b =
       (if pid (task_at s b) = p then (task_at s b)\<lparr>state := READY\<rparr> else task_at s b))"
proof -
  have ok: "list_ok s" "\<not> spin_held s" using unlockedD [OF assms] by simp_all
  let ?t = "s\<lparr>slab := mark_ready (ucast p) (slab s) (task_list s), spin_held := False, woken := True\<rparr>"
  have e: "mp2_timer_callback (ucast p) s = Inr ?t" using callback_eq [OF ok] .
  have "unlocked ?t"
    using callback_ends [OF unlockedD(1) [OF assms], of "ucast p"] e unlockedD(2) [OF assms]
    by (simp add: unlocked_def)
  moreover have "task_at ?t b = the (mark_ready (ucast p) (slab s) (task_list s) b)" for b
    by (simp add: task_at_def)
  ultimately show ?thesis
    using e mark_ready_at [OF ok(1)] by (intro exI [of _ ?t]) simp
qed

theorem timer_callback_exact_witness:
  "\<exists>t. mp2_timer_callback 2 second_registered = Inr t \<and> state (task_at t 2) = READY \<and>
     state (task_at t 1) = RUNNING"
proof -
  have "task_list second_registered = [1, 2]" "pid (task_at second_registered 1) = 1"
    "pid (task_at second_registered 2) = 2" "state (task_at second_registered 1) = RUNNING"
    by (simp_all add: eval)
  then show ?thesis
    using timer_callback_exact [OF second_registered_unlocked, of 2] by auto
qed

lemma only_ready_starts:
  assumes "unlocked s" "ct s = None" "a \<in> set (task_list s)" "linux_task (task_at s a) = Some k"
    "\<forall>b\<in>set (task_list s). is_ready (slab s) b \<longleftrightarrow> b = a"
  shows "dispatch_body s = Inr (s\<lparr>slab := (slab s)(a \<mapsto> (task_at s a)\<lparr>state := RUNNING\<rparr>),
    calls := calls s @ [Wake_up_process k, Sched_setscheduler k SCHED_FIFO 99], ct := Some a\<rparr>)"
proof -
  have ok: "list_ok s \<and> \<not> tl_lock s" "\<not> ct_lock s" using unlockedD [OF assms(1)] by simp_all
  obtain h where h: "Task_get_highest s = Inr (h, s)" using rm.select_returns [OF ok(1)] by blast
  then have "h = Some a"
    using rm.select_none [OF ok(1)] rm.select_some [OF ok(1)] assms(3,5) by (cases h) auto
  moreover have "slab s a = Some (task_at s a)" using inv_at ok(1) assms(3) by blast
  ultimately show ?thesis using h dispatch_start [OF ok(2) _ assms(2,4)] by (simp add: dispatch_body_def)
qed

text \<open>
  C38: One task at a time is not guaranteed. When a task yields in time while another one is current and RUNNING and no
  third one is READY, the yield forgets the current task; the yielding task's timer then makes it READY and
  the dispatching thread starts it beside the other: both are RUNNING, the other without having been put back to
  normal scheduling.
\<close>

theorem two_tasks_running:
  assumes "unlocked s" "a \<in> set (task_list s)" "pid (task_at s a) = p" "linux_task (task_at s a) = Some k"
    and "\<not> missed m2j j (task_at s a)" "ct s = Some b" "b \<noteq> a" "state (task_at s b) = RUNNING"
    and "\<forall>c\<in>set (task_list s) - {a}. \<not> is_ready (slab s) c"
  shows "\<exists>t u v. Task_yeild m2j j p s = Inr (0, t) \<and> mp2_timer_callback (ucast p) t = Inr u \<and>
    dispatch_body u = Inr v \<and> {a, b} \<subseteq> set (task_list v) \<and> state (task_at v a) = RUNNING \<and> state (task_at v b) = RUNNING \<and>
    calls v = calls s @ [Set_task_state k, Schedule, Wake_up_process k, Sched_setscheduler k SCHED_FIFO 99]"
proof -
  let ?t = "yielded m2j j a k s"
  note y = yield_yielded [OF assms(1-5)]
  note ok = unlockedD [OF y(2)]
  let ?u = "?t\<lparr>slab := mark_ready (ucast p) (slab ?t) (task_list ?t), spin_held := False, woken := True\<rparr>"
  have u: "mp2_timer_callback (ucast p) ?t = Inr ?u" using callback_eq [OF ok(3)] ok(5) by blast
  have un: "unlocked ?u"
    using callback_ends [OF ok(1), of "ucast p"] u ok(2) by (simp add: unlocked_def)
  have b: "b \<in> set (task_list s)" using assms(6) unlockedD(1) [OF assms(1)] by (simp add: inv_defs)
  have dist: "pid (task_at s c) = p \<longleftrightarrow> c = a" if "c \<in> set (task_list s)" for c
    using that assms(2,3) unlockedD(3) [OF assms(1)] by (auto simp: list_ok_def view_defs distinct_map inj_on_def)
  have at: "task_at ?u c = (if c = a then (slept m2j j (task_at s a))\<lparr>state := READY\<rparr> else task_at s c)"
    if "c \<in> set (task_list s)" for c
    using that mark_ready_at [OF ok(3), of c "ucast p"] dist [OF that] assms(3)
    by (auto simp: task_at_def yielded_def slept_def)
  have ready: "is_ready (slab ?u) c \<longleftrightarrow> c = a" if "c \<in> set (task_list s)" for c
    using at [OF that] assms(9) that inv_at [OF unlockedD(3) [OF un]] inv_at [OF unlockedD(3) [OF assms(1)]]
    by (auto simp: is_ready_def yielded_def)
  let ?v = "?u\<lparr>slab := (slab ?u)(a \<mapsto> (task_at ?u a)\<lparr>state := RUNNING\<rparr>),
    calls := calls ?u @ [Wake_up_process k, Sched_setscheduler k SCHED_FIFO 99], ct := Some a\<rparr>"
  have "dispatch_body ?u = Inr ?v"
    using un assms(2,4) at ready by (intro only_ready_starts) (simp_all add: yielded_def slept_def)
  moreover have "task_at ?v b = task_at s b" using at [OF b] assms(7) by (simp add: task_at_def)
  ultimately show ?thesis using y(1) u b assms(2,8)
    by (intro exI [of _ ?t] exI [of _ ?u] exI [of _ ?v]) (simp add: yielded_def task_at_def)
qed

theorem two_tasks_running_witness:
  "\<exists>t u v. Task_yeild ucast 1000 2 second_registered = Inr (0, t) \<and> mp2_timer_callback 2 t = Inr u \<and>
    dispatch_body u = Inr v \<and> state (task_at v 1) = RUNNING \<and> state (task_at v 2) = RUNNING"
proof -
  have h: "2 \<in> set (task_list second_registered)" "pid (task_at second_registered 2) = 2"
    "linux_task (task_at second_registered 2) = Some 2" "\<not> missed ucast 1000 (task_at second_registered 2)"
    "ct second_registered = Some 1" "(1 :: addr) \<noteq> 2" "state (task_at second_registered 1) = RUNNING"
    by (simp_all add: eval missed_def)
  have "\<forall>c\<in>set (task_list second_registered) - {2}. \<not> is_ready (slab second_registered) c"
    by (simp add: eval is_ready_def) auto
  from two_tasks_running [OF second_registered_unlocked h this] show ?thesis
    by (elim exE conjE) auto
qed

text \<open>
  A reader that reads until it gets nothing sees one line per task, in list order, as long
  as its buffer holds the text, and leaves the file ready for the next reader; the lines are the
  printed pid, period, processing time and state. Over an empty list it leaves the end-of-file
  flag set, so that the next reader gets nothing whatever was registered in between.
\<close>

theorem mp2_status_file:
  assumes "unlocked s" "\<not> read_finished s"
  shows "(tasks s \<noteq> [] \<and> length (concat (map task_line (tasks s))) < n \<longrightarrow>
      (\<exists>t. drain 2 mp2_read n s = Some (Inr (concat (map task_line (tasks s)), t)) \<and>
         \<not> read_finished t \<and> unlocked t)) \<and>
    (tasks s = [] \<longrightarrow> (\<exists>t. drain 1 mp2_read n s = Some (Inr ([], t)) \<and> read_finished t)) \<and>
    (read_finished u \<longrightarrow> (\<exists>t. drain 1 mp2_read n u = Some (Inr ([], t)) \<and> \<not> read_finished t \<and>
       tasks t = tasks u))"
proof (intro conjI impI)
  assume "tasks s \<noteq> [] \<and> length (concat (map task_line (tasks s))) < n"
  moreover from this have "mp2_contents s \<noteq> []"
    by (cases "tasks s") (auto simp: mp2_contents_def task_line_def)
  ultimately show "\<exists>t. drain 2 mp2_read n s = Some (Inr (concat (map task_line (tasks s)), t)) \<and>
         \<not> read_finished t \<and> unlocked t"
    using mp2_file.drain_contents [OF assms, of n 0]
    by (auto simp: fits_def mp2_contents_def numeral_2_eq_2 simp del: drain.simps)
next
  assume "tasks s = []"
  then have "task_list s = []" "mp2_contents s = []" by (simp_all add: tasks_def mp2_contents_def)
  then show "\<exists>t. drain 1 mp2_read n s = Some (Inr ([], t)) \<and> read_finished t"
    using mp2_file.drain_empty [OF assms, of 0 n] by (auto simp: One_nat_def simp del: drain.simps)
next
  assume "read_finished u"
  then show "\<exists>t. drain 1 mp2_read n u = Some (Inr ([], t)) \<and> \<not> read_finished t \<and> tasks t = tasks u"
    by (simp add: mp2_read_def view_defs)
qed

theorem mp2_status_file_witness:
  "(\<exists>t. drain 2 mp2_read 4096 first_running = Some (Inr (''1: 100, 10, 3'' @ [newline], t))) \<and>
   (\<exists>t. drain 1 mp2_read 4096 loaded = Some (Inr ([], t)) \<and> read_finished t)"
proof -
  have line: "concat (map task_line (tasks first_running)) = ''1: 100, 10, 3'' @ [newline]"
    by (simp add: eval view_defs task_line_def show_u_def show_dec.simps digit_char_def char_of_def bit_0)
  have h: "\<not> read_finished first_running" "tasks first_running \<noteq> []" "\<not> read_finished loaded" "tasks loaded = []"
    by (simp_all add: eval view_defs)
  have "length (''1: 100, 10, 3'' @ [newline]) < 4096" by simp
  then show ?thesis
    using mp2_status_file [OF first_running_unlocked h(1), of 4096 loaded, unfolded line] h(2,4)
      mp2_status_file [OF loaded_unlocked h(3), of 4096 loaded]
    by blast
qed

text \<open>
  Unloading an unlocked module whose tasks all have a process returns: the thread has
  stopped, the list and the slab are empty and the two \<open>/proc\<close> entries are gone.
\<close>

theorem mp2_exit_clean:
  assumes "unlocked s" "\<forall>t\<in>set (tasks s). linux_task t \<noteq> None"
    "set (proc_entries s) = {''mp2'', ''mp2/status''}"
  shows "\<exists>t. mp2_exit s = Inr t \<and> task_list t = [] \<and> slab t = (\<lambda>_. None) \<and> \<not> dispatcher t \<and>
    proc_entries t = []"
proof -
  let ?s = "s\<lparr>woken := False\<rparr>"
  have u: "unlocked ?s" using assms(1) by (simp add: unlocked_def mp2_inv_def)
  have ok: "list_ok ?s \<and> \<not> tl_lock ?s" "\<not> ct_lock ?s" using unlockedD [OF u] by simp_all
  have lt: "\<exists>u k. slab s a = Some u \<and> linux_task u = Some k" if "a \<in> set (task_list s)" for a
    using that assms(2) inv_at [OF unlockedD(3) [OF assms(1)] that] by (auto simp: tasks_def)
  have ctm: "ct s = Some c \<Longrightarrow> c \<in> set (task_list s)" for c
    using unlockedD(1) [OF assms(1)] by (simp add: inv_defs)
  obtain h where h: "Task_get_highest ?s = Inr (h, ?s)" using rm.select_returns [OF ok(1)] by blast
  have "\<exists>t. dispatch_switch h ?s = Inr t \<and> proc_entries t = proc_entries s"
  proof (cases h)
    case None
    show ?thesis
    proof (cases "ct s")
      case (Some c)
      then show ?thesis using None lt [OF ctm [OF Some]] ok(2) by (auto simp: dispatch_idle)
    qed (use None ok(2) in \<open>simp add: dispatch_switch_def lock_defs\<close>)
  next
    case (Some b)
    then have "b \<in> set (task_list s)" using rm.select_some [OF ok(1)] h by simp
    then obtain ub kb where b: "slab s b = Some ub" "linux_task ub = Some kb" using lt by blast
    show ?thesis
    proof (cases "ct s")
      case None
      then show ?thesis using \<open>h = Some b\<close> b ok(2) by (simp add: dispatch_start)
    next
      case (Some c)
      then obtain uc kc where c: "slab s c = Some uc" "linux_task uc = Some kc" using lt ctm by blast
      show ?thesis using \<open>h = Some b\<close> Some b c ok(2)
        by (cases "period ub < period uc") (simp_all add: dispatch_replace dispatch_keep)
    qed
  qed
  then obtain t where t: "dispaching_thread_function 1 s = Inr t" "proc_entries t = proc_entries s"
    using h by (auto simp: dispatch_body_def)
  have tu: "list_ok t" "\<not> tl_lock t"
    using thread_ends [OF unlockedD(1) [OF assms(1)], of 1] t(1) unlockedD(2) [OF assms(1)]
    by (simp_all add: mp2_list_ok)
  have "list_ok (t\<lparr>dispatcher := False\<rparr>)" using tu(1) by (simp add: list_ok_def view_defs)
  with tu(2) have "Task_destroy (t\<lparr>dispatcher := False\<rparr>) =
      Inr (t\<lparr>dispatcher := False, task_list := [], slab := (\<lambda>_. None)\<rparr>)"
    by (simp add: Task_destroy_eq)
  then have "mp2_exit s = Inr (t\<lparr>dispatcher := False, task_list := [], slab := (\<lambda>_. None),
      proc_entries := removeAll ''mp2'' (removeAll ''mp2/status'' (proc_entries s))\<rparr>)"
    using t by (simp add: mp2_exit_def del: dispaching_thread_function.simps)
  moreover have "removeAll ''mp2'' (removeAll ''mp2/status'' (proc_entries s)) = []"
    using assms(3) by (auto simp: removeAll_filter_not_eq filter_empty_conv)
  ultimately show ?thesis by simp
qed

theorem mp2_exit_clean_witness:
  "\<exists>t. mp2_exit second_ready = Inr t \<and> task_list t = [] \<and> proc_entries t = []"
proof -
  have h: "\<forall>t\<in>set (tasks second_ready). linux_task t \<noteq> None"
    "set (proc_entries second_ready) = {''mp2'', ''mp2/status''}"
    by (simp_all add: eval view_defs)
  show ?thesis using mp2_exit_clean [OF second_ready_unlocked h] by blast
qed

end
