(* ===== verification/Mp2_Session.thy ===== *)
theory Mp2_Session
  imports Mp2_App
begin

text \<open>
  The user program and the module together: a process that is alone on the module registers with the
  line its program echoes, yields once, is started by its timer and the dispatching thread in
  each period, yields again when its job is done, and deregisters.
\<close>

section \<open>A module with one task\<close>

definition alone :: "addr \<Rightarrow> mp2_task_struct \<Rightarrow> mp2_state \<Rightarrow> bool" where
  "alone a t s \<longleftrightarrow> task_list s = [a] \<and> slab s = [a \<mapsto> t] \<and> \<not> tl_lock s \<and> \<not> ct_lock s \<and> \<not> spin_held s \<and> dispatcher s"

text \<open>What stays: everything but the task, the current task, the wake-up flag and the calls made.\<close>

definition same_rest :: "mp2_state \<Rightarrow> mp2_state \<Rightarrow> bool" where
  "same_rest s t \<longleftrightarrow> total_util t = total_util s \<and> proc_entries t = proc_entries s \<and> read_finished t = read_finished s"

lemma same_rest_refl [simp]: "same_rest s s"
  by (simp add: same_rest_def)

lemma same_rest_trans: "same_rest r s \<Longrightarrow> same_rest s t \<Longrightarrow> same_rest r t"
  by (simp add: same_rest_def)

lemma alone_yield:
  assumes "alone a t s" "pid t = p" "linux_task t = Some k" "\<not> missed m2j j t"
  shows "\<exists>u. Task_yeild m2j j p s = Inr (0, u) \<and> alone a (slept m2j j t) u \<and> ct u = None \<and> woken u \<and>
    calls u = calls s @ [Set_task_state k, Schedule] \<and> same_rest s u"
  using assms
  by (auto simp: alone_def Task_yeild_def yeild_task_at_def lock_defs access_defs missed_def Let_def slept_def
      same_rest_def)

lemma alone_idle:
  assumes "alone a t s" "state t = SLEEPING" "ct s = None" "woken s"
  shows "\<exists>u. run_action Dispatch s = Some u \<and> alone a t u \<and> ct u = None \<and> calls u = calls s \<and> same_rest s u"
  using assms
  by (auto simp: alone_def dispatch_body_def Task_get_highest_def lock_defs dispatch_switch_def same_rest_def)

lemma alone_fire:
  assumes "alone a t s" "expires (timer t) = Some d" "tdata (timer t) = ucast (pid t)"
  shows "\<exists>u. run_action (Fire a) s = Some u \<and> alone a (t\<lparr>timer := (timer t)\<lparr>expires := None\<rparr>, state := READY\<rparr>) u \<and>
    ct u = ct s \<and> woken u \<and> calls u = calls s \<and> same_rest s u"
  using assms
  by (auto simp: alone_def timer_pending_def task_at_def fire_timer_def mp2_timer_callback_def access_defs Let_def
      same_rest_def)

lemma alone_start:
  assumes "alone a t s" "state t = READY" "ct s = None" "woken s" "linux_task t = Some k"
  shows "\<exists>u. run_action Dispatch s = Some u \<and> alone a (t\<lparr>state := RUNNING\<rparr>) u \<and> ct u = Some a \<and>
    calls u = calls s @ [Wake_up_process k, Sched_setscheduler k SCHED_FIFO 99] \<and> same_rest s u"
  using assms
  by (auto simp: alone_def dispatch_body_def Task_get_highest_def lock_defs dispatch_switch_def run_task_def
      access_defs same_rest_def)

section \<open>The session\<close>

text \<open>
  The kernel at a time: only a registration gets a slab object.
\<close>

definition at_time :: "mp2_kernel \<Rightarrow> u64 \<Rightarrow> mp2_kernel" where
  "at_time k j = k\<lparr>jiffies := j, slab_object := None\<rparr>"

text \<open>
  One period: the dispatching thread goes back to sleep, the timer fires, the thread starts the
  task, and the task yields at time \<open>j\<close>.
\<close>

definition one_period :: "mp2_kernel \<Rightarrow> addr \<Rightarrow> u32 \<Rightarrow> u64 \<Rightarrow> mp2_action list" where
  "one_period k a p j = [Dispatch, Fire a, Dispatch, Write (at_time k j) (yield_line p @ [newline])]"

definition app_session :: "mp2_kernel \<Rightarrow> addr \<Rightarrow> u32 \<Rightarrow> u32 \<Rightarrow> u32 \<Rightarrow> u64 \<Rightarrow> u64 list \<Rightarrow> mp2_action list" where
  "app_session k a p per proc j0 js =
     [Write (k\<lparr>jiffies := j0\<rparr>) (register_line p per proc @ [newline]), Write (at_time k j0) (yield_line p @ [newline])] @
     concat (map (one_period k a p) js) @ [Write (at_time k j0) (deregister_line p @ [newline])]"

text \<open>Each yield comes no later than the deadline after the one its timer was set to.\<close>

fun in_time :: "u64 \<Rightarrow> u64 \<Rightarrow> u64 list \<Rightarrow> bool" where
  "in_time m d [] = True"
| "in_time m d (j # js) = (d \<noteq> 0 \<and> j \<le> d + m \<and> in_time m (d + m) js)"

text \<open>The task between two periods.\<close>

definition asleep :: "u32 \<Rightarrow> u64 \<Rightarrow> addr \<Rightarrow> u64 \<Rightarrow> mp2_task_struct \<Rightarrow> bool" where
  "asleep p per kt d t \<longleftrightarrow> pid t = p \<and> period t = per \<and> linux_task t = Some kt \<and> state t = SLEEPING \<and>
     timer t = \<lparr>tdata = ucast p, expires = Some d\<rparr> \<and> next_ddl t = d"

lemma run_schedule_append: "run_schedule (xs @ ys) s = Option.bind (run_schedule xs s) (run_schedule ys)"
  by (induction xs arbitrary: s) (auto split: bind_split simp: bind_assoc)

lemma write_yield:
  assumes "Task_yeild (msecs_to_jiffies k) j p s = Inr (0, u)"
  shows "run_action (Write (at_time k j) (yield_line p @ [newline])) s = Some u"
  using assms by (simp add: at_time_def fresh_object_def mp2_write_def parse_lines run_command_def returned_def)

lemma one_period_runs:
  assumes "alone a t s" "asleep p per kt d t" "ct s = None" "woken s" "d \<noteq> 0" "m = msecs_to_jiffies k (ucast per)" "j \<le> d + m"
  shows "\<exists>u v. run_schedule (one_period k a p j) s = Some u \<and> alone a v u \<and> asleep p per kt (d + m) v \<and>
    proc_time v = proc_time t \<and> ct u = None \<and> woken u \<and> same_rest s u \<and>
    calls u = calls s @ [Wake_up_process kt, Sched_setscheduler kt SCHED_FIFO 99, Set_task_state kt, Schedule]"
proof -
  note t = assms(2) [unfolded asleep_def]
  obtain s1 where 1: "run_action Dispatch s = Some s1" "alone a t s1" "ct s1 = None" "calls s1 = calls s" "same_rest s s1"
    using alone_idle [OF assms(1) _ assms(3,4)] t by blast
  let ?t2 = "t\<lparr>timer := (timer t)\<lparr>expires := None\<rparr>, state := READY\<rparr>"
  obtain s2 where 2: "run_action (Fire a) s1 = Some s2" "alone a ?t2 s2" "ct s2 = None" "woken s2" "calls s2 = calls s1" "same_rest s1 s2"
    using alone_fire [OF 1(2)] 1(3) t by auto
  obtain s3 where 3: "run_action Dispatch s2 = Some s3" "alone a (?t2\<lparr>state := RUNNING\<rparr>) s3"
      "calls s3 = calls s2 @ [Wake_up_process kt, Sched_setscheduler kt SCHED_FIFO 99]" "same_rest s2 s3"
    using alone_start [OF 2(2) _ 2(3,4), of kt] t by auto
  let ?t3 = "?t2\<lparr>state := RUNNING\<rparr>"
  have ddl: "next_deadline (msecs_to_jiffies k) j ?t3 = d + m" using t assms(5,6) by (simp add: next_deadline_def)
  then have "\<not> missed (msecs_to_jiffies k) j ?t3" using assms(7) by (simp add: missed_def not_less)
  then obtain s4 where 4: "Task_yeild (msecs_to_jiffies k) j p s3 = Inr (0, s4)"
      "alone a (slept (msecs_to_jiffies k) j ?t3) s4" "ct s4 = None" "woken s4"
      "calls s4 = calls s3 @ [Set_task_state kt, Schedule]" "same_rest s3 s4"
    using alone_yield [OF 3(2), of p kt] t by auto
  have "run_schedule (one_period k a p j) s = Some s4"
    unfolding one_period_def by (simp only: run_schedule.simps 1(1) 2(1) 3(1) write_yield [OF 4(1)] bind.bind_lunit)
  moreover have "asleep p per kt (d + m) (slept (msecs_to_jiffies k) j ?t3)"
    using t assms(5,6) by (simp add: asleep_def slept_def next_deadline_def)
  moreover have "same_rest s s4" using 1(5) 2(6) 3(4) 4(6) by (simp add: same_rest_def)
  ultimately show ?thesis using 1 2 3 4 by (intro exI [of _ s4] exI [of _ "slept (msecs_to_jiffies k) j ?t3"]) (simp add: slept_def)
qed

definition period_calls :: "addr \<Rightarrow> kcall list" where
  "period_calls kt = [Wake_up_process kt, Sched_setscheduler kt SCHED_FIFO 99, Set_task_state kt, Schedule]"

lemma periods_run:
  assumes "m = msecs_to_jiffies k (ucast per)"
  shows "alone a t s \<Longrightarrow> asleep p per kt d t \<Longrightarrow> ct s = None \<Longrightarrow> woken s \<Longrightarrow> in_time m d js \<Longrightarrow>
    \<exists>u v. run_schedule (concat (map (one_period k a p) js)) s = Some u \<and> alone a v u \<and> pid v = p \<and> period v = per \<and>
      proc_time v = proc_time t \<and> ct u = None \<and> same_rest s u \<and> calls u = calls s @ concat (replicate (length js) (period_calls kt))"
proof (induction js arbitrary: s t d)
  case Nil
  then show ?case by (auto simp: asleep_def)
next
  case (Cons j js)
  obtain u v where 1: "run_schedule (one_period k a p j) s = Some u" "alone a v u" "asleep p per kt (d + m) v"
      "proc_time v = proc_time t" "ct u = None" "woken u" "same_rest s u" "calls u = calls s @ period_calls kt"
    using one_period_runs [OF Cons.prems(1-4) _ assms, of j] Cons.prems(5) by (auto simp: period_calls_def)
  obtain w x where 2: "run_schedule (concat (map (one_period k a p) js)) u = Some w" "alone a x w" "pid x = p" "period x = per"
      "proc_time x = proc_time v" "ct w = None" "same_rest u w" "calls w = calls u @ concat (replicate (length js) (period_calls kt))"
    using Cons.IH [OF 1(2,3,5,6)] Cons.prems(5) by auto
  have "run_schedule (concat (map (one_period k a p) (j # js))) s = Some w"
    using 1(1) 2(1) by (simp add: run_schedule_append)
  then show ?case using 1 2 same_rest_trans [OF 1(7) 2(7)] by (intro exI [of _ w] exI [of _ x]) simp
qed

lemma run_schedule_inv: "mp2_inv s \<Longrightarrow> run_schedule xs s = Some t \<Longrightarrow> mp2_inv t"
  by (induction xs arbitrary: s) (auto simp: bind_eq_Some_conv dest: mp2.inv_step [OF _ run_action_step])

lemma alone_deregister:
  assumes "alone a t s" "pid t = p" "period t \<noteq> 0" "ct s = None"
  shows "Task_deregister p s =
    Inr (0, s\<lparr>total_util := total_util s - task_util (proc_time t) (period t), task_list := [], slab := Map.empty\<rparr>)"
  using assms by (cases s) (auto simp: alone_def Task_deregister_def deregister_task_at_def drop_current_def lock_defs)

lemma session_runs:
  assumes s: "unlocked s" "task_list s = []" "dispatcher s"
    and k: "slab_object k = Some a" "pid_task k p = Some kt" "m = msecs_to_jiffies k per"
    and per: "per \<noteq> 0" "task_util (ucast proc) (ucast per) < MAX_UTIL" "in_time m (j0 + m) js"
  shows "\<exists>t. run_schedule (app_session k a p per proc j0 js) s = Some t \<and> unlocked t \<and> task_list t = [] \<and>
    total_util t = 0 \<and> ct t = None \<and>
    calls t = calls s @ [Set_task_state kt, Schedule] @ concat (replicate (length js) (period_calls kt))"
proof -
  note u = unlockedD [OF s(1)]
  have empty: "slab s = Map.empty" "pids s = []" using u(3) s(2) by (auto simp: list_ok_def view_defs)
  have "unat (total_util s) = 0" using u(1) s(2) by (simp add: inv_defs view_defs)
  then have zero: "total_util s = 0" by (simp add: unat_eq_zero)
  have ct: "ct s = None" using u(1) s(2) by (auto simp: inv_defs)
  have per': "(ucast per :: u64) \<noteq> 0" using per(1) u64_of_u32_eq [of per 0] by simp
  let ?t = "new_task (Some kt) p (ucast per) (ucast proc)"
  let ?s1 = "registered a ?t s"
  have r: "run_action (Write (k\<lparr>jiffies := j0\<rparr>) (register_line p per proc @ [newline])) s = Some ?s1"
    using k per' per(2) empty zero u
    by (simp add: fresh_object_def mp2_write_def parse_lines run_command_def returned_def Task_register_eq not_le)
  have s1: "alone a ?t ?s1" "calls ?s1 = calls s" "total_util ?s1 = task_util (ucast proc) (ucast per)"
    using s u empty zero by (simp_all add: alone_def registered_def new_task_def)
  have "\<not> missed (msecs_to_jiffies k) j0 ?t" by (simp add: missed_def new_task_def)
  then obtain s2 where 2: "Task_yeild (msecs_to_jiffies k) j0 p ?s1 = Inr (0, s2)"
      "alone a (slept (msecs_to_jiffies k) j0 ?t) s2" "ct s2 = None" "woken s2"
      "calls s2 = calls s @ [Set_task_state kt, Schedule]" "same_rest ?s1 s2"
    using alone_yield [OF s1(1), of p kt] s1(2) by (auto simp: new_task_def)
  have narrow: "(ucast (ucast per :: u64) :: u32) = per" by (rule bit_word_eqI) (auto simp: bit_simps)
  have sleep: "asleep p (ucast per) kt (j0 + m) (slept (msecs_to_jiffies k) j0 ?t)"
    using k(3) by (simp add: asleep_def slept_def new_task_def next_deadline_def narrow)
  have m: "m = msecs_to_jiffies k (ucast (ucast per :: u64))" using k(3) narrow by simp
  obtain s3 v where 3: "run_schedule (concat (map (one_period k a p) js)) s2 = Some s3" "alone a v s3" "pid v = p"
      "period v = ucast per" "proc_time v = ucast proc" "ct s3 = None" "same_rest s2 s3"
      "calls s3 = calls s2 @ concat (replicate (length js) (period_calls kt))"
    using periods_run [OF m 2(2) sleep 2(3,4) per(3)] by (auto simp: slept_def new_task_def)
  let ?s4 = "s3\<lparr>total_util := total_util s3 - task_util (ucast proc) (ucast per), task_list := [], slab := Map.empty\<rparr>"
  have d: "run_action (Write (at_time k j0) (deregister_line p @ [newline])) s3 = Some ?s4"
    using alone_deregister [OF 3(2,3) _ 3(6)] 3(4,5) per'
    by (simp add: at_time_def fresh_object_def mp2_write_def parse_lines run_command_def returned_def)
  have run: "run_schedule (app_session k a p per proc j0 js) s = Some ?s4"
    unfolding app_session_def run_schedule_append
    by (simp only: run_schedule.simps r write_yield [OF 2(1)] 3(1) d bind.bind_lunit append.simps)
  have "total_util ?s4 = 0" using 2(6) 3(7) s1(3) by (simp add: same_rest_def)
  moreover have "unlocked ?s4"
    using run_schedule_inv [OF u(1) run] 3(2) by (simp add: unlocked_def alone_def)
  ultimately show ?thesis using run 2(5) 3(6,8) by (intro exI [of _ ?s4]) simp
qed

end
