(* ===== verification/Mp2_App_Props.thy ===== *)
theory Mp2_App_Props
  imports Mp2_Props Mp2_Session
begin

text \<open>
  The properties of the user program of MP2: its commands are read back by the module, the busy loop
  decides by exact time and returns, the printed times are exact to half a microsecond, and
  what a complete run prints and commands.
\<close>

section \<open>The user program\<close>

text \<open>
  The module reads back what the user program writes: each of the three lines, followed by
  the newline of \<open>echo\<close>, is parsed into its command with the same pid, period and processing
  time, whatever bytes lie behind the kernel's buffer and in its uninitialised locals; and the
  shell command that carries it fits the 100 bytes it is printed into.
\<close>

theorem userapp_commands:
  "parse_command k (register_line p per proc @ [newline]) = Inr (Register p (ucast per) (ucast proc)) \<and>
   parse_command k (yield_line p @ [newline]) = Inr (Yield p) \<and>
   parse_command k (deregister_line p @ [newline]) = Inr (Deregister p) \<and>
   length (register_process p per proc) < 100 \<and> length (yield_process p) < 100 \<and>
   length (deregister_process p) < 100"
  using show_u32_length [of p] show_u32_length [of per] show_u32_length [of proc]
  by (simp add: parse_lines register_process_def yield_process_def deregister_process_def
      shell_echo_def MP2_PATH_def) (simp add: register_line_def yield_line_def deregister_line_def)

section \<open>Time\<close>

text \<open>
  The busy loop of a period stops by the rounded difference of two clock readings, and that
  decides as exact time does: before 90 milliseconds have passed the loop goes on, and after them it stops.
\<close>

theorem job_test_exact:
  assumes "timeval_ok start" "timeval_ok now" "elapsed start now \<noteq> 90000"
  shows "job_continues start now \<longleftrightarrow> elapsed start now < 90000"
  using job_continues_exact [OF assms(1,2)] assms(3) by linarith

lemma test_at_90:
  "elapsed \<lparr>tv_sec = 2, tv_usec = 21595\<rparr> \<lparr>tv_sec = 2, tv_usec = 111595\<rparr> = 90000"
  "job_continues \<lparr>tv_sec = 2, tv_usec = 21595\<rparr> \<lparr>tv_sec = 2, tv_usec = 111595\<rparr>"
  "elapsed \<lparr>tv_sec = 0, tv_usec = 506253\<rparr> \<lparr>tv_sec = 0, tv_usec = 596253\<rparr> = 90000"
  "\<not> job_continues \<lparr>tv_sec = 0, tv_usec = 506253\<rparr> \<lparr>tv_sec = 0, tv_usec = 596253\<rparr>"
  by code_simp+

text \<open>The witness includes two pairs of readings at exactly 90 milliseconds with different answers.\<close>

theorem job_test_exact_witness:
  "\<not> job_continues \<lparr>tv_sec = 5, tv_usec = 950000\<rparr> \<lparr>tv_sec = 6, tv_usec = 40001\<rparr> \<and>
   job_continues \<lparr>tv_sec = 2, tv_usec = 21595\<rparr> \<lparr>tv_sec = 2, tv_usec = 111595\<rparr> \<and>
   \<not> job_continues \<lparr>tv_sec = 0, tv_usec = 506253\<rparr> \<lparr>tv_sec = 0, tv_usec = 596253\<rparr>"
proof -
  have h: "timeval_ok \<lparr>tv_sec = 5, tv_usec = 950000\<rparr>" "timeval_ok \<lparr>tv_sec = 6, tv_usec = 40001\<rparr>"
    and e: "elapsed \<lparr>tv_sec = 5, tv_usec = 950000\<rparr> \<lparr>tv_sec = 6, tv_usec = 40001\<rparr> = 90001"
    by (simp_all add: timeval_ok_def elapsed_def usecs_def)
  show ?thesis using job_test_exact [OF h] test_at_90(2,4) by (simp add: e)
qed

text \<open>
  A job returns. When one of the next clock readings is more than 90 milliseconds after the first
  reading of the job, \<open>do_job\<close> returns; its last reading is at least 90 milliseconds after the first, and
  no reading before it was later than that.
\<close>

theorem job_returns:
  assumes "\<forall>i\<le>n + fuel. timeval_ok (clock i)" "j < fuel" "90000 < elapsed (clock n) (clock (Suc n + j))"
  shows "\<exists>k\<le>j. do_job fuel clock n = Some (Suc n + k + 1) \<and> 90000 \<le> elapsed (clock n) (clock (Suc n + k)) \<and>
    (\<forall>i<k. elapsed (clock n) (clock (Suc n + i)) \<le> 90000)"
  by (rule do_job_stops [OF assms])

definition ticks :: "nat \<Rightarrow> timeval" where
  "ticks i = \<lparr>tv_sec = 7, tv_usec = of_nat (40000 * i)\<rparr>"

lemma ticks_at: "i \<le> 20 \<Longrightarrow> timeval_ok (ticks i) \<and> usecs (ticks i) = 7000000 + 40000 * int i"
proof -
  assume "i \<le> 20"
  then have "uint (of_nat (40000 * i) :: u64) = 40000 * int i"
    unfolding unsigned_of_nat by (simp add: take_bit_nat_eq_self)
  then show ?thesis using \<open>i \<le> 20\<close> unfolding ticks_def timeval_ok_def usecs_def by simp
qed

theorem job_returns_witness: "\<exists>m. do_job 5 ticks 1 = Some m \<and> 90000 \<le> elapsed (ticks 1) (ticks (m - 1))"
proof -
  have ok: "\<forall>i\<le>1 + 5. timeval_ok (ticks i)" using ticks_at by simp
  have "90000 < elapsed (ticks 1) (ticks (Suc 1 + 3))" by (simp add: elapsed_def ticks_at)
  from job_returns [OF ok _ this] show ?thesis by force
qed

text \<open>
  C33: The line of measurements. For readings in order it consists of the pid, the period and the processing
  time, then the job's duration and its start and end since the first reading as positive fixed-point
  numbers of milliseconds, each within 400 nanoseconds of the exact time.
\<close>

theorem printed_times_exact:
  assumes "timeval_ok initial" "timeval_ok start" "timeval_ok now"
    "usecs initial \<le> usecs start" "usecs start \<le> usecs now"
  shows "\<exists>a b c. print_result initial start now me per proc =
      show_u me @ [tab] @ show_d per @ [tab] @ show_d proc @ [tab] @ show_fixed a @ [tab] @ show_fixed b @ [tab] @
      show_fixed c @ [newline] \<and>
    \<bar>int a - 1000 * elapsed start now\<bar> \<le> 400 \<and> \<bar>int b - 1000 * elapsed initial start\<bar> \<le> 400 \<and>
    \<bar>int c - 1000 * elapsed initial now\<bar> \<le> 400"
proof -
  have le: "usecs initial \<le> usecs now" using assms(4,5) by simp
  show ?thesis
    unfolding print_result_def actual_proc_time_since [OF assms(2)] since_printed(1) [OF assms(2,3,5)]
      since_printed(1) [OF assms(1,2,4)] since_printed(1) [OF assms(1,3) le]
    using since_printed(2) [OF assms(2,3,5)] since_printed(2) [OF assms(1,2,4)] since_printed(2) [OF assms(1,3) le]
    by blast
qed

theorem printed_times_exact_witness:
  "\<exists>a b c. print_result (ticks 0) (ticks 1) (ticks 4) 42 100 (-1) =
     ''42'' @ [tab] @ ''100'' @ [tab] @ ''-1'' @ [tab] @ show_fixed a @ [tab] @ show_fixed b @ [tab] @
     show_fixed c @ [newline] \<and> \<bar>int a - 120000000\<bar> \<le> 400 \<and> \<bar>int b - 40000000\<bar> \<le> 400 \<and> \<bar>int c - 160000000\<bar> \<le> 400"
proof -
  have h: "timeval_ok (ticks 0)" "timeval_ok (ticks 1)" "timeval_ok (ticks 4)"
    "usecs (ticks 0) \<le> usecs (ticks 1)" "usecs (ticks 1) \<le> usecs (ticks 4)"
    by (simp_all add: ticks_at)
  have s: "show_u (42 :: u32) = ''42''" "show_d (100 :: u32) = ''100''" "show_d (-1 :: u32) = ''-1''"
    by code_simp+
  from printed_times_exact [OF h, of 42 100 "-1"] show ?thesis by (simp add: elapsed_def ticks_at s)
qed

section \<open>Complete runs\<close>

lemma period_loop_returns:
  assumes "\<forall>i\<le>n + left * (fuel + 3). timeval_ok (clock i)"
    "\<forall>i\<le>n + left * (fuel + 3). \<exists>j<fuel. 90000 < elapsed (clock i) (clock (Suc i + j))"
  shows "\<exists>es m. period_loop fuel clock t0 me per proc left n = Some (es, m)"
  using assms
proof (induction left arbitrary: n)
  case (Suc left)
  have le: "Suc n + fuel \<le> n + Suc left * (fuel + 3)" by simp
  obtain j where j: "j < fuel" "90000 < elapsed (clock (Suc n)) (clock (Suc (Suc n) + j))"
    using Suc.prems(2) [rule_format, of "Suc n"] by auto
  have ok: "\<forall>i\<le>Suc n + fuel. timeval_ok (clock i)" using Suc.prems(1) le by (meson order_trans)
  obtain k where k: "k \<le> j" "do_job fuel clock (Suc n) = Some (Suc (Suc n) + k + 1)"
    using do_job_stops [OF ok j] by blast
  have "Suc (Suc (Suc n) + k + 1) + left * (fuel + 3) \<le> n + Suc left * (fuel + 3)"
    using k(1) j(1) by simp
  then have "\<exists>es m. period_loop fuel clock t0 me per proc left (Suc (Suc (Suc n) + k + 1)) = Some (es, m)"
    using Suc.IH Suc.prems by (meson order_trans)
  then show ?case using k(2) by auto
qed simp

text \<open>
  C32: A complete run, and what the module makes of it. With three arguments, a status file that can be read, and
  a clock by which 90 milliseconds pass within \<open>fuel\<close> readings, the program returns 0. Its shell commands echo lines
  that the module reads as the registration with the converted arguments, one yield, one yield per
  period, and the deregistration, in this order and with the same pid.
\<close>

theorem userapp_session:
  assumes "length argv = 4" "periods = nat (sint (atoi (argv ! 3)))"
    "\<forall>i\<le>1 + periods * (fuel + 3). timeval_ok (clock i)"
    "\<forall>i\<le>1 + periods * (fuel + 3). \<exists>j<fuel. 90000 < elapsed (clock i) (clock (Suc i + j))"
  shows "\<exists>es lines. userapp_main fuel argv me (Some content) clock = Some (es, Inr 0) \<and>
    commands es = map shell_echo lines \<and>
    map (\<lambda>l. parse_command k (l @ [newline])) lines =
      Inr (Register me (ucast (atoi (argv ! 1))) (ucast (atoi (argv ! 2)))) #
      replicate (Suc periods) (Inr (Yield me)) @ [Inr (Deregister me)]"
proof -
  obtain es m where p: "period_loop fuel clock (clock 0) me (atoi (argv ! 1)) (atoi (argv ! 2)) periods 1 = Some (es, m)"
    using period_loop_returns [OF assms(3,4)] by blast
  let ?lines = "register_line me (atoi (argv ! 1)) (atoi (argv ! 2)) # replicate (Suc periods) (yield_line me) @
    [deregister_line me]"
  from period_loop_commands [OF p] p assms(1,2) show ?thesis
    by (intro exI [of _ "fst (the (userapp_main fuel argv me (Some content) clock))"] exI [of _ ?lines])
      (simp add: userapp_main_def Let_def show_status_def parse_lines register_process_def yield_process_def
        deregister_process_def)
qed

text \<open>The clock of the witness: a second between two readings.\<close>

definition seconds :: "nat \<Rightarrow> timeval" where
  "seconds i = \<lparr>tv_sec = of_nat i, tv_usec = 0\<rparr>"

lemma seconds_at: "i \<le> 100 \<Longrightarrow> timeval_ok (seconds i) \<and> usecs (seconds i) = 1000000 * int i"
  by (simp add: seconds_def timeval_ok_def usecs_def unsigned_of_nat take_bit_nat_eq_self)

theorem userapp_session_witness:
  "\<exists>es. userapp_main 1 [''userapp'', ''200'', ''100'', ''3''] 42 (Some []) seconds = Some (es, Inr 0) \<and>
    length (commands es) = 6"
proof -
  let ?argv = "[''userapp'', ''200'', ''100'', ''3'']"
  have len: "length ?argv = 4" and n: "3 = nat (sint (atoi (?argv ! 3)))"
    by (simp_all add: atoi_def is_space_def is_digit_def)
  have ok: "\<forall>i\<le>1 + 3 * (1 + 3). timeval_ok (seconds i)"
    "\<forall>i\<le>1 + 3 * (1 + 3). \<exists>j<1. 90000 < elapsed (seconds i) (seconds (Suc i + j))"
    by (simp_all add: seconds_at elapsed_def)
  obtain es lines where run: "userapp_main 1 ?argv 42 (Some []) seconds = Some (es, Inr 0)" "commands es = map shell_echo lines"
    "map (\<lambda>l. parse_command k (l @ [newline])) lines =
      Inr (Register 42 (ucast (atoi (?argv ! 1))) (ucast (atoi (?argv ! 2)))) #
      replicate (Suc 3) (Inr (Yield 42)) @ [Inr (Deregister 42)]"
    using userapp_session [OF len n ok, of 42 "[]" k] by (elim exE conjE) (rule that)
  have "length lines = 6" using run(3) [THEN arg_cong [where f = length]] unfolding length_map by simp
  with run(1,2) show ?thesis by simp
qed

text \<open>
  A run that cannot open the status file. It has registered by then, reads from the null
  pointer that \<open>fopen\<close> returned, and neither yields nor deregisters.
\<close>

theorem userapp_open_fails:
  assumes "length argv = 4"
  shows "\<exists>es. userapp_main fuel argv me None clock = Some (es, Inl NullDeref) \<and>
    commands es = [register_process me (atoi (argv ! 1)) (atoi (argv ! 2))]"
  using assms by (simp add: userapp_main_def Let_def)

theorem userapp_open_fails_witness:
  "\<exists>es. userapp_main 1 [''userapp'', ''200'', ''100'', ''3''] 42 None seconds = Some (es, Inl NullDeref) \<and>
    length (commands es) = 1"
  using userapp_open_fails [of "[''userapp'', ''200'', ''100'', ''3'']" 1 42 seconds] by force

section \<open>The program in the module\<close>

text \<open>
  The program and the module together. On an idle module a process that
  echoes its registration, its first yield, one yield per period and its deregistration, each yield no later than
  one period after the deadline its timer was set to (a deadline of 0 counts as none), is admitted, is put to sleep by each yield, is
  made READY by its timer and woken with real-time priority by the dispatching thread in every period, and
  leaves the module as it was: no task, no utilisation, no current task, no lock held.
\<close>

theorem single_task_session:
  assumes "unlocked s" "task_list s = []" "dispatcher s"
    and "slab_object k = Some a" "pid_task k p = Some kt" "m = msecs_to_jiffies k per"
    and "per \<noteq> 0" "task_util (ucast proc) (ucast per) < MAX_UTIL" "in_time m (j0 + m) js"
  shows "\<exists>t. run_schedule (app_session k a p per proc j0 js) s = Some t \<and> unlocked t \<and> task_list t = [] \<and>
    total_util t = 0 \<and> ct t = None \<and>
    calls t = calls s @ [Set_task_state kt, Schedule] @ concat (replicate (length js)
      [Wake_up_process kt, Sched_setscheduler kt SCHED_FIFO 99, Set_task_state kt, Schedule])"
  using session_runs [OF assms(1-9)] unfolding period_calls_def .

theorem single_task_session_witness:
  "\<exists>t. run_schedule (app_session (example_kernel 1 0) 1 7 100 10 1000 [1150, 1290]) loaded = Some t \<and> unlocked t \<and>
    task_list t = [] \<and> length (calls t) = 10"
proof -
  have s: "unlocked loaded" "task_list loaded = []" "dispatcher loaded" "calls loaded = []"
    using loaded_unlocked by (simp_all add: loaded_def mp2_init_def mp2_static_def Task_init_def)
  have k: "slab_object (example_kernel 1 0) = Some 1" "pid_task (example_kernel 1 0) 7 = Some 7"
    "100 = msecs_to_jiffies (example_kernel 1 0) 100"
    by (simp_all add: example_kernel_def)
  have u: "(100 :: u32) \<noteq> 0" "task_util (ucast (10 :: u32)) (ucast (100 :: u32)) < MAX_UTIL"
    "in_time 100 (1000 + 100) [1150, 1290]"
    by (simp, code_simp, simp)
  obtain t where "run_schedule (app_session (example_kernel 1 0) 1 7 100 10 1000 [1150, 1290]) loaded = Some t"
    "unlocked t" "task_list t = []" "calls t = calls loaded @ [Set_task_state 7, Schedule] @ concat (replicate (length [1150, 1290 :: u64])
      [Wake_up_process 7, Sched_setscheduler 7 SCHED_FIFO 99, Set_task_state 7, Schedule])"
    using single_task_session [OF s(1-3) k u] by (elim exE conjE) (rule that)
  then show ?thesis using s(4) by (intro exI [of _ t]) simp
qed

end
