(* ===== verification/Mp2_Interleaving.thy ===== *)
theory Mp2_Interleaving
  imports Mp2_Safety
begin

text \<open>
  The operations of \<open>MP2/scheduler.c\<close> and the dispatching thread as threads that take turns. A thread is
  cut where it holds no lock: each critical section is one step, and outside of the sections so is each read and each write
  of \<open>total_util\<close>, which a registration tests, loads and stores without a lock. A thread keeps its local pointers and what it has
  loaded between its steps, so what it found in one step may be out of date in the next. The subtraction of a deregistration is a part of its
  critical section. A new object is allocated and filled in in one step, before its address is known to the others, and
  linked in another.
\<close>

section \<open>Threads\<close>

text \<open>
  The next step of a thread, with its local variables. Linking a node that is in the list already would corrupt the list. After its switch the dispatching thread goes to the head of its loop, where
  \<open>set_current_state(TASK_INTERRUPTIBLE)\<close> puts it to sleep: \<open>woken\<close> is whether it is in the state \<open>TASK_RUNNING\<close>, so that
  waking it up changes nothing while it is in a round.
\<close>

datatype mp2_thread =
    Check_pid u32 u64 u64
  | Admit u32 u64 u64
  | Load_util u32 u64 u64
  | Store_util u64 u32 u64 u64
  | Allocate u32 u64 u64
  | Link_task addr
  | Find_yield u32
  | Yield_task addr
  | Find_dereg u32
  | Dereg_task addr
  | Find_highest
  | Switch_to "addr option"
  | Finished int

definition find_yield_task :: "u32 \<Rightarrow> mp2_state \<Rightarrow> (addr option \<times> mp2_state) result" where
  "find_yield_task p s =
     rbind (lock_tl s) (\<lambda>s.
     rbind (find_last_pid (slab s) p None (task_list s)) (\<lambda>found. Inr (found, unlock_tl s)))"

definition find_dereg_task :: "u32 \<Rightarrow> mp2_state \<Rightarrow> (addr option \<times> mp2_state) result" where
  "find_dereg_task p s =
     rbind (lock_tl s) (\<lambda>s.
     rbind (find_pid (slab s) p (task_list s)) (\<lambda>found. Inr (found, unlock_tl s)))"

fun thread_step :: "mp2_kernel \<Rightarrow> mp2_thread \<Rightarrow> mp2_state \<Rightarrow> (mp2_thread \<times> mp2_state) result" where
  "thread_step k (Check_pid p per proc) s =
     rbind (register_check p s) (\<lambda>(exists, s). Inr (if exists then Finished (-1) else Admit p per proc, s))"
| "thread_step k (Admit p per proc) s =
     (if per = 0 then Inl DivideError
      else Inr (if MAX_UTIL \<le> total_util s + task_util proc per then Finished (-1) else Load_util p per proc, s))"
| "thread_step k (Load_util p per proc) s = Inr (Store_util (total_util s) p per proc, s)"
| "thread_step k (Store_util x p per proc) s =
     Inr (Allocate p per proc, s\<lparr>total_util := x + task_util proc per\<rparr>)"
| "thread_step k (Allocate p per proc) s =
     rbind (alloc_task (pid_task k) (slab_object k) p per proc s) (\<lambda>(a, s). Inr (Link_task a, s))"
| "thread_step k (Link_task a) s =
     (if a \<in> set (task_list s) then Inl ListCorrupt
      else rbind (link_task a s) (\<lambda>s. Inr (Finished 0, s)))"
| "thread_step k (Find_yield p) s =
     rbind (find_yield_task p s) (\<lambda>(found, s).
       Inr (case found of None \<Rightarrow> Finished (-1) | Some a \<Rightarrow> Yield_task a, s))"
| "thread_step k (Yield_task a) s =
     rbind (yeild_task_at (msecs_to_jiffies k) (jiffies k) a s) (\<lambda>(r, s). Inr (Finished r, s))"
| "thread_step k (Find_dereg p) s =
     rbind (find_dereg_task p s) (\<lambda>(found, s).
       Inr (case found of None \<Rightarrow> Finished (-1) | Some a \<Rightarrow> Dereg_task a, s))"
| "thread_step k (Dereg_task a) s =
     rbind (deregister_task_at a s) (\<lambda>(r, s). Inr (Finished r, s))"
| "thread_step k Find_highest s =
     rbind (Task_get_highest s) (\<lambda>(highest, s). Inr (Switch_to highest, s))"
| "thread_step k (Switch_to highest) s =
     rbind (dispatch_switch highest s) (\<lambda>s. Inr (Finished 0, s\<lparr>woken := False\<rparr>))"
| "thread_step k (Finished r) s = Inr (Finished r, s)"

text \<open>One thread alone, to its end; \<open>None\<close> is running out of fuel.\<close>

fun run_thread :: "nat \<Rightarrow> mp2_kernel \<Rightarrow> mp2_thread \<Rightarrow> mp2_state \<Rightarrow> (int \<times> mp2_state) result option" where
  "run_thread n k (Finished r) s = Some (Inr (r, s))"
| "run_thread 0 k th s = None"
| "run_thread (Suc n) k th s =
     (case thread_step k th s of Inl e \<Rightarrow> Some (Inl e) | Inr (th', s') \<Rightarrow> run_thread n k th' s')"

text \<open>The thread that a command of the status file starts.\<close>

definition thread_of :: "mp2_command \<Rightarrow> mp2_thread" where
  "thread_of cmd =
     (case cmd of
        Register p per proc \<Rightarrow> Check_pid p per proc
      | Yield p \<Rightarrow> Find_yield p
      | Deregister p \<Rightarrow> Find_dereg p
      | Ignored \<Rightarrow> Finished 0)"

section \<open>Threads that take turns\<close>

type_synonym par_state = "mp2_thread list \<times> mp2_state"

definition turn :: "mp2_kernel \<Rightarrow> nat \<Rightarrow> par_state \<Rightarrow> par_state result" where
  "turn k i c = (case c of (ts, s) \<Rightarrow> rbind (thread_step k (ts ! i) s) (\<lambda>(th, s). Inr (ts[i := th], s)))"

text \<open>A given order of turns.\<close>

fun turns :: "(mp2_kernel \<times> nat) list \<Rightarrow> par_state \<Rightarrow> par_state result" where
  "turns [] c = Inr c"
| "turns ((k, i) # xs) c = rbind (turn k i c) (turns xs)"

text \<open>A thread that allocates an object gets one that is not in use.\<close>

fun allocates :: "mp2_thread \<Rightarrow> bool" where
  "allocates (Allocate p per proc) = True"
| "allocates _ = False"

definition supplied :: "mp2_kernel \<Rightarrow> mp2_thread \<Rightarrow> mp2_state \<Rightarrow> bool" where
  "supplied k th s \<longleftrightarrow> (allocates th \<longrightarrow> fresh_object k s)"

lemma fresh_supplied [simp]: "fresh_object k s \<Longrightarrow> supplied k th s"
  by (simp add: supplied_def)

fun dispatching :: "mp2_thread \<Rightarrow> bool" where
  "dispatching Find_highest = True"
| "dispatching (Switch_to h) = True"
| "dispatching _ = False"

text \<open>
  The module with all its callers: a thread takes a turn, a process starts a new one, the
  dispatching thread, of which there is one, starts a round when it is woken, or a timer fires.
\<close>

inductive par_step :: "par_state \<Rightarrow> par_state \<Rightarrow> bool" where
  par_turn: "i < length ts \<Longrightarrow> supplied k (ts ! i) s \<Longrightarrow> turn k i (ts, s) = Inr c \<Longrightarrow> par_step (ts, s) c"
| par_call: "par_step (ts, s) (ts @ [thread_of cmd], s)"
| par_dispatch: "dispatcher s \<Longrightarrow> woken s \<Longrightarrow> \<forall>th\<in>set ts. \<not> dispatching th \<Longrightarrow>
    par_step (ts, s) (ts @ [Find_highest], s)"
| par_timer: "timer_pending a s \<Longrightarrow> fire_timer a s = Inr t \<Longrightarrow> par_step (ts, s) (ts, t)"

definition par_start :: "par_state \<Rightarrow> bool" where
  "par_start c \<longleftrightarrow> fst c = [] \<and> mp2_start (snd c)"

section \<open>One thread alone\<close>

lemma run_thread_step:
  "\<forall>r. th \<noteq> Finished r \<Longrightarrow> run_thread (Suc n) k th s =
     (case thread_step k th s of Inl e \<Rightarrow> Some (Inl e) | Inr (th', s') \<Rightarrow> run_thread n k th' s')"
  by (cases th) simp_all

text \<open>A thread that is not interrupted does what the operation does.\<close>

lemma rbind_case: "rbind m f = (case m of Inl e \<Rightarrow> Inl e | Inr x \<Rightarrow> f x)"
  by (cases m) simp_all

lemma run_register:
  assumes "\<forall>a. slab_object k = Some a \<longrightarrow> a \<notin> set (task_list s)"
  shows "run_thread (Suc (Suc (Suc (Suc (Suc (Suc n)))))) k (Check_pid p per proc) s =
    Some (Task_register (pid_task k) (slab_object k) p per proc s)"
proof -
  have same: "task_list t = task_list s" if "register_check p s = Inr (b, t)" for b t
    using that by (auto simp: register_check_def lock_defs result_simps split: if_splits)
  show ?thesis using assms
    by (auto simp: run_thread_step Task_register_def register_admit_def register_insert_def alloc_task_def put_task_def rbind_case
        split: sum.splits option.splits dest!: same)
qed

lemma run_yield:
  "run_thread (Suc (Suc n)) k (Find_yield p) s = Some (Task_yeild (msecs_to_jiffies k) (jiffies k) p s)"
  by (auto simp: run_thread_step Task_yeild_def find_yield_task_def rbind_case split: sum.splits option.splits)

lemma run_deregister: "run_thread (Suc (Suc n)) k (Find_dereg p) s = Some (Task_deregister p s)"
  by (auto simp: run_thread_step Task_deregister_def find_dereg_task_def rbind_case split: sum.splits option.splits)

lemma run_dispatch:
  "run_thread (Suc (Suc n)) k Find_highest s = Some (rbind (dispatch_body s) (\<lambda>t. Inr (0, t\<lparr>woken := False\<rparr>)))"
  by (auto simp: run_thread_step dispatch_body_def rbind_case split: sum.splits)

text \<open>
  The round neither reads nor writes the flag, so it is the same to clear it when the thread comes back to the head of
  its loop or, as \<open>dispaching_thread_function\<close> does for rounds that are not interrupted, when the next one starts.
\<close>

lemma preempt_frame: "preempt c (s\<lparr>woken := b\<rparr>) = rbind (preempt c s) (\<lambda>t. Inr (t\<lparr>woken := b\<rparr>))"
  by (simp add: preempt_def access_defs deref_def split: option.splits)

lemma run_task_frame: "run_task h (s\<lparr>woken := b\<rparr>) = rbind (run_task h s) (\<lambda>t. Inr (t\<lparr>woken := b\<rparr>))"
  by (simp add: run_task_def access_defs deref_def split: option.splits)

lemma above_frame: "ct_above c h (s\<lparr>woken := b\<rparr>) = ct_above c h s"
  by (simp add: ct_above_def)

lemma switch_frame:
  "dispatch_switch h (s\<lparr>woken := b\<rparr>) = rbind (dispatch_switch h s) (\<lambda>t. Inr (t\<lparr>woken := b\<rparr>))"
proof (cases "ct_lock s")
  case False
  define u where "u = s\<lparr>ct_lock := True\<rparr>"
  have lock: "lock_ct s = Inr u" "lock_ct (s\<lparr>woken := b\<rparr>) = Inr (u\<lparr>woken := b\<rparr>)" using False by (simp_all add: lock_ct_def u_def)
  have choose: "(case ct t of None \<Rightarrow> Inr (t\<lparr>woken := b\<rparr>)
        | Some c \<Rightarrow> rbind (ct_above c a (t\<lparr>woken := b\<rparr>)) (\<lambda>x. if x then preempt c (t\<lparr>woken := b\<rparr>) else Inr (t\<lparr>woken := b\<rparr>)))
      = rbind (case ct t of None \<Rightarrow> Inr t | Some c \<Rightarrow> rbind (ct_above c a t) (\<lambda>x. if x then preempt c t else Inr t))
          (\<lambda>t. Inr (t\<lparr>woken := b\<rparr>))" for a t
    by (cases "ct t") (auto simp: preempt_frame above_frame rbind_case split: sum.splits)
  have start: "(case ct t of None \<Rightarrow> run_task a (t\<lparr>woken := b\<rparr>)
        | Some c \<Rightarrow> rbind (ct_above c a (t\<lparr>woken := b\<rparr>)) (\<lambda>x. if x then run_task a (t\<lparr>woken := b\<rparr>) else Inr (t\<lparr>woken := b\<rparr>)))
      = rbind (case ct t of None \<Rightarrow> run_task a t | Some c \<Rightarrow> rbind (ct_above c a t) (\<lambda>x. if x then run_task a t else Inr t))
          (\<lambda>t. Inr (t\<lparr>woken := b\<rparr>))" for a t
    by (cases "ct t") (auto simp: run_task_frame above_frame rbind_case split: sum.splits)
  have ct: "ct (t\<lparr>woken := b\<rparr>) = ct t" for t by simp
  have unlock: "unlock_ct (t\<lparr>woken := b\<rparr>) = (unlock_ct t)\<lparr>woken := b\<rparr>" for t by (simp add: unlock_ct_def)
  show ?thesis
  proof (cases h)
    case None
    then show ?thesis unfolding dispatch_switch_def lock rbind.simps
      by (cases "ct u") (simp_all add: preempt_frame unlock rbind_assoc)
  next
    case (Some a)
    show ?thesis unfolding dispatch_switch_def lock rbind.simps Some option.case ct choose rbind_assoc
      by (rule rbind_cong [OF refl]) (simp only: rbind.simps ct start unlock rbind_assoc)
  qed
qed (simp add: dispatch_switch_def lock_ct_def)

lemma body_frame: "dispatch_body (s\<lparr>woken := b\<rparr>) = rbind (dispatch_body s) (\<lambda>t. Inr (t\<lparr>woken := b\<rparr>))"
proof (cases "tl_lock s")
  case False
  have "s\<lparr>woken := b, tl_lock := False\<rparr> = s\<lparr>woken := b\<rparr>" "s\<lparr>tl_lock := False\<rparr> = s" using False by (cases s; simp)+
  then have "Task_get_highest t = rbind (highest_loop (slab s) None (task_list s)) (\<lambda>h. Inr (h, t))"
    if "t \<in> {s, s\<lparr>woken := b\<rparr>}" for t
    using that False by (auto simp: Task_get_highest_def lock_defs)
  then show ?thesis by (auto simp: dispatch_body_def rbind_assoc switch_frame intro!: rbind_cong)
qed (simp add: dispatch_body_def)

lemma run_dispatcher:
  "run_thread (Suc (Suc n)) k Find_highest s = Some (rbind (dispaching_thread_function 1 s) (\<lambda>t. Inr (0, t)))"
  unfolding run_dispatch by (simp add: body_frame rbind_assoc)

end
