(* ===== verification/Mp2_Races.thy ===== *)
theory Mp2_Races
  imports Mp2_Interleaving
begin

text \<open>
  What holds of the scheduler in every interleaving of its threads: the list keeps distinct, live objects. As long as
  nobody deregisters, \<open>ct\<close> points into the list as well, no freed object is read, and \<open>total_util\<close> counts at most the utility of
  the listed tasks and of the registrations under way; it may count less, since updates are lost. Two listed tasks of one pid, utilities above the limit,
  lost updates and reads of freed objects are the interleavings' own; the last need a deregistration.
\<close>

section \<open>The invariant of all interleavings\<close>

definition list_live :: "mp2_state \<Rightarrow> bool" where
  "list_live s \<longleftrightarrow> distinct (task_list s) \<and> set (task_list s) \<subseteq> dom (slab s) \<and>
     (\<forall>a t. slab s a = Some t \<longrightarrow> task_ok t)"

definition weak_inv :: "mp2_state \<Rightarrow> bool" where
  "weak_inv s \<longleftrightarrow> list_live s \<and> \<not> ct_lock s \<and> \<not> spin_held s"

fun thread_ok :: "mp2_thread \<Rightarrow> bool" where
  "thread_ok (Load_util p per proc) = (per \<noteq> 0)"
| "thread_ok (Store_util x p per proc) = (per \<noteq> 0)"
| "thread_ok (Allocate p per proc) = (per \<noteq> 0)"
| "thread_ok _ = True"

definition par_inv :: "par_state \<Rightarrow> bool" where
  "par_inv c \<longleftrightarrow> weak_inv (snd c) \<and> (\<forall>th\<in>set (fst c). thread_ok th)"

lemmas weak_defs = weak_inv_def list_live_def

lemma weak_live: "weak_inv s \<Longrightarrow> live (slab s) (task_list s)"
  by (auto simp: weak_defs live_def)

lemma weak_at: "weak_inv s \<Longrightarrow> a \<in> set (task_list s) \<Longrightarrow> \<exists>t. slab s a = Some t \<and> task_ok t"
  unfolding weak_defs by blast

lemma weak_dead: "weak_inv s \<Longrightarrow> slab s a = None \<Longrightarrow> a \<notin> set (task_list s)"
  unfolding weak_defs by blast

lemma weak_ok: "weak_inv s \<Longrightarrow> slab s a = Some t \<Longrightarrow> task_ok t"
  unfolding weak_defs by blast

text \<open>A step that changes tasks in place, but neither the list nor what admission counted.\<close>

definition kept :: "mp2_state \<Rightarrow> mp2_state \<Rightarrow> bool" where
  "kept s t \<longleftrightarrow> task_list t = task_list s \<and> total_util t = total_util s \<and> dom (slab t) = dom (slab s) \<and>
     (\<forall>a u. slab s a = Some u \<longrightarrow> (\<exists>v. slab t a = Some v \<and> pid v = pid u \<and> period v = period u \<and>
        proc_time v = proc_time u \<and> (task_ok u \<longrightarrow> task_ok v)))"

lemma kept_refl [simp]: "kept s s"
  by (simp add: kept_def)

lemma kept_trans: "kept r s \<Longrightarrow> kept s t \<Longrightarrow> kept r t"
  unfolding kept_def by (metis (no_types, lifting))

lemma kept_slab:
  "task_list t = task_list s \<Longrightarrow> total_util t = total_util s \<Longrightarrow> slab t = slab s \<Longrightarrow> kept s t"
  by (simp add: kept_def)

lemma kept_put:
  assumes "task_list t = task_list s" "total_util t = total_util s" "slab s a = Some u" "slab t = (slab s)(a \<mapsto> v)"
    "pid v = pid u" "period v = period u" "proc_time v = proc_time u" "task_ok u \<Longrightarrow> task_ok v"
  shows "kept s t"
  using assms by (auto simp: kept_def)

lemma kept_list_live: "kept s t \<Longrightarrow> list_live s \<Longrightarrow> list_live t"
  unfolding kept_def list_live_def by (metis domIff option.distinct(1) option.exhaust option.inject)

section \<open>Sections that change tasks in place\<close>

text \<open>The state after such a section.\<close>

definition in_place :: "mp2_state \<Rightarrow> mp2_state \<Rightarrow> bool" where
  "in_place s t \<longleftrightarrow> weak_inv t \<and> kept s t"

lemma in_placeI:
  assumes "kept s t" "weak_inv s" "\<not> ct_lock t" "\<not> spin_held t"
  shows "in_place s t"
  using assms kept_list_live by (simp add: in_place_def weak_inv_def)

lemma in_place_frame [simp]: "in_place s (t\<lparr>woken := b\<rparr>) = in_place s t"
  by (simp add: in_place_def weak_defs kept_def)

lemma in_place_refl: "weak_inv s \<Longrightarrow> in_place s s"
  by (simp add: in_place_def)

lemma in_place_lock: "weak_inv s \<Longrightarrow> in_place s (s\<lparr>tl_lock := True\<rparr>)"
  by (rule in_placeI) (auto intro: kept_slab simp: weak_inv_def)

text \<open>What the parts of a switch of the dispatching thread do.\<close>

definition switched :: "mp2_state \<Rightarrow> mp2_state \<Rightarrow> bool" where
  "switched s t \<longleftrightarrow> kept s t \<and> ct_lock t = ct_lock s \<and> spin_held t = spin_held s"

lemma switched_trans: "switched r s \<Longrightarrow> switched s t \<Longrightarrow> switched r t"
  unfolding switched_def using kept_trans by metis

lemma preempt_switched: "preempt c s = Inr t \<Longrightarrow> switched s t \<and> ct t = ct s"
  by (auto simp: preempt_Inr switched_def task_ok_def intro!: kept_put)

lemma run_task_switched: "run_task h s = Inr t \<Longrightarrow> switched s t \<and> ct t = Some h"
  by (auto simp: run_task_Inr switched_def task_ok_def intro!: kept_put)

lemma switched_refl [simp]: "switched s s"
  by (simp add: switched_def)

lemma preempt_current:
  assumes "(case ct s of None \<Rightarrow> Inr s | Some c \<Rightarrow> rbind (f c) (\<lambda>b. if b then preempt c s else Inr s)) = Inr t"
  shows "switched s t \<and> ct t = ct s"
  using assms preempt_switched by (auto simp: result_simps split: option.splits if_splits)

lemma run_chosen:
  assumes "(case ct s of None \<Rightarrow> run_task a s | Some c \<Rightarrow> rbind (f c) (\<lambda>b. if b then run_task a s else Inr s)) = Inr t"
  shows "switched s t \<and> (ct t = ct s \<or> ct t = Some a)"
  using assms run_task_switched by (auto simp: result_simps split: option.splits if_splits)

lemma dispatch_switch_in_place:
  assumes inv: "weak_inv s" and t: "dispatch_switch h s = Inr t"
  shows "in_place s t" "ct t = ct s \<or> ct t = h \<and> h \<noteq> None"
proof -
  let ?s = "s\<lparr>ct_lock := True\<rparr>"
  have "\<exists>u. switched ?s u \<and> (ct u = ct s \<or> ct u = h \<and> h \<noteq> None) \<and> t = unlock_ct u"
  proof (cases h)
    case None
    then obtain u where u: "(case ct ?s of None \<Rightarrow> Inr ?s | Some c \<Rightarrow> preempt c ?s) = Inr u" "t = unlock_ct u"
      using t inv by (auto simp: dispatch_switch_def lock_ct_def result_simps weak_inv_def)
    then have "switched ?s u \<and> ct u = ct s"
      using preempt_switched by (auto split: option.splits)
    then show ?thesis using u(2) by blast
  next
    case (Some a)
    then obtain v u where v: "(case ct ?s of None \<Rightarrow> Inr ?s
          | Some c \<Rightarrow> rbind (ct_above c a ?s) (\<lambda>b. if b then preempt c ?s else Inr ?s)) = Inr v"
      and u: "(case ct v of None \<Rightarrow> run_task a v
          | Some c \<Rightarrow> rbind (ct_above c a v) (\<lambda>b. if b then run_task a v else Inr v)) = Inr u" "t = unlock_ct u"
      using t inv unfolding dispatch_switch_def lock_ct_def
      by (auto simp only: rbind.simps rbind_eq_Inr option.case weak_inv_def if_False sum.inject)
    from preempt_current [OF v] run_chosen [OF u(1)] have "switched ?s u" "ct u = ct s \<or> ct u = Some a"
      using switched_trans by auto
    then show ?thesis using u(2) Some by auto
  qed
  then obtain u where u: "switched ?s u" "ct u = ct s \<or> ct u = h \<and> h \<noteq> None" "t = u\<lparr>ct_lock := False\<rparr>"
    by (auto simp: unlock_ct_def)
  have "kept s ?s" "kept u t" unfolding u(3) by (simp_all add: kept_slab)
  then have "kept s t" using u(1) kept_trans unfolding switched_def by metis
  then show "in_place s t" using inv u(1,3) by (intro in_placeI) (auto simp: weak_inv_def switched_def)
  show "ct t = ct s \<or> ct t = h \<and> h \<noteq> None" using u(2,3) by simp
qed

lemma yeild_task_at_in_place:
  assumes inv: "weak_inv s" and t: "yeild_task_at m2j j a s = Inr (r, t)"
  shows "in_place s t" "ct t = ct s \<or> ct t = None"
proof -
  obtain u where u: "slab s a = Some u" using t by (auto simp: yeild_task_at_def lock_defs result_simps split: if_splits)
  let ?miss = "s\<lparr>tl_lock := True, slab := (slab s)(a \<mapsto> u\<lparr>next_ddl := next_deadline m2j j u\<rparr>)\<rparr>"
  have miss: "in_place s ?miss"
  proof -
    have k: "kept s ?miss" by (rule kept_put [of _ _ a u "u\<lparr>next_ddl := next_deadline m2j j u\<rparr>"]) (simp_all add: u task_ok_def)
    show ?thesis by (rule in_placeI [OF k inv]) (use inv in \<open>simp_all add: weak_inv_def\<close>)
  qed
  let ?slept = "\<lambda>cs. s\<lparr>slab := (slab s)(a \<mapsto> slept m2j j u), calls := cs, ct := None, tl_lock := False,
      ct_lock := False, woken := True\<rparr>"
  have slept: "in_place s (?slept cs)" for cs
  proof -
    have k: "kept s (?slept cs)" by (rule kept_put [of _ _ a u "slept m2j j u"]) (simp_all add: u task_ok_def slept_def)
    show ?thesis by (rule in_placeI [OF k inv]) (use inv in \<open>simp_all add: weak_inv_def\<close>)
  qed
  have "t = ?miss \<or> (\<exists>cs. t = ?slept cs)"
    using u t inv unfolding yeild_task_at_def
    by (auto simp: lock_defs access_defs Let_def weak_inv_def slept_def split: option.splits if_splits)
  then show "in_place s t" "ct t = ct s \<or> ct t = None" using miss slept by auto
qed

lemma fire_timer_in_place:
  assumes inv: "weak_inv s" and a: "timer_pending a s" and t: "fire_timer a s = Inr t"
  shows "in_place s t" "ct t = ct s"
proof -
  obtain u where u: "slab s a = Some u" using weak_at [OF inv] a by (auto simp: timer_pending_def)
  let ?h = "(slab s)(a \<mapsto> u\<lparr>timer := (timer u)\<lparr>expires := None\<rparr>\<rparr>)"
  have live: "live ?h (task_list s)" using weak_live [OF inv] by simp
  have d: "distinct (task_list s)" using inv by (simp add: weak_defs)
  let ?d = "tdata (timer u)"
  have "t = s\<lparr>slab := mark_ready ?d ?h (task_list s), spin_held := False, woken := True\<rparr>"
    using t u inv by (simp add: fire_timer_def mp2_timer_callback_def put_task_def wake_dispatcher_def
        callback_loop_live [OF d live] weak_inv_def)
  moreover have "kept s (s\<lparr>slab := mark_ready ?d ?h (task_list s), spin_held := False, woken := True\<rparr>)"
  proof -
    have "kept s (s\<lparr>slab := ?h\<rparr>)" by (rule kept_put [of _ _ a u "u\<lparr>timer := (timer u)\<lparr>expires := None\<rparr>\<rparr>"]) (simp_all add: u task_ok_def)
    moreover have "kept (s\<lparr>slab := ?h\<rparr>) (s\<lparr>slab := mark_ready ?d ?h (task_list s), spin_held := False, woken := True\<rparr>)"
      unfolding kept_def using dom_mark_ready [OF live] live by (auto simp: mark_ready_def live_def task_ok_def)
    ultimately show ?thesis by (rule kept_trans)
  qed
  ultimately have k: "kept s t" and f: "ct t = ct s" "ct_lock t = ct_lock s" "\<not> spin_held t" by simp_all
  then show "in_place s t" "ct t = ct s" using inv by (auto intro!: in_placeI [OF k inv] simp: weak_inv_def)
qed

section \<open>Sections that change the list\<close>

lemma deregister_task_at_weak:
  assumes "\<not> ct_lock s" "slab s a = Some u" "task_ok u"
  shows "deregister_task_at a s = (if tl_lock s then Inl Deadlock else Inr (0, deregistered a s))"
  using assms
  by (cases s) (auto simp: deregister_task_at_def drop_current_def lock_defs wake_dispatcher_def deregistered_def task_at_def task_ok_def)

lemma deregister_task_at_live:
  assumes inv: "weak_inv s" and t: "deregister_task_at a s = Inr (r, t)"
  shows "slab s a \<noteq> None \<and> t = deregistered a s"
proof -
  obtain u where u: "slab s a = Some u"
    using t by (auto simp: deregister_task_at_def drop_current_def lock_defs wake_dispatcher_def result_simps split: if_splits)
  have "\<not> ct_lock s" using inv by (simp add: weak_inv_def)
  from deregister_task_at_weak [OF this u weak_ok [OF inv u]] show ?thesis using t u by (simp split: if_splits)
qed

lemma weak_deregistered: "weak_inv s \<Longrightarrow> weak_inv (deregistered a s)"
  by (auto simp: weak_defs deregistered_def dest: notin_set_remove1)

text \<open>The address that a registration gets, and its place at the end of the list.\<close>

lemma alloc_task_Inr:
  "alloc_task f new p per proc s = Inr (a, t) \<longleftrightarrow>
   new = Some a \<and> t = s\<lparr>slab := (slab s)(a \<mapsto> new_task (find_task_by_pid f p) p per proc)\<rparr>"
  by (auto simp: alloc_task_def put_task_def split: option.splits)

lemma link_task_Inr:
  "link_task a s = Inr t \<longleftrightarrow> \<not> tl_lock s \<and> slab s a \<noteq> None \<and> t = s\<lparr>task_list := task_list s @ [a]\<rparr>"
  by (auto simp: link_task_def lock_defs result_simps)

lemma weak_allocated: "weak_inv s \<Longrightarrow> task_ok t \<Longrightarrow> weak_inv (s\<lparr>slab := (slab s)(a \<mapsto> t)\<rparr>)"
  by (auto simp: weak_defs)

lemma weak_linked:
  "weak_inv s \<Longrightarrow> slab s a \<noteq> None \<Longrightarrow> a \<notin> set (task_list s) \<Longrightarrow> weak_inv (s\<lparr>task_list := task_list s @ [a]\<rparr>)"
  by (auto simp: weak_defs)

lemma new_task_ok: "per \<noteq> 0 \<Longrightarrow> task_ok (new_task k p per proc)"
  by (simp add: new_task_def task_ok_def)

section \<open>Searches\<close>

lemma find_tasks_weak:
  assumes inv: "weak_inv s"
  shows "ends (find_yield_task p s) {Deadlock} (\<lambda>(f, t). t = s \<and> (\<forall>a. f = Some a \<longrightarrow> a \<in> set (task_list s)))"
    and "ends (find_dereg_task p s) {Deadlock} (\<lambda>(f, t). t = s \<and> (\<forall>a. f = Some a \<longrightarrow> a \<in> set (task_list s)))"
    and "ends (Task_get_highest s) {Deadlock} (\<lambda>(f, t). t = s \<and> (\<forall>a. f = Some a \<longrightarrow> a \<in> set (task_list s)))"
    and "ends (register_check p s) {Deadlock} (\<lambda>(b, t). t = s \<or> t = s\<lparr>tl_lock := True\<rparr>)"
proof -
  note live = weak_live [OF inv]
  have l: "last (x # xs) \<in> set (task_list s)" if "filter P (task_list s) = x # xs" for x xs P
    using that by (metis filter_is_subset last_in_set list.distinct(1) subsetD)
  show "ends (find_yield_task p s) {Deadlock} (\<lambda>(f, t). t = s \<and> (\<forall>a. f = Some a \<longrightarrow> a \<in> set (task_list s)))"
    using l [of "\<lambda>a. pid (the (slab s a)) = p"]
    by (auto simp: find_yield_task_def lock_defs find_last_pid_live [OF live] simp del: last.simps split: list.splits)
  show "ends (find_dereg_task p s) {Deadlock} (\<lambda>(f, t). t = s \<and> (\<forall>a. f = Some a \<longrightarrow> a \<in> set (task_list s)))"
    by (auto simp: find_dereg_task_def lock_defs find_pid_live [OF live] dest: find_Some_set)
  show "ends (Task_get_highest s) {Deadlock} (\<lambda>(f, t). t = s \<and> (\<forall>a. f = Some a \<longrightarrow> a \<in> set (task_list s)))"
    using highest_loop_None [OF live] first_least_member
    by (auto simp: Task_get_highest_def lock_defs)
  show "ends (register_check p s) {Deadlock} (\<lambda>(b, t). t = s \<or> t = s\<lparr>tl_lock := True\<rparr>)"
    by (auto simp: register_check_def lock_defs find_pid_live [OF live])
qed

section \<open>Every step keeps the invariant\<close>

lemma thread_step_keeps:
  assumes inv: "weak_inv s" and ok: "thread_ok th" and step: "thread_step k th s = Inr (th', t)"
  shows "weak_inv t \<and> thread_ok th'"
proof -
  note search = find_tasks_weak [OF inv]
  show ?thesis
  proof (cases th)
    case (Check_pid p per proc)
    then show ?thesis using step ends_Inr [OF search(4)] in_place_lock [OF inv] inv
      by (fastforce simp: result_simps in_place_def)
  next
    case (Allocate p per proc)
    then show ?thesis using step weak_allocated [OF inv new_task_ok] ok by (auto simp: result_simps alloc_task_Inr)
  next
    case (Link_task a)
    then show ?thesis using step weak_linked [OF inv] by (auto simp: result_simps link_task_Inr split: if_splits)
  next
    case (Find_yield p)
    then show ?thesis using step ends_Inr [OF search(1)] inv by (fastforce simp: result_simps split: option.splits)
  next
    case (Yield_task a)
    then show ?thesis using step yeild_task_at_in_place(1) [OF inv] by (auto simp: result_simps in_place_def)
  next
    case (Find_dereg p)
    then show ?thesis using step ends_Inr [OF search(2)] inv by (fastforce simp: result_simps split: option.splits)
  next
    case (Dereg_task a)
    then show ?thesis using step deregister_task_at_live [OF inv] weak_deregistered [OF inv] by (auto simp: result_simps)
  next
    case Find_highest
    then show ?thesis using step ends_Inr [OF search(3)] inv by (fastforce simp: result_simps)
  next
    case (Switch_to h)
    then obtain u where "th' = Finished 0" "dispatch_switch h s = Inr u" "t = u\<lparr>woken := False\<rparr>"
      using step by (auto simp: result_simps)
    moreover have "in_place s (u\<lparr>woken := False\<rparr>)" using dispatch_switch_in_place(1) [OF inv calculation(2)] by simp
    ultimately show ?thesis by (simp add: in_place_def)
  qed (use step inv ok in \<open>auto simp: weak_defs split: if_splits\<close>)
qed

lemma turn_keeps:
  assumes inv: "par_inv (ts, s)" and i: "i < length ts" and t: "turn k i (ts, s) = Inr c"
  shows "par_inv c"
proof -
  obtain th' t' where step: "thread_step k (ts ! i) s = Inr (th', t')" and c: "c = (ts[i := th'], t')"
    using t by (auto simp: turn_def result_simps)
  have ok: "weak_inv s" "thread_ok (ts ! i)" using inv i by (auto simp: par_inv_def)
  show ?thesis using thread_step_keeps [OF ok step] inv
    by (auto simp: par_inv_def c dest!: set_update_subset_insert [THEN subsetD])
qed

lemma par_step_keeps:
  assumes "par_step c d" "par_inv c"
  shows "par_inv d"
  using assms
proof (induction rule: par_step.induct)
  case (par_turn i ts k s c)
  then show ?case using turn_keeps by blast
next
  case (par_call ts s cmd)
  then show ?case by (cases cmd) (auto simp: par_inv_def thread_of_def)
next
  case (par_dispatch s ts)
  then show ?case by (auto simp: par_inv_def weak_defs)
next
  case (par_timer a s t ts)
  then show ?case using fire_timer_in_place(1) [of s a t] by (auto simp: par_inv_def in_place_def)
qed

lemma par_start_inv: "par_start c \<Longrightarrow> par_inv c"
  by (cases c) (auto simp: par_start_def mp2_start_def mp2_init_def Task_init_def mp2_static_def par_inv_def weak_defs)

interpretation par: inductive_invariant par_start par_step par_inv
  by unfold_locales (auto intro: par_start_inv par_step_keeps)

section \<open>Without deregistration\<close>

text \<open>The task a thread holds a pointer to between its sections, and the object it is about to link.\<close>

fun target :: "mp2_thread \<Rightarrow> addr option" where
  "target (Yield_task a) = Some a"
| "target (Dereg_task a) = Some a"
| "target (Switch_to h) = h"
| "target _ = None"

fun linking :: "mp2_thread \<Rightarrow> addr option" where
  "linking (Link_task a) = Some a"
| "linking _ = None"

fun deregisters :: "mp2_thread \<Rightarrow> bool" where
  "deregisters (Find_dereg p) = True"
| "deregisters (Dereg_task a) = True"
| "deregisters _ = False"

text \<open>A thread that has not begun or has ended: it holds neither pointers nor values it has loaded.\<close>

fun at_rest :: "mp2_thread \<Rightarrow> bool" where
  "at_rest (Check_pid p per proc) = True"
| "at_rest (Find_yield p) = True"
| "at_rest Find_highest = True"
| "at_rest (Finished r) = True"
| "at_rest _ = False"

definition calm_thread :: "mp2_state \<Rightarrow> mp2_thread \<Rightarrow> bool" where
  "calm_thread s th \<longleftrightarrow> \<not> deregisters th \<and> (\<forall>a. target th = Some a \<longrightarrow> a \<in> set (task_list s)) \<and>
     (\<forall>a. linking th = Some a \<longrightarrow> slab s a \<noteq> None \<and> a \<notin> set (task_list s))"

definition calm :: "par_state \<Rightarrow> bool" where
  "calm c \<longleftrightarrow> ct_ok (snd c) \<and> (\<forall>i<length (fst c). calm_thread (snd c) (fst c ! i)) \<and>
     (\<forall>i<length (fst c). \<forall>j<length (fst c). \<forall>a. linking (fst c ! i) = Some a \<and> linking (fst c ! j) = Some a \<longrightarrow> i = j)"

text \<open>
  The utility of the listed tasks, that of the registrations which have stored it and not yet linked their task, and what a thread
  has loaded to add its utility to; as numbers, which do not wrap.
\<close>

definition util_at :: "slab \<Rightarrow> addr \<Rightarrow> nat" where
  "util_at h a = unat (task_util (proc_time (the (h a))) (period (the (h a))))"

definition listed_util :: "mp2_state \<Rightarrow> nat" where
  "listed_util s = sum_list (map (util_at (slab s)) (task_list s))"

fun reserved :: "slab \<Rightarrow> mp2_thread \<Rightarrow> nat" where
  "reserved h (Allocate p per proc) = unat (task_util proc per)"
| "reserved h (Link_task a) = util_at h a"
| "reserved h _ = 0"

fun loaded_util :: "mp2_thread \<Rightarrow> nat" where
  "loaded_util (Store_util x p per proc) = unat x"
| "loaded_util _ = 0"

definition real_util :: "par_state \<Rightarrow> nat" where
  "real_util c = listed_util (snd c) + sum_list (map (reserved (slab (snd c))) (fst c))"

definition counted :: "par_state \<Rightarrow> bool" where
  "counted c \<longleftrightarrow> unat (total_util (snd c)) \<le> real_util c \<and> (\<forall>th\<in>set (fst c). loaded_util th \<le> real_util c)"

subsection \<open>One thread\<close>

definition grows :: "mp2_state \<Rightarrow> mp2_state \<Rightarrow> bool" where
  "grows s t \<longleftrightarrow> set (task_list s) \<subseteq> set (task_list t) \<and>
     (\<forall>a. slab s a \<noteq> None \<longrightarrow> slab t a \<noteq> None \<and> util_at (slab t) a = util_at (slab s) a)"

text \<open>What is counted beside a thread is at most the real utility, \<open>n\<close> of which belongs to the others.\<close>

definition counts :: "nat \<Rightarrow> mp2_thread \<Rightarrow> mp2_state \<Rightarrow> bool" where
  "counts n th s \<longleftrightarrow> unat (total_util s) \<le> listed_util s + reserved (slab s) th + n \<and>
     loaded_util th \<le> listed_util s + reserved (slab s) th + n"

definition calm_step :: "mp2_thread \<Rightarrow> mp2_state \<Rightarrow> mp2_thread \<Rightarrow> mp2_state \<Rightarrow> bool" where
  "calm_step th s th' t \<longleftrightarrow> ct_ok t \<and> grows s t \<and> calm_thread t th' \<and>
     (\<forall>a\<in>set (task_list t). a \<in> set (task_list s) \<or> linking th = Some a) \<and>
     (\<forall>a. linking th' = Some a \<longrightarrow> slab s a = None) \<and>
     listed_util s + reserved (slab s) th \<le> listed_util t + reserved (slab t) th' \<and>
     (\<forall>n. counts n th s \<longrightarrow> counts n th' t)"

lemma grows_refl [simp]: "grows s s"
  by (simp add: grows_def)

lemma kept_util_at: "kept s t \<Longrightarrow> slab s a \<noteq> None \<Longrightarrow> slab t a \<noteq> None \<and> util_at (slab t) a = util_at (slab s) a"
  by (fastforce simp: kept_def util_at_def)

lemma kept_grows: "kept s t \<Longrightarrow> grows s t"
  using kept_util_at by (auto simp: grows_def kept_def)

lemma listed_util_same:
  "task_list t = task_list s \<Longrightarrow> grows s t \<Longrightarrow> weak_inv s \<Longrightarrow> listed_util t = listed_util s"
  using weak_at unfolding listed_util_def grows_def by (metis (mono_tags, lifting) map_eq_conv option.distinct(1))

text \<open>Steps that leave the list and what is counted alone.\<close>

lemma calm_in_place:
  assumes "weak_inv s" "in_place s t" "ct_ok t" "calm_thread t th'" "\<And>h. reserved h th = 0" "\<And>h. reserved h th' = 0"
    "linking th' = None" "loaded_util th' \<le> unat (total_util s)"
  shows "calm_step th s th' t"
proof -
  have k: "kept s t" using assms(2) by (simp add: in_place_def)
  have l: "task_list t = task_list s" "total_util t = total_util s" using k by (simp_all add: kept_def)
  note u = listed_util_same [OF l(1) kept_grows [OF k] assms(1)]
  show ?thesis using assms kept_grows [OF k] l u by (auto simp: calm_step_def counts_def)
qed

lemma calm_same:
  "weak_inv s \<Longrightarrow> ct_ok s \<Longrightarrow> calm_thread s th' \<Longrightarrow> (\<And>h. reserved h th = 0) \<Longrightarrow> (\<And>h. reserved h th' = 0) \<Longrightarrow>
   linking th' = None \<Longrightarrow> loaded_util th' \<le> unat (total_util s) \<Longrightarrow> calm_step th s th' s"
  by (rule calm_in_place) (auto intro: in_place_refl)

lemma in_place_ct: "in_place s t \<Longrightarrow> ct_ok s \<Longrightarrow> ct t = ct s \<or> ct t = None \<Longrightarrow> ct_ok t"
  by (auto simp: in_place_def kept_def ct_ok_def)

text \<open>The three steps of a registration that count.\<close>

lemma calm_store:
  assumes "weak_inv s" "ct_ok s"
  shows "calm_step (Store_util x p per proc) s (Allocate p per proc) (s\<lparr>total_util := x + task_util proc per\<rparr>)"
proof -
  have u: "listed_util (s\<lparr>total_util := y\<rparr>) = listed_util s" for y by (simp add: listed_util_def)
  have "unat (x + task_util proc per) \<le> unat x + unat (task_util proc per)" by (simp add: unat_word_ariths)
  then show ?thesis using assms by (auto simp: calm_step_def counts_def grows_def calm_thread_def ct_ok_def u)
qed

lemma calm_allocate:
  fixes k p per proc
  assumes "weak_inv s" "ct_ok s" "slab s a = None"
  defines "t \<equiv> s\<lparr>slab := (slab s)(a \<mapsto> new_task k p per proc)\<rparr>"
  shows "calm_step (Allocate p per proc) s (Link_task a) t"
proof -
  have g: "grows s t" using assms(3) by (auto simp: grows_def t_def util_at_def)
  have u: "listed_util t = listed_util s" by (rule listed_util_same [OF _ g assms(1)]) (simp add: t_def)
  have r: "util_at (slab t) a = unat (task_util proc per)" by (simp add: t_def util_at_def new_task_def)
  have "ct_ok t" "total_util t = total_util s" "task_list t = task_list s" "slab t a \<noteq> None"
    using assms(2) by (simp_all add: t_def ct_ok_def)
  moreover have "a \<notin> set (task_list s)" using weak_dead assms(1,3) by blast
  ultimately show ?thesis using g u r assms(3) by (auto simp: calm_step_def counts_def calm_thread_def)
qed

lemma calm_link:
  assumes "weak_inv s" "ct_ok s" "slab s a \<noteq> None" "a \<notin> set (task_list s)"
  shows "calm_step (Link_task a) s (Finished 0) (s\<lparr>task_list := task_list s @ [a]\<rparr>)"
  using assms by (auto simp: calm_step_def counts_def calm_thread_def grows_def ct_ok_def listed_util_def)

text \<open>The sections, which find what they need.\<close>

lemma preempt_ends_weak: "slab s c \<noteq> None \<Longrightarrow> ends (preempt c s) {NullDeref} (\<lambda>t. preempt c s = Inr t)"
  by (auto simp: preempt_def access_defs split: option.splits)

lemma run_task_ends_weak: "slab s a \<noteq> None \<Longrightarrow> ends (run_task a s) {NullDeref} (\<lambda>t. True)"
  by (auto simp: run_task_def access_defs split: option.splits)

lemma dispatch_switch_calm:
  assumes inv: "weak_inv s" and ct: "ct_ok s" and h: "\<And>a. h = Some a \<Longrightarrow> a \<in> set (task_list s)"
  shows "ends (dispatch_switch h s) {NullDeref} (\<lambda>t. True)"
proof -
  let ?s = "s\<lparr>ct_lock := True\<rparr>"
  have free: "\<not> ct_lock s" using inv by (simp add: weak_inv_def)
  have ct_live: "slab s c \<noteq> None" if "ct s = Some c" for c using weak_at [OF inv] ct that by (fastforce simp: ct_ok_def)
  show ?thesis
  proof (cases h)
    case None
    have "ends (preempt c ?s) {NullDeref} (\<lambda>t. True)" if "ct s = Some c" for c
      using preempt_ends_weak [of ?s c] ct_live [OF that] by (auto elim: ends_mono)
    then show ?thesis using None free
      by (auto simp: dispatch_switch_def lock_ct_def intro!: ends_rbind [where P = "\<lambda>t. True"] split: option.splits)
  next
    case (Some a)
    have a: "slab s a \<noteq> None" using weak_at [OF inv h [OF Some]] by blast
    have first: "ends (case ct ?s of None \<Rightarrow> Inr ?s
          | Some c \<Rightarrow> rbind (ct_above c a ?s) (\<lambda>b. if b then preempt c ?s else Inr ?s)) {NullDeref}
        (\<lambda>t. switched ?s t \<and> ct t = ct s)"
    proof (cases "ct s")
      case (Some c)
      obtain u v where u: "slab s a = Some u" "slab s c = Some v" using a ct_live [OF Some] by blast
      have "ends (preempt c ?s) {NullDeref} (\<lambda>t. switched ?s t \<and> ct t = ct s)"
        using preempt_ends_weak [of ?s c] preempt_switched [of c ?s] u(2) by (auto elim: ends_mono)
      then show ?thesis using u Some by (simp add: ct_above_eq)
    qed simp
    have second: "ends (case ct t of None \<Rightarrow> run_task a t
          | Some c \<Rightarrow> rbind (ct_above c a t) (\<lambda>b. if b then run_task a t else Inr t)) {NullDeref} (\<lambda>t. True)"
      if t: "switched ?s t" "ct t = ct s" for t
    proof -
      have live: "slab t b \<noteq> None" if "slab s b \<noteq> None" for b using t(1) that by (auto simp: switched_def kept_def)
      have run: "ends (run_task a t) {NullDeref} (\<lambda>t. True)" by (rule run_task_ends_weak) (fact live [OF a])
      obtain u where u: "slab t a = Some u" using live [OF a] by blast
      show ?thesis
      proof (cases "ct t")
        case (Some c)
        then obtain v where "slab t c = Some v" using live ct_live t(2) by fastforce
        then show ?thesis using run u Some by (simp add: ct_above_eq)
      qed (use run in simp)
    qed
    have "ends (rbind (case ct ?s of None \<Rightarrow> Inr ?s
          | Some c \<Rightarrow> rbind (ct_above c a ?s) (\<lambda>b. if b then preempt c ?s else Inr ?s)) (\<lambda>t.
        case ct t of None \<Rightarrow> run_task a t
          | Some c \<Rightarrow> rbind (ct_above c a t) (\<lambda>b. if b then run_task a t else Inr t))) {NullDeref} (\<lambda>t. True)"
      by (rule ends_rbind [OF first]) (use second in blast)
    then show ?thesis using free
      by (auto simp: dispatch_switch_def lock_ct_def Some intro!: ends_rbind [where P = "\<lambda>t. True"])
  qed
qed

lemma yeild_task_at_calm:
  assumes "weak_inv s" "a \<in> set (task_list s)"
  shows "ends (yeild_task_at m2j j a s) {NullDeref, Deadlock} (\<lambda>x. True)"
proof -
  obtain u where "slab s a = Some u" using weak_at [OF assms] by blast
  then show ?thesis using assms(1) unfolding yeild_task_at_def
    by (auto simp: lock_defs access_defs Let_def weak_inv_def split: option.splits)
qed

text \<open>Every turn of a thread that does not deregister.\<close>

lemma thread_step_calm_result:
  assumes inv: "weak_inv s" and ct: "ct_ok s" and fresh: "supplied k th s" and th: "calm_thread s th"
    and step: "thread_step k th s = Inr (th', t)"
  shows "calm_step th s th' t"
proof -
  note search = find_tasks_weak [OF inv]
  note same = calm_same [OF inv ct]
  show ?thesis
  proof (cases th)
    case (Check_pid p per proc)
    then obtain b where b: "register_check p s = Inr (b, t)" "th' = (if b then Finished (-1) else Admit p per proc)"
      using step by (auto simp: result_simps)
    then have "t = s \<or> t = s\<lparr>tl_lock := True\<rparr>" "th' = Finished (-1) \<or> th' = Admit p per proc"
      using ends_Inr [OF search(4) b(1)] by auto
    then show ?thesis using Check_pid in_place_refl [OF inv] in_place_lock [OF inv] ct
      by (auto intro!: calm_in_place [OF inv] simp: calm_thread_def ct_ok_def)
  next
    case (Allocate p per proc)
    then obtain a where a: "slab_object k = Some a" "th' = Link_task a"
        "t = s\<lparr>slab := (slab s)(a \<mapsto> new_task (find_task_by_pid (pid_task k) p) p per proc)\<rparr>"
      using step by (auto simp: result_simps alloc_task_Inr)
    then have "slab s a = None" using fresh Allocate by (simp add: supplied_def fresh_object_def)
    from calm_allocate [OF inv ct this] show ?thesis unfolding Allocate a(2,3) .
  next
    case (Link_task a)
    then show ?thesis using step calm_link [OF inv ct] by (auto simp: result_simps link_task_Inr split: if_splits)
  next
    case (Store_util x p per proc)
    then show ?thesis using step calm_store [OF inv ct] by auto
  next
    case (Find_yield p)
    then obtain f where f: "find_yield_task p s = Inr (f, t)" "th' = (case f of None \<Rightarrow> Finished (-1) | Some a \<Rightarrow> Yield_task a)"
      using step by (auto simp: result_simps)
    have t: "t = s" "\<And>a. f = Some a \<Longrightarrow> a \<in> set (task_list s)" using ends_Inr [OF search(1) f(1)] by auto
    then show ?thesis unfolding t(1) using Find_yield f(2) by (cases f) (auto intro!: same simp: calm_thread_def)
  next
    case (Yield_task a)
    then obtain r where r: "th' = Finished r" "yeild_task_at (msecs_to_jiffies k) (jiffies k) a s = Inr (r, t)"
      using step by (auto simp: result_simps)
    note i = yeild_task_at_in_place [OF inv r(2)]
    show ?thesis using Yield_task r(1) i(1) in_place_ct [OF i(1) ct i(2)]
      by (auto intro!: calm_in_place [OF inv] simp: calm_thread_def)
  next
    case Find_highest
    then obtain f where f: "Task_get_highest s = Inr (f, t)" "th' = Switch_to f"
      using step by (auto simp: result_simps)
    have t: "t = s" "\<And>a. f = Some a \<Longrightarrow> a \<in> set (task_list s)" using ends_Inr [OF search(3) f(1)] by auto
    then show ?thesis unfolding t(1) using Find_highest f(2) by (auto intro!: same simp: calm_thread_def)
  next
    case (Switch_to h)
    then obtain u where r: "th' = Finished 0" "dispatch_switch h s = Inr u" "t = u\<lparr>woken := False\<rparr>"
      using step by (auto simp: result_simps)
    note i = dispatch_switch_in_place [OF inv r(2)]
    have "task_list u = task_list s" using i(1) by (simp add: in_place_def kept_def)
    then have "ct_ok t" using i(2) ct th Switch_to r(3) by (auto simp: ct_ok_def calm_thread_def)
    then show ?thesis using Switch_to r(1,3) i(1) by (auto intro!: calm_in_place [OF inv] simp: calm_thread_def)
  next
    case (Admit p per proc)
    then have t: "t = s" "th' = Finished (-1) \<or> th' = Load_util p per proc" using step by (auto split: if_splits)
    show ?thesis unfolding t(1) using Admit t(2) by (auto intro!: same simp: calm_thread_def)
  next
    case (Load_util p per proc)
    then have t: "t = s" "th' = Store_util (total_util s) p per proc" using step by auto
    show ?thesis unfolding t using Load_util by (auto intro!: same simp: calm_thread_def)
  next
    case (Finished r)
    then have t: "t = s" "th' = Finished r" using step by auto
    show ?thesis unfolding t using Finished by (auto intro!: same simp: calm_thread_def)
  qed (use th in \<open>simp_all add: calm_thread_def\<close>)
qed

lemma thread_step_calm_faults:
  assumes inv: "weak_inv s" and ct: "ct_ok s" and th: "calm_thread s th" "thread_step k th s = Inl e"
  shows "e \<in> {NullDeref, DivideError, Deadlock}"
proof (cases th)
  case (Check_pid p per proc)
  then show ?thesis using th(2) find_tasks_weak(4) [OF inv, of p] by (cases "register_check p s") auto
next
  case (Allocate p per proc)
  then show ?thesis using th(2) by (auto simp: alloc_task_def split: option.splits)
next
  case (Link_task a)
  then show ?thesis using th by (auto simp: link_task_def lock_defs calm_thread_def split: if_splits)
next
  case (Find_yield p)
  then show ?thesis using th(2) find_tasks_weak(1) [OF inv, of p]
    by (cases "find_yield_task p s") (auto split: option.splits)
next
  case (Yield_task a)
  then have "ends (yeild_task_at (msecs_to_jiffies k) (jiffies k) a s) {NullDeref, Deadlock} (\<lambda>x. True)"
    using th(1) by (intro yeild_task_at_calm [OF inv]) (simp add: calm_thread_def)
  then show ?thesis using th(2) Yield_task by (cases "yeild_task_at (msecs_to_jiffies k) (jiffies k) a s") auto
next
  case Find_highest
  then show ?thesis using th(2) find_tasks_weak(3) [OF inv] by (cases "Task_get_highest s") auto
next
  case (Switch_to h)
  then have "ends (dispatch_switch h s) {NullDeref} (\<lambda>t. True)"
    using th(1) by (intro dispatch_switch_calm [OF inv ct]) (simp add: calm_thread_def)
  then show ?thesis using th(2) Switch_to by (cases "dispatch_switch h s") auto
qed (use th in \<open>auto simp: calm_thread_def split: if_splits\<close>)

lemma thread_step_calm:
  assumes "weak_inv s" "ct_ok s" "supplied k th s" "calm_thread s th"
  shows "ends (thread_step k th s) {NullDeref, DivideError, Deadlock} (\<lambda>(th', t). calm_step th s th' t)"
  using thread_step_calm_result [OF assms] thread_step_calm_faults [OF assms(1,2,4), of k]
  by (cases "thread_step k th s") auto

subsection \<open>All threads\<close>

lemma sum_list_upd:
  fixes f :: "'a \<Rightarrow> nat"
  shows "i < length xs \<Longrightarrow> sum_list (map f (xs[i := y])) + f (xs ! i) = sum_list (map f xs) + f y"
  by (induction xs arbitrary: i) (auto simp: nth_Cons split: nat.splits)

lemma grows_reserved: "grows s t \<Longrightarrow> calm_thread s th \<Longrightarrow> reserved (slab t) th = reserved (slab s) th"
  by (cases th) (auto simp: grows_def calm_thread_def)

lemma calm_turn:
  assumes calm: "calm (ts, s)" and i: "i < length ts" and step: "calm_step (ts ! i) s th' t"
  shows "calm (ts[i := th'], t)"
proof -
  have th: "calm_thread s (ts ! j)" if "j < length ts" for j using calm that by (simp add: calm_def)
  have g: "grows s t" and new: "calm_thread t th'" "\<And>a. linking th' = Some a \<Longrightarrow> slab s a = None"
    and list: "\<And>a. a \<in> set (task_list t) \<Longrightarrow> a \<in> set (task_list s) \<or> linking (ts ! i) = Some a"
    using step by (auto simp: calm_step_def)
  have one: "linking (ts ! j) = Some a \<Longrightarrow> linking (ts ! l) = Some a \<Longrightarrow> j = l" if "j < length ts" "l < length ts" for j l a
    using calm that by (auto simp: calm_def)
  have other: "calm_thread t (ts ! j)" if "j < length ts" "j \<noteq> i" for j
    using th [OF that(1)] list one [OF that(1) i] that(2) g by (fastforce simp: calm_thread_def grows_def)
  have "slab s a \<noteq> None" if "j < length ts" "linking (ts ! j) = Some a" for j a
    using th that by (auto simp: calm_thread_def)
  then have "linking (ts[i := th'] ! j) = Some a \<Longrightarrow> linking (ts[i := th'] ! l) = Some a \<Longrightarrow> j = l"
    if "j < length ts" "l < length ts" for j l a
    using one [OF that] that new(2) i by (metis nth_list_update_eq nth_list_update_neq)
  moreover have "calm_thread t (ts[i := th'] ! j)" if "j < length ts" for j
    using other new(1) that by (cases "j = i") simp_all
  moreover have "ct_ok t" using step by (simp add: calm_step_def)
  ultimately show ?thesis by (simp add: calm_def)
qed

lemma counted_turn:
  assumes calm: "calm (ts, s)" and i: "i < length ts" and step: "calm_step (ts ! i) s th' t" and c: "counted (ts, s)"
  shows "counted (ts[i := th'], t)"
proof -
  define n where "n = sum_list (map (reserved (slab s)) ts) - reserved (slab s) (ts ! i)"
  have th: "calm_thread s x" if "x \<in> set ts" for x using calm that by (auto simp: calm_def in_set_conv_nth)
  have "reserved (slab s) (ts ! i) \<le> sum_list (map (reserved (slab s)) ts)" using i by (auto intro!: member_le_sum_list)
  then have old: "real_util (ts, s) = listed_util s + reserved (slab s) (ts ! i) + n" by (simp add: real_util_def n_def)
  have "grows s t" using step by (simp add: calm_step_def)
  then have "map (reserved (slab t)) ts = map (reserved (slab s)) ts" using th by (auto intro: grows_reserved)
  from arg_cong [where f = sum_list, OF this] have "sum_list (map (reserved (slab t)) (ts[i := th'])) + reserved (slab t) (ts ! i) =
      sum_list (map (reserved (slab s)) ts) + reserved (slab t) th'"
    using sum_list_upd [OF i, of "reserved (slab t)" th'] by simp
  moreover have "reserved (slab t) (ts ! i) = reserved (slab s) (ts ! i)" using grows_reserved [OF \<open>grows s t\<close>] th i by simp
  ultimately have new: "real_util (ts[i := th'], t) = listed_util t + reserved (slab t) th' + n"
    using old by (simp add: real_util_def)
  have "counts n (ts ! i) s" using c i old by (auto simp: counts_def counted_def)
  then have "counts n th' t" using step by (simp add: calm_step_def)
  moreover have le: "real_util (ts, s) \<le> real_util (ts[i := th'], t)" using step unfolding old new by (simp add: calm_step_def)
  have "loaded_util x \<le> real_util (ts[i := th'], t)" if "x \<in> set ts" for x using c that le by (fastforce simp: counted_def)
  ultimately show ?thesis using new by (auto simp: counted_def counts_def dest!: set_update_subset_insert [THEN subsetD])
qed

text \<open>Turns that name a thread and get a slab object that is not in use.\<close>

fun turns_ok :: "(mp2_kernel \<times> nat) list \<Rightarrow> par_state \<Rightarrow> bool" where
  "turns_ok [] c = True"
| "turns_ok ((k, i) # xs) c = (i < length (fst c) \<and> supplied k (fst c ! i) (snd c) \<and>
     (case turn k i c of Inl e \<Rightarrow> True | Inr d \<Rightarrow> turns_ok xs d))"

lemma turn_calm:
  assumes inv: "par_inv (ts, s)" and calm: "calm (ts, s)" and i: "i < length ts" and fresh: "supplied k (ts ! i) s"
  shows "ends (turn k i (ts, s)) {NullDeref, DivideError, Deadlock}
    (\<lambda>c. par_inv c \<and> calm c \<and> (counted (ts, s) \<longrightarrow> counted c))"
proof -
  have "weak_inv s" "ct_ok s" "calm_thread s (ts ! i)" using inv calm i by (auto simp: par_inv_def calm_def)
  from thread_step_calm [OF this(1,2) fresh this(3)]
  have step: "ends (thread_step k (ts ! i) s) {NullDeref, DivideError, Deadlock} (\<lambda>(th', t). calm_step (ts ! i) s th' t)" .
  show ?thesis
  proof (cases "thread_step k (ts ! i) s")
    case (Inl e)
    then show ?thesis using step by (simp add: turn_def)
  next
    case (Inr r)
    obtain th' t where r: "r = (th', t)" by (cases r)
    have turn: "turn k i (ts, s) = Inr (ts[i := th'], t)" using Inr r by (simp add: turn_def)
    have "calm_step (ts ! i) s th' t" using step Inr r by simp
    then show ?thesis using turn_keeps [OF inv i turn] calm_turn [OF calm i] counted_turn [OF calm i] by (simp add: turn)
  qed
qed

lemma turns_calm:
  "par_inv c \<Longrightarrow> calm c \<Longrightarrow> turns_ok xs c \<Longrightarrow>
   ends (turns xs c) {NullDeref, DivideError, Deadlock} (\<lambda>d. par_inv d \<and> calm d)"
proof (induction xs c rule: turns.induct)
  case (2 k i xs c)
  obtain ts s where c: "c = (ts, s)" by (cases c)
  have "ends (turn k i (ts, s)) {NullDeref, DivideError, Deadlock} (\<lambda>d. par_inv d \<and> calm d \<and> (counted (ts, s) \<longrightarrow> counted d))"
    by (rule turn_calm) (use 2 c in simp_all)
  with 2 show ?case unfolding c by (cases "turn k i (ts, s)") auto
qed simp

text \<open>Threads at rest.\<close>

lemma at_rest_fields: "at_rest th \<Longrightarrow> target th = None \<and> linking th = None \<and> loaded_util th = 0 \<and> reserved h th = 0"
  by (cases th) simp_all

lemma calm_at_rest: "ct_ok s \<Longrightarrow> \<forall>th\<in>set ts. at_rest th \<and> \<not> deregisters th \<Longrightarrow> calm (ts, s)"
  by (simp add: calm_def calm_thread_def at_rest_fields)

lemma thread_of_at_rest: "\<forall>p. cmd \<noteq> Deregister p \<Longrightarrow> at_rest (thread_of cmd) \<and> \<not> deregisters (thread_of cmd)"
  by (cases cmd) (simp_all add: thread_of_def)

section \<open>Stale pointers\<close>

lemma stale_sections:
  assumes "slab s a = None" "\<not> ct_lock s"
  shows "\<not> tl_lock s \<Longrightarrow> yeild_task_at m2j j a s = Inl UseAfterFree"
    and "\<not> tl_lock s \<Longrightarrow> deregister_task_at a s = Inl UseAfterFree"
    and "dispatch_switch (Some a) s = Inl UseAfterFree"
  using assms
  by (auto simp: dispatch_switch_def yeild_task_at_def deregister_task_at_def drop_current_def lock_defs wake_dispatcher_def
      ct_above_def run_task_def deref_def split: option.splits)

lemma mp2_weak: "mp2_inv s \<Longrightarrow> weak_inv s"
proof -
  assume inv: "mp2_inv s"
  have "\<forall>a t. slab s a = Some t \<longrightarrow> task_ok t" using core_inv_task_ok [OF mp2_core [OF inv]] by blast
  with inv show "weak_inv s" by (auto simp: inv_defs weak_defs)
qed

end
