(* ===== verification/Mp2_Timer_Walk.thy ===== *)
theory Mp2_Timer_Walk
  imports Mp2_Races
begin

text \<open>
  The walk of \<open>mp2_timer_callback\<close> over the task list, cut at its accesses to the nodes. It holds a spin lock that no
  other operation on the list takes, so on a machine with several processors it takes turns with the critical sections
  of \<open>Mp2_Interleaving\<close>, which hold the mutex \<open>tl_lock\<close>.
\<close>

section \<open>The callback\<close>

text \<open>
  What the callback does next: look at a node, with the pid it was called for; go on to the node behind it; or
  leave.
\<close>

datatype timer_callback =
    Visit u64 addr
  | Advance u64 addr
  | Leave

definition walk_from :: "u64 \<Rightarrow> addr option \<Rightarrow> timer_callback" where
  "walk_from d a = (case a of None \<Rightarrow> Leave | Some a \<Rightarrow> Visit d a)"

text \<open>The kernel takes the timer off its queue and calls the callback, which takes the spin lock.\<close>

definition enter_callback :: "addr \<Rightarrow> mp2_state \<Rightarrow> (timer_callback \<times> mp2_state) result" where
  "enter_callback a s =
     rbind (deref (slab s) a) (\<lambda>t.
     let s = put_task a (t\<lparr>timer := (timer t)\<lparr>expires := None\<rparr>\<rparr>) s in
     if spin_held s then Inl Deadlock
     else Inr (walk_from (tdata (timer t)) (first_node (task_list s)), s\<lparr>spin_held := True\<rparr>))"

fun callback_step :: "timer_callback \<Rightarrow> mp2_state \<Rightarrow> (timer_callback option \<times> mp2_state) result" where
  "callback_step (Visit d a) s =
     rbind (deref (slab s) a) (\<lambda>t.
       Inr (Some (Advance d a), if ucast (pid t) = d then put_task a (t\<lparr>state := READY\<rparr>) s else s))"
| "callback_step (Advance d a) s =
     rbind (deref (slab s) a) (\<lambda>t. Inr (Some (walk_from d (next_node (task_list s) a)), s))"
| "callback_step Leave s = Inr (None, wake_dispatcher (s\<lparr>spin_held := False\<rparr>))"

section \<open>The callback beside the other threads\<close>

text \<open>
  The callback, if one is under way, and the threads. A timer that fires while the spin lock is held waits for it, on its own
  processor, so the next callback begins when the lock is free.
\<close>

type_synonym walk_state = "timer_callback option \<times> par_state"

datatype walk_act =
    Thread_turn mp2_kernel nat
  | Call_in mp2_command
  | Round_starts
  | Timer_fires addr
  | Callback_turn

text \<open>What is to happen next; what is not possible is skipped.\<close>

fun walk_turn :: "walk_act \<Rightarrow> walk_state \<Rightarrow> walk_state result" where
  "walk_turn (Thread_turn k i) (w, ts, s) =
     (if i < length ts \<and> supplied k (ts ! i) s then rbind (turn k i (ts, s)) (\<lambda>c. Inr (w, c)) else Inr (w, ts, s))"
| "walk_turn (Call_in cmd) (w, ts, s) = Inr (w, ts @ [thread_of cmd], s)"
| "walk_turn Round_starts (w, ts, s) =
     (if dispatcher s \<and> woken s \<and> list_all (\<lambda>th. \<not> dispatching th) ts then Inr (w, ts @ [Find_highest], s)
      else Inr (w, ts, s))"
| "walk_turn (Timer_fires a) (w, ts, s) =
     (if w = None \<and> timer_pending a s then rbind (enter_callback a s) (\<lambda>(c, s). Inr (Some c, ts, s))
      else Inr (w, ts, s))"
| "walk_turn Callback_turn (w, ts, s) =
     (case w of
        None \<Rightarrow> Inr (w, ts, s)
      | Some c \<Rightarrow> rbind (callback_step c s) (\<lambda>(w, s). Inr (w, ts, s)))"

fun walk_turns :: "walk_act list \<Rightarrow> walk_state \<Rightarrow> walk_state result" where
  "walk_turns [] c = Inr c"
| "walk_turns (x # xs) c = rbind (walk_turn x c) (walk_turns xs)"

inductive walk_step :: "walk_state \<Rightarrow> walk_state \<Rightarrow> bool" where
  "walk_turn x c = Inr d \<Longrightarrow> walk_step c d"

inductive_cases walk_stepE: "walk_step c d"

definition walk_start :: "walk_state \<Rightarrow> bool" where
  "walk_start c \<longleftrightarrow> fst c = None \<and> par_start (snd c)"

lemma walk_turns_append: "walk_turns (xs @ ys) c = rbind (walk_turns xs c) (walk_turns ys)"
  by (induction xs c rule: walk_turns.induct) (simp_all add: rbind_assoc cong: rbind_cong)

lemma walk_turns_reach:
  "reach walk_start walk_step c \<Longrightarrow> walk_turns xs c = Inr d \<Longrightarrow> reach walk_start walk_step d"
proof (induction xs arbitrary: c)
  case (Cons x xs)
  then obtain e where e: "walk_turn x c = Inr e" "walk_turns xs e = Inr d" by (auto simp: result_simps)
  then show ?case using Cons.IH reach_step [OF Cons.prems(1) walk_step.intros [OF e(1)]] by blast
qed simp

section \<open>The spin lock is not seen by the threads\<close>

definition spun :: "bool \<Rightarrow> ('a \<times> mp2_state) result \<Rightarrow> ('a \<times> mp2_state) result" where
  "spun b m = rbind m (\<lambda>(x, t). Inr (x, t\<lparr>spin_held := b\<rparr>))"

lemma spun_simps [simp]: "spun b (Inl e) = Inl e" "spun b (Inr (x, t)) = Inr (x, t\<lparr>spin_held := b\<rparr>)"
  by (simp_all add: spun_def)

lemma register_frames:
  "register_check p (s\<lparr>spin_held := b\<rparr>) = spun b (register_check p s)"
  "alloc_task f new p per proc (s\<lparr>spin_held := b\<rparr>) = spun b (alloc_task f new p per proc s)"
  "link_task a (s\<lparr>spin_held := b\<rparr>) = rbind (link_task a s) (\<lambda>t. Inr (t\<lparr>spin_held := b\<rparr>))"
  by (auto simp: spun_def register_check_def alloc_task_def link_task_def lock_defs put_task_def rbind_case
      split: sum.splits option.splits)

lemma search_frames:
  "find_yield_task p (s\<lparr>spin_held := b\<rparr>) = spun b (find_yield_task p s)"
  "find_dereg_task p (s\<lparr>spin_held := b\<rparr>) = spun b (find_dereg_task p s)"
  "Task_get_highest (s\<lparr>spin_held := b\<rparr>) = spun b (Task_get_highest s)"
  by (auto simp: spun_def find_yield_task_def find_dereg_task_def Task_get_highest_def lock_defs rbind_case
      split: sum.splits option.splits)

lemma section_frames:
  "yeild_task_at m2j j a (s\<lparr>spin_held := b\<rparr>) = spun b (yeild_task_at m2j j a s)"
  "deregister_task_at a (s\<lparr>spin_held := b\<rparr>) = spun b (deregister_task_at a s)"
  by (auto simp: spun_def yeild_task_at_def deregister_task_at_def drop_current_def lock_defs access_defs Let_def deref_def
      split: option.splits)

lemma switch_spin:
  "dispatch_switch h (s\<lparr>spin_held := b\<rparr>) = rbind (dispatch_switch h s) (\<lambda>t. Inr (t\<lparr>spin_held := b\<rparr>))"
  by (auto simp: dispatch_switch_def lock_defs preempt_def run_task_def ct_above_def access_defs deref_def
      split: option.splits)

lemma thread_step_spin: "thread_step k th (s\<lparr>spin_held := b\<rparr>) = spun b (thread_step k th s)"
  by (cases th)
    (auto simp: register_frames search_frames section_frames switch_spin spun_def rbind_assoc intro!: rbind_cong)

section \<open>The invariant\<close>

text \<open>The invariant of the threads, and that the spin lock is held exactly while a callback is under way.\<close>

definition unspun :: "mp2_state \<Rightarrow> mp2_state" where
  "unspun s = s\<lparr>spin_held := False\<rparr>"

lemma unspun_fields [simp]:
  "task_list (unspun s) = task_list s" "slab (unspun s) = slab s" "ct (unspun s) = ct s" "total_util (unspun s) = total_util s"
  "tl_lock (unspun s) = tl_lock s" "spin_held (unspun s) = False" "unspun (s\<lparr>spin_held := b\<rparr>) = unspun s"
  by (simp_all add: unspun_def)

lemma unspun_kernel [simp]: "supplied k th (unspun s) = supplied k th s" "timer_pending a (unspun s) = timer_pending a s"
  by (simp_all add: supplied_def fresh_object_def timer_pending_def task_at_def)

definition walk_inv :: "walk_state \<Rightarrow> bool" where
  "walk_inv c \<longleftrightarrow> par_inv (fst (snd c), unspun (snd (snd c))) \<and> (spin_held (snd (snd c)) \<longleftrightarrow> fst c \<noteq> None)"

lemma turn_spin:
  assumes "turn k i (ts, s) = Inr (ts', t)"
  shows "turn k i (ts, unspun s) = Inr (ts', unspun t)" "spin_held t = spin_held s"
proof -
  obtain th where th: "thread_step k (ts ! i) s = Inr (th, t)" "ts' = ts[i := th]"
    using assms by (auto simp: turn_def result_simps)
  then show "turn k i (ts, unspun s) = Inr (ts', unspun t)" by (simp add: turn_def unspun_def thread_step_spin)
  have "thread_step k (ts ! i) (s\<lparr>spin_held := spin_held s\<rparr>) = Inr (th, t\<lparr>spin_held := spin_held s\<rparr>)"
    unfolding thread_step_spin th(1) by simp
  then show "spin_held t = spin_held s" using th(1) by (cases t) auto
qed

text \<open>What one turn of the callback does to the tasks.\<close>

lemma kept_put_in_place:
  assumes "weak_inv s" "slab s a = Some u" "pid v = pid u" "period v = period u" "proc_time v = proc_time u" "task_ok u \<Longrightarrow> task_ok v"
  shows "in_place s (put_task a v s)"
proof (rule in_placeI [OF _ assms(1)])
  show "kept s (put_task a v s)" by (rule kept_put [of _ _ a u v]) (simp_all add: assms put_task_def)
qed (use assms(1) in \<open>simp_all add: put_task_def weak_inv_def\<close>)

lemma callback_step_in_place:
  assumes "weak_inv (unspun s)" "callback_step c s = Inr (w, t)"
  shows "in_place (unspun s) (unspun t)" "spin_held t \<longleftrightarrow> spin_held s \<and> w \<noteq> None" "ct t = ct s"
proof -
  have put: "unspun (put_task a v s) = put_task a v (unspun s)" for a v by (simp add: unspun_def put_task_def)
  show "in_place (unspun s) (unspun t)"
  proof (cases c)
    case (Visit d a)
    then obtain u where u: "slab s a = Some u" "t = (if ucast (pid u) = d then put_task a (u\<lparr>state := READY\<rparr>) s else s)"
      using assms(2) by (auto simp: result_simps)
    have "in_place (unspun s) (put_task a (u\<lparr>state := READY\<rparr>) (unspun s))"
      by (rule kept_put_in_place [OF assms(1)]) (use u in \<open>auto simp: task_ok_def\<close>)
    then show ?thesis using u(2) in_place_refl [OF assms(1)] by (simp add: put)
  next
    case (Advance d a)
    then show ?thesis using assms(2) in_place_refl [OF assms(1)] by (auto simp: result_simps)
  next
    case Leave
    then have "unspun t = (unspun s)\<lparr>woken := True\<rparr>" using assms(2) by (auto simp: unspun_def wake_dispatcher_def)
    then show ?thesis using in_place_refl [OF assms(1)] by simp
  qed
  show "spin_held t \<longleftrightarrow> spin_held s \<and> w \<noteq> None" "ct t = ct s"
    using assms(2) by (cases c; auto simp: result_simps wake_dispatcher_def put_task_def split: if_splits)+
qed

lemma enter_callback_in_place:
  assumes "weak_inv (unspun s)" "enter_callback a s = Inr (c, t)"
  shows "in_place (unspun s) (unspun t)" "spin_held t" "ct t = ct s"
    "\<exists>d. c = walk_from d (first_node (task_list s)) \<and> task_list t = task_list s"
proof -
  obtain u where u: "slab s a = Some u" "t = (put_task a (u\<lparr>timer := (timer u)\<lparr>expires := None\<rparr>\<rparr>) s)\<lparr>spin_held := True\<rparr>"
    "c = walk_from (tdata (timer u)) (first_node (task_list s))"
    using assms(2) by (auto simp: enter_callback_def result_simps Let_def put_task_def split: if_splits)
  have "unspun t = put_task a (u\<lparr>timer := (timer u)\<lparr>expires := None\<rparr>\<rparr>) (unspun s)"
    unfolding u(2) by (simp add: unspun_def put_task_def)
  then show "in_place (unspun s) (unspun t)"
    using kept_put_in_place [OF assms(1), of a u "u\<lparr>timer := (timer u)\<lparr>expires := None\<rparr>\<rparr>"] u(1) by (simp add: task_ok_def)
  show "spin_held t" "ct t = ct s" by (simp_all add: u(2) put_task_def)
  show "\<exists>d. c = walk_from d (first_node (task_list s)) \<and> task_list t = task_list s" using u(2,3) by (auto simp: put_task_def)
qed

lemma par_inv_in_place: "par_inv (ts, s) \<Longrightarrow> in_place s t \<Longrightarrow> par_inv (ts, t)"
  by (auto simp: par_inv_def in_place_def)

lemma walk_turn_inv:
  assumes "walk_inv c" "walk_turn x c = Inr d"
  shows "walk_inv d"
proof -
  obtain w ts s where c: "c = (w, ts, s)" by (cases c)
  have inv: "par_inv (ts, unspun s)" "spin_held s \<longleftrightarrow> w \<noteq> None" using assms(1) by (simp_all add: walk_inv_def c)
  then have weak: "weak_inv (unspun s)" by (simp add: par_inv_def)
  show ?thesis
  proof (cases x)
    case (Thread_turn k i)
    show ?thesis
    proof (cases "i < length ts \<and> supplied k (ts ! i) s")
      case True
      then obtain us t where t: "turn k i (ts, s) = Inr (us, t)" "d = (w, us, t)"
        using assms(2) by (auto simp: c Thread_turn result_simps)
      have "par_inv (us, unspun t)" by (rule turn_keeps [OF inv(1) _ turn_spin(1) [OF t(1)]]) (use True in simp)
      then show ?thesis using inv(2) turn_spin(2) [OF t(1)] by (simp add: walk_inv_def t(2))
    qed (use assms c Thread_turn in auto)
  next
    case (Call_in cmd)
    have "par_inv (ts @ [thread_of cmd], unspun s)" using par_step_keeps [OF par_call inv(1)] .
    then show ?thesis using assms(2) inv(2) by (auto simp: c Call_in walk_inv_def)
  next
    case Round_starts
    then show ?thesis using assms inv by (auto simp: c walk_inv_def par_inv_def split: if_splits)
  next
    case (Timer_fires a)
    show ?thesis
    proof (cases "w = None \<and> timer_pending a s")
      case True
      then obtain k t where t: "enter_callback a s = Inr (k, t)" "d = (Some k, ts, t)"
        using assms(2) by (auto simp: c Timer_fires result_simps)
      note e = enter_callback_in_place [OF weak t(1)]
      show ?thesis using par_inv_in_place [OF inv(1) e(1)] e(2) by (simp add: walk_inv_def t(2))
    qed (use assms c Timer_fires in auto)
  next
    case Callback_turn
    show ?thesis
    proof (cases w)
      case (Some k)
      then obtain v t where t: "callback_step k s = Inr (v, t)" "d = (v, ts, t)"
        using assms(2) by (auto simp: c Callback_turn result_simps)
      note e = callback_step_in_place [OF weak t(1)]
      show ?thesis using par_inv_in_place [OF inv(1) e(1)] e(2) inv(2) Some by (simp add: walk_inv_def t(2))
    qed (use assms c Callback_turn in auto)
  qed
qed

lemma walk_start_inv: "walk_start c \<Longrightarrow> walk_inv c"
proof -
  assume c: "walk_start c"
  have "par_inv (snd c)" using c by (simp add: walk_start_def par_start_inv)
  moreover have "\<not> spin_held (snd (snd c))" using c by (auto simp: walk_start_def par_start_def mp2_start_def mp2_init_def Task_init_def)
  ultimately show "walk_inv c" using c by (cases c) (simp add: walk_inv_def walk_start_def unspun_def)
qed

interpretation walk: inductive_invariant walk_start walk_step walk_inv
  by unfold_locales (auto intro: walk_start_inv walk_turn_inv elim: walk_stepE)

section \<open>Without deregistration\<close>

text \<open>The node a callback is at.\<close>

fun node_of :: "timer_callback option \<Rightarrow> addr option" where
  "node_of (Some (Visit d a)) = Some a"
| "node_of (Some (Advance d a)) = Some a"
| "node_of _ = None"

definition walk_calm :: "walk_state \<Rightarrow> bool" where
  "walk_calm c \<longleftrightarrow> calm (snd c) \<and> (\<forall>a. node_of (fst c) = Some a \<longrightarrow> a \<in> set (task_list (snd (snd c))))"

fun deregisters_in :: "walk_act \<Rightarrow> bool" where
  "deregisters_in (Call_in (Deregister p)) = True"
| "deregisters_in _ = False"

lemma node_of_walk_from: "node_of (Some (walk_from d a)) = a"
  by (simp add: walk_from_def split: option.splits)

lemma enter_callback_live:
  assumes "weak_inv (unspun s)" "timer_pending a s" "\<not> spin_held s"
  shows "\<exists>r. enter_callback a s = Inr r"
proof -
  obtain u where "slab s a = Some u" using weak_at [OF assms(1)] assms(2) by (auto simp: timer_pending_def)
  then show ?thesis using assms(3) by (simp add: enter_callback_def Let_def put_task_def)
qed

lemma callback_step_live:
  assumes "weak_inv (unspun s)" "\<And>a. node_of (Some c) = Some a \<Longrightarrow> a \<in> set (task_list s)"
  shows "ends (callback_step c s) {} (\<lambda>(w, t). task_list t = task_list s \<and> (\<forall>a. node_of w = Some a \<longrightarrow> a \<in> set (task_list s)))"
proof (cases c)
  case (Visit d a)
  then obtain u where "slab s a = Some u" using weak_at [OF assms(1)] assms(2) by auto
  then show ?thesis using assms(2) by (simp add: Visit put_task_def)
next
  case (Advance d a)
  then obtain u where "slab s a = Some u" using weak_at [OF assms(1)] assms(2) by auto
  then show ?thesis using next_node_member by (auto simp: Advance node_of_walk_from)
qed (simp add: wake_dispatcher_def)

lemma calm_unspun [simp]: "calm (ts, unspun s) = calm (ts, s)" "counted (ts, unspun s) = counted (ts, s)"
  by (simp_all add: calm_def calm_thread_def ct_ok_def counted_def real_util_def listed_util_def)

lemma calm_callback:
  assumes "weak_inv s" "in_place s t" "ct t = ct s" "calm (ts, s)"
  shows "calm (ts, t)" "counted (ts, s) \<Longrightarrow> counted (ts, t)"
proof -
  have k: "kept s t" using assms(2) by (simp add: in_place_def)
  have l: "task_list t = task_list s" "total_util t = total_util s" using k by (simp_all add: kept_def)
  have slab: "slab t a \<noteq> None" if "slab s a \<noteq> None" for a using kept_util_at [OF k that] by simp
  show "calm (ts, t)" using assms(3,4) l slab by (simp add: calm_def calm_thread_def ct_ok_def)
  have "reserved (slab t) th = reserved (slab s) th" if "th \<in> set ts" for th
    using that assms(4) by (intro grows_reserved [OF kept_grows [OF k]]) (auto simp: calm_def in_set_conv_nth)
  then have "map (reserved (slab t)) ts = map (reserved (slab s)) ts" by simp
  from arg_cong [where f = sum_list, OF this] have "real_util (ts, t) = real_util (ts, s)"
    using listed_util_same [OF l(1) kept_grows [OF k] assms(1)] by (simp add: real_util_def)
  then show "counted (ts, s) \<Longrightarrow> counted (ts, t)" using l(2) by (simp add: counted_def)
qed

definition stays_calm :: "walk_state \<Rightarrow> walk_state \<Rightarrow> bool" where
  "stays_calm c d \<longleftrightarrow> walk_calm d \<and> (counted (snd c) \<longrightarrow> counted (snd d))"

lemma turn_unspun: "turn k i (ts, unspun s) = rbind (turn k i (ts, s)) (\<lambda>(us, t). Inr (us, unspun t))"
  unfolding turn_def unspun_def prod.case thread_step_spin spun_def
  by (simp add: rbind_assoc) (auto simp: unspun_def intro!: rbind_cong)

lemma turn_list: "calm (ts, s) \<Longrightarrow> par_inv (ts, unspun s) \<Longrightarrow> i < length ts \<Longrightarrow> supplied k (ts ! i) s \<Longrightarrow>
  turn k i (ts, s) = Inr (us, t) \<Longrightarrow> set (task_list s) \<subseteq> set (task_list t)"
proof -
  assume a: "calm (ts, s)" "par_inv (ts, unspun s)" "i < length ts" "supplied k (ts ! i) s" "turn k i (ts, s) = Inr (us, t)"
  then obtain th where "thread_step k (ts ! i) (unspun s) = Inr (th, unspun t)"
    using turn_spin(1) [OF a(5)] by (auto simp: turn_def result_simps)
  moreover have "weak_inv (unspun s)" "ct_ok (unspun s)" "supplied k (ts ! i) (unspun s)" "calm_thread (unspun s) (ts ! i)"
    using a by (auto simp: par_inv_def calm_def ct_ok_def calm_thread_def)
  ultimately have "calm_step (ts ! i) (unspun s) th (unspun t)" using thread_step_calm_result by blast
  then show ?thesis by (simp add: calm_step_def grows_def)
qed

lemma thread_turn_calm:
  assumes "walk_inv (w, ts, s)" "walk_calm (w, ts, s)" "i < length ts" "supplied k (ts ! i) s"
  shows "ends (turn k i (ts, s)) {NullDeref, DivideError, Deadlock} (\<lambda>c. stays_calm (w, ts, s) (w, c))"
proof -
  have inv: "par_inv (ts, unspun s)" and calm: "calm (ts, s)" using assms(1,2) by (simp_all add: walk_inv_def walk_calm_def)
  have node: "\<And>a. node_of w = Some a \<Longrightarrow> a \<in> set (task_list s)" using assms(2) by (simp add: walk_calm_def)
  have e: "ends (turn k i (ts, unspun s)) {NullDeref, DivideError, Deadlock}
      (\<lambda>c. par_inv c \<and> calm c \<and> (counted (ts, unspun s) \<longrightarrow> counted c))"
    by (rule turn_calm [OF inv]) (use calm assms in simp_all)
  show ?thesis
  proof (cases "turn k i (ts, s)")
    case (Inr c)
    obtain us t where c: "c = (us, t)" by (cases c)
    have "set (task_list s) \<subseteq> set (task_list t)" using turn_list [OF calm inv assms(3,4)] Inr c by blast
    moreover have "calm (us, t)" "counted (ts, s) \<longrightarrow> counted (us, t)" using e Inr c by (simp_all add: turn_unspun)
    ultimately show ?thesis using Inr c node by (auto simp: stays_calm_def walk_calm_def)
  qed (use e in \<open>simp add: turn_unspun\<close>)
qed

lemma counted_call: "at_rest th \<Longrightarrow> counted (ts, s) \<Longrightarrow> counted (ts @ [th], s)"
  by (simp add: counted_def real_util_def at_rest_fields)

lemma calm_call: "at_rest th \<Longrightarrow> \<not> deregisters th \<Longrightarrow> calm (ts, s) \<Longrightarrow> calm (ts @ [th], s)"
  by (auto simp: calm_def calm_thread_def nth_append at_rest_fields less_Suc_eq)

lemma call_calm:
  "at_rest th \<Longrightarrow> \<not> deregisters th \<Longrightarrow> walk_calm (w, ts, s) \<Longrightarrow> stays_calm (w, ts, s) (w, ts @ [th], s)"
  using calm_call [of th ts s] counted_call [of th ts s] by (simp add: stays_calm_def walk_calm_def)

lemma stays_calm_refl: "walk_calm c \<Longrightarrow> stays_calm c c"
  by (simp add: stays_calm_def)

lemma walk_turn_calm:
  assumes "walk_inv c" "walk_calm c" "\<not> deregisters_in x"
  shows "ends (walk_turn x c) {NullDeref, DivideError, Deadlock} (stays_calm c)"
proof -
  obtain w ts s where c: "c = (w, ts, s)" by (cases c)
  have inv: "par_inv (ts, unspun s)" "spin_held s \<longleftrightarrow> w \<noteq> None" using assms(1) by (simp_all add: walk_inv_def c)
  then have weak: "weak_inv (unspun s)" by (simp add: par_inv_def)
  have calm: "calm (ts, unspun s)" and node: "\<And>a. node_of w = Some a \<Longrightarrow> a \<in> set (task_list s)"
    using assms(2) by (simp_all add: walk_calm_def c)
  note same = stays_calm_refl [OF assms(2)]
  show ?thesis
  proof (cases x)
    case (Thread_turn k i)
    show ?thesis
    proof (cases "i < length ts \<and> supplied k (ts ! i) s")
      case True
      then show ?thesis using thread_turn_calm [of w ts s i k] assms(1,2)
        by (cases "turn k i (ts, s)") (auto simp: c Thread_turn)
    qed (use same in \<open>auto simp: c Thread_turn\<close>)
  next
    case (Call_in cmd)
    then have "at_rest (thread_of cmd) \<and> \<not> deregisters (thread_of cmd)"
      using assms(3) by (intro thread_of_at_rest) auto
    then show ?thesis using call_calm assms(2) by (simp add: c Call_in)
  next
    case Round_starts
    then show ?thesis using call_calm [of Find_highest w ts s] assms(2) same by (simp add: c)
  next
    case (Timer_fires a)
    show ?thesis
    proof (cases "w = None \<and> timer_pending a s")
      case True
      then obtain b t where t: "enter_callback a s = Inr (b, t)" using enter_callback_live [OF weak, of a] inv(2) by auto
      note e = enter_callback_in_place [OF weak t]
      obtain d where d: "b = walk_from d (first_node (task_list s))" "task_list t = task_list s" using e(4) by blast
      have "ct (unspun t) = ct (unspun s)" using e(3) by simp
      note k = calm_callback [OF weak e(1) this calm]
      have "walk_calm (Some b, ts, t)"
        using k(1) first_node_member d by (auto simp: walk_calm_def node_of_walk_from)
      then show ?thesis using True t k(2) by (simp add: c Timer_fires stays_calm_def)
    qed (use same in \<open>auto simp: c Timer_fires\<close>)
  next
    case Callback_turn
    show ?thesis
    proof (cases w)
      case (Some b)
      have live: "ends (callback_step b s) {} (\<lambda>(w, t). task_list t = task_list s \<and> (\<forall>a. node_of w = Some a \<longrightarrow> a \<in> set (task_list s)))"
        by (rule callback_step_live [OF weak]) (use node Some in simp)
      then obtain v t where t: "callback_step b s = Inr (v, t)" by (cases "callback_step b s") auto
      note e = callback_step_in_place [OF weak t]
      have "ct (unspun t) = ct (unspun s)" using e(3) by simp
      note k = calm_callback [OF weak e(1) this calm]
      have "walk_calm (v, ts, t)" using k(1) live t by (simp add: walk_calm_def)
      then show ?thesis using Some t k(2) by (simp add: c Callback_turn stays_calm_def)
    qed (use same in \<open>auto simp: c Callback_turn\<close>)
  qed
qed

lemma walk_turns_calm:
  "walk_inv c \<Longrightarrow> walk_calm c \<Longrightarrow> list_all (\<lambda>x. \<not> deregisters_in x) xs \<Longrightarrow>
   ends (walk_turns xs c) {NullDeref, DivideError, Deadlock} (stays_calm c)"
proof (induction xs arbitrary: c)
  case (Cons x xs)
  have e: "ends (walk_turn x c) {NullDeref, DivideError, Deadlock} (stays_calm c)" using walk_turn_calm Cons.prems by simp
  show ?case
  proof (cases "walk_turn x c")
    case (Inr d)
    then have d: "walk_calm d" "counted (snd c) \<longrightarrow> counted (snd d)" using e by (simp_all add: stays_calm_def)
    have "ends (walk_turns xs d) {NullDeref, DivideError, Deadlock} (stays_calm d)"
      by (rule Cons.IH) (use walk_turn_inv [OF Cons.prems(1) Inr] d(1) Cons.prems(3) in simp_all)
    then have "ends (walk_turns xs d) {NullDeref, DivideError, Deadlock} (stays_calm c)"
      by (rule ends_mono) (use d(2) in \<open>auto simp: stays_calm_def\<close>)
    then show ?thesis using Inr by simp
  qed (use e in simp)
qed (simp add: stays_calm_refl)

lemma walk_from_rest:
  assumes "walk_inv (w, ts, s)"
  shows "w = None \<and> (\<forall>th\<in>set ts. at_rest th \<and> \<not> deregisters th) \<and> (\<forall>a. ct s = Some a \<longrightarrow> a \<in> set (task_list s)) \<and>
     list_all (\<lambda>x. \<not> deregisters_in x) xs \<longrightarrow>
      walk_turns xs (w, ts, s) \<noteq> Inl UseAfterFree \<and> walk_turns xs (w, ts, s) \<noteq> Inl ListCorrupt \<and>
      (\<forall>w' ts' s'. walk_turns xs (w, ts, s) = Inr (w', ts', s') \<longrightarrow>
        (\<forall>a. ct s' = Some a \<longrightarrow> a \<in> set (task_list s')) \<and>
        (unat (total_util s) \<le> sum_list (map (util_at (slab s)) (task_list s)) \<longrightarrow>
          unat (total_util s') \<le> sum_list (map (util_at (slab s')) (task_list s')) +
            sum_list (map (reserved (slab s')) ts')))"
proof (intro impI, elim conjE)
  assume h: "w = None" "\<forall>th\<in>set ts. at_rest th \<and> \<not> deregisters th" "\<forall>a. ct s = Some a \<longrightarrow> a \<in> set (task_list s)"
    "list_all (\<lambda>x. \<not> deregisters_in x) xs"
  have "calm (ts, s)" using h(2,3) by (intro calm_at_rest) (simp_all add: ct_ok_def)
  then have "walk_calm (w, ts, s)" using h(1) by (simp add: walk_calm_def)
  note e = walk_turns_calm [OF assms this h(4)]
  have start: "counted (ts, s)" if "unat (total_util s) \<le> sum_list (map (util_at (slab s)) (task_list s))"
    using that h(2) by (auto simp: counted_def real_util_def listed_util_def at_rest_fields)
  have "(\<forall>a. ct s' = Some a \<longrightarrow> a \<in> set (task_list s')) \<and> (counted (ts, s) \<longrightarrow> counted (ts', s'))"
    if "walk_turns xs (w, ts, s) = Inr (w', ts', s')" for w' ts' s'
    using ends_Inr [OF e that] by (simp add: stays_calm_def walk_calm_def calm_def ct_ok_def)
  then show "walk_turns xs (w, ts, s) \<noteq> Inl UseAfterFree \<and> walk_turns xs (w, ts, s) \<noteq> Inl ListCorrupt \<and>
      (\<forall>w' ts' s'. walk_turns xs (w, ts, s) = Inr (w', ts', s') \<longrightarrow>
        (\<forall>a. ct s' = Some a \<longrightarrow> a \<in> set (task_list s')) \<and>
        (unat (total_util s) \<le> sum_list (map (util_at (slab s)) (task_list s)) \<longrightarrow>
          unat (total_util s') \<le> sum_list (map (util_at (slab s')) (task_list s')) +
            sum_list (map (reserved (slab s')) ts')))"
    using e start by (auto simp: counted_def real_util_def listed_util_def)
qed

section \<open>A callback that is not interrupted\<close>

text \<open>The two turns at a node, and the callback from a node on.\<close>

lemma callback_node:
  assumes "weak_inv (unspun s)" "task_list s = xs @ a # as"
  obtains t where "callback_step (Visit d a) s = Inr (Some (Advance d a), t)"
    "callback_step (Advance d a) t = Inr (Some (walk_from d (first_node as)), t)"
    "weak_inv (unspun t)" "task_list t = task_list s" "tl_lock t = tl_lock s"
    "\<And>bs. callback_loop d (slab s) (a # bs) = callback_loop d (slab t) bs"
    "\<And>h. t\<lparr>slab := h\<rparr> = s\<lparr>slab := h\<rparr>" "dom (slab t) = dom (slab s)"
proof -
  obtain u where u: "slab s a = Some u" using weak_at [OF assms(1), of a] assms(2) by auto
  define t where "t = (if ucast (pid u) = d then put_task a (u\<lparr>state := READY\<rparr>) s else s)"
  have v: "callback_step (Visit d a) s = Inr (Some (Advance d a), t)" using u by (simp add: t_def)
  have list: "task_list t = task_list s" "tl_lock t = tl_lock s" "\<exists>u. slab t a = Some u" using u by (simp_all add: t_def put_task_def)
  have "distinct (xs @ a # as)" using assms by (simp add: weak_defs)
  then have n: "next_node (task_list t) a = first_node as" using next_node_mid assms(2) list(1) by simp
  show ?thesis
  proof (rule that [OF v])
    show "callback_step (Advance d a) t = Inr (Some (walk_from d (first_node as)), t)" using list(3) n by auto
    show "weak_inv (unspun t)" using callback_step_in_place(1) [OF assms(1) v] by (simp add: in_place_def)
    show "callback_loop d (slab s) (a # bs) = callback_loop d (slab t) bs" for bs using u by (simp add: t_def put_task_def)
    show "t\<lparr>slab := h\<rparr> = s\<lparr>slab := h\<rparr>" for h by (simp add: t_def put_task_def)
    show "dom (slab t) = dom (slab s)" using u by (auto simp: t_def put_task_def)
  qed (fact list)+
qed

lemma callback_walk:
  "weak_inv (unspun s) \<Longrightarrow> task_list s = xs @ as \<Longrightarrow>
   walk_turns (replicate (Suc (2 * length as)) Callback_turn) (Some (walk_from d (first_node as)), ts, s) =
     rbind (callback_loop d (slab s) as) (\<lambda>h. Inr (None, ts, wake_dispatcher (s\<lparr>slab := h, spin_held := False\<rparr>)))"
proof (induction as arbitrary: xs s)
  case Nil
  then show ?case by (simp add: walk_from_def first_node_def)
next
  case (Cons a as)
  obtain t where t: "callback_step (Visit d a) s = Inr (Some (Advance d a), t)"
    "callback_step (Advance d a) t = Inr (Some (walk_from d (first_node as)), t)"
    "weak_inv (unspun t)" "task_list t = task_list s" "tl_lock t = tl_lock s"
    "\<And>bs. callback_loop d (slab s) (a # bs) = callback_loop d (slab t) bs" "\<And>h. t\<lparr>slab := h\<rparr> = s\<lparr>slab := h\<rparr>"
    using callback_node [OF Cons.prems, of d thesis] by blast
  have "task_list t = (xs @ [a]) @ as" using t(4) Cons.prems(2) by simp
  note ih = Cons.IH [OF t(3) this]
  have from_a: "walk_from d (first_node (a # as)) = Visit d a" by (simp add: walk_from_def first_node_def)
  have count: "Suc (2 * length (a # as)) = Suc (Suc (Suc (2 * length as)))" by simp
  have h: "t\<lparr>slab := h, spin_held := False\<rparr> = s\<lparr>slab := h, spin_held := False\<rparr>" for h using t(7) by metis
  have "walk_turns (replicate (Suc (2 * length (a # as))) Callback_turn) (Some (Visit d a), ts, s) =
      walk_turns (replicate (Suc (2 * length as)) Callback_turn) (Some (walk_from d (first_node as)), ts, t)"
    unfolding count replicate_Suc walk_turns.simps walk_turn.simps option.case t(1) rbind.simps prod.case t(2) ..
  also have "\<dots> = rbind (callback_loop d (slab s) (a # as)) (\<lambda>h. Inr (None, ts, wake_dispatcher (s\<lparr>slab := h, spin_held := False\<rparr>)))"
    unfolding ih t(6) h ..
  finally show ?case unfolding from_a .
qed

lemma callback_reaches:
  "weak_inv (unspun s) \<Longrightarrow> task_list s = xs @ as @ b # bs \<Longrightarrow>
   \<exists>t. walk_turns (replicate (2 * length as) Callback_turn) (Some (walk_from d (first_node (as @ b # bs))), ts, s) =
       Inr (Some (Visit d b), ts, t) \<and> weak_inv (unspun t) \<and> task_list t = task_list s \<and> tl_lock t = tl_lock s \<and>
       dom (slab t) = dom (slab s)"
proof (induction as arbitrary: xs s)
  case Nil
  then show ?case by (simp add: walk_from_def first_node_def)
next
  case (Cons a as)
  have "task_list s = xs @ a # as @ b # bs" using Cons.prems(2) by simp
  then obtain t where t: "callback_step (Visit d a) s = Inr (Some (Advance d a), t)"
    "callback_step (Advance d a) t = Inr (Some (walk_from d (first_node (as @ b # bs))), t)"
    "weak_inv (unspun t)" "task_list t = task_list s" "tl_lock t = tl_lock s" "dom (slab t) = dom (slab s)"
    using callback_node [OF Cons.prems(1), of xs a "as @ b # bs" d thesis] by blast
  have "task_list t = (xs @ [a]) @ as @ b # bs" using t(4) Cons.prems(2) by simp
  note ih = Cons.IH [OF t(3) this]
  have from_a: "walk_from d (first_node ((a # as) @ b # bs)) = Visit d a" by (simp add: walk_from_def first_node_def)
  have count: "2 * length (a # as) = Suc (Suc (2 * length as))" by simp
  have "walk_turns (replicate (2 * length (a # as)) Callback_turn) (Some (Visit d a), ts, s) =
      walk_turns (replicate (2 * length as) Callback_turn) (Some (walk_from d (first_node (as @ b # bs))), ts, t)"
    unfolding count replicate_Suc walk_turns.simps walk_turn.simps option.case t(1) rbind.simps prod.case t(2) ..
  then show ?case using ih t(4-6) unfolding from_a by simp
qed

text \<open>A timer whose callback is not interrupted does what \<open>fire_timer\<close> does in one step.\<close>

lemma callback_alone:
  assumes "weak_inv s" "timer_pending a s"
  shows "walk_turns (Timer_fires a # replicate (Suc (2 * length (task_list s))) Callback_turn) (None, ts, s) =
    rbind (fire_timer a s) (\<lambda>t. Inr (None, ts, t))"
proof -
  have spin: "\<not> spin_held s" using assms(1) by (simp add: weak_inv_def)
  obtain u where u: "slab s a = Some u" using weak_at [OF assms(1)] assms(2) by (auto simp: timer_pending_def)
  define v where "v = put_task a (u\<lparr>timer := (timer u)\<lparr>expires := None\<rparr>\<rparr>) s"
  have e: "enter_callback a s = Inr (walk_from (tdata (timer u)) (first_node (task_list s)), v\<lparr>spin_held := True\<rparr>)"
    using u spin by (simp add: enter_callback_def Let_def v_def put_task_def)
  have "unspun s = s" using spin by (simp add: unspun_def)
  then have "weak_inv (unspun (v\<lparr>spin_held := True\<rparr>))"
    using enter_callback_in_place(1) [OF _ e] assms(1) by (simp add: in_place_def)
  then have "walk_turns (replicate (Suc (2 * length (task_list s))) Callback_turn)
      (Some (walk_from (tdata (timer u)) (first_node (task_list s))), ts, v\<lparr>spin_held := True\<rparr>) =
    rbind (callback_loop (tdata (timer u)) (slab v) (task_list s)) (\<lambda>h. Inr (None, ts, wake_dispatcher (v\<lparr>slab := h, spin_held := False\<rparr>)))"
    using callback_walk [of "v\<lparr>spin_held := True\<rparr>" "[]" "task_list s" "tdata (timer u)" ts] by (simp add: v_def put_task_def)
  moreover have "fire_timer a s = rbind (callback_loop (tdata (timer u)) (slab v) (task_list s))
      (\<lambda>h. Inr (wake_dispatcher (v\<lparr>slab := h, spin_held := False\<rparr>)))"
    using u spin by (simp add: fire_timer_def mp2_timer_callback_def Let_def v_def put_task_def)
  ultimately show ?thesis using assms(2) e by (simp add: rbind_assoc del: replicate.simps)
qed

section \<open>A node that is removed under the callback\<close>

lemma stale_node:
  assumes "slab s a = None"
  shows "callback_step (Visit d a) s = Inl UseAfterFree" "callback_step (Advance d a) s = Inl UseAfterFree"
  using assms by (simp_all add: deref_def)

lemma removed_node:
  assumes "weak_inv (unspun s)" "a \<in> set (task_list s)" "\<not> tl_lock s" "i < length ts" "ts ! i = Dereg_task a" "fresh_object k s"
    and "b = Visit d a \<or> b = Advance d a"
  shows "walk_turns [Thread_turn k i, Callback_turn] (Some b, ts, s) = Inl UseAfterFree"
proof -
  let ?s = "unspun s"
  obtain u where u: "slab ?s a = Some u" "task_ok u" using weak_at [OF assms(1), of a] assms(2) by auto
  have "\<not> ct_lock ?s" using assms(1) by (simp add: weak_inv_def)
  from deregister_task_at_weak [OF this u] have d: "deregister_task_at a ?s = Inr (0, deregistered a ?s)"
    using assms(3) by simp
  have "deregister_task_at a ?s = spun False (deregister_task_at a s)" by (simp add: unspun_def section_frames)
  with d obtain t where t: "deregister_task_at a s = Inr (0, t)" "unspun t = deregistered a ?s"
    by (cases "deregister_task_at a s") (auto simp: unspun_def)
  have "slab (unspun t) a = None" unfolding t(2) by (simp add: deregistered_def)
  then have "callback_step b t = Inl UseAfterFree" using stale_node assms(7) by auto
  then show ?thesis using assms(4-6) t(1) by (simp add: turn_def)
qed

end
