(* ===== verification/Mp2_Rounds.thy ===== *)
theory Mp2_Rounds
  imports Mp2_Races
begin

text \<open>
  Wake-ups that come while the dispatching thread is in a round. The thread is running then, so waking it up does
  nothing, and what the wake-up was for is looked at only if the round has not yet looked for the READY task.
\<close>

section \<open>A timer that fires\<close>

lemma fired_weak:
  assumes inv: "weak_inv s" and a: "timer_pending a s" and t: "fire_timer a s = Inr t"
  shows "state (task_at t a) = READY" "woken t" "task_list t = task_list s" "ct t = ct s"
    "timer_pending b t \<longleftrightarrow> timer_pending b s \<and> b \<noteq> a"
proof -
  obtain u where u: "slab s a = Some u" "task_ok u" "a \<in> set (task_list s)"
    using weak_at [OF inv] a by (auto simp: timer_pending_def)
  let ?h = "(slab s)(a \<mapsto> u\<lparr>timer := (timer u)\<lparr>expires := None\<rparr>\<rparr>)"
  have live: "live ?h (task_list s)" using weak_live [OF inv] by simp
  have d: "distinct (task_list s)" using inv by (simp add: weak_defs)
  have t: "t = s\<lparr>slab := mark_ready (tdata (timer u)) ?h (task_list s), spin_held := False, woken := True\<rparr>"
    using t u inv by (simp add: fire_timer_def mp2_timer_callback_def put_task_def wake_dispatcher_def
        callback_loop_live [OF d live] weak_inv_def)
  then show "woken t" "task_list t = task_list s" "ct t = ct s" by simp_all
  show "state (task_at t a) = READY" using u by (simp add: t task_at_def mark_ready_def task_ok_def)
  have "b \<in> set (task_list s) \<Longrightarrow> \<exists>v. slab s b = Some v" using weak_at [OF inv] by blast
  then show "timer_pending b t \<longleftrightarrow> timer_pending b s \<and> b \<noteq> a"
    by (auto simp: t timer_pending_def task_at_def mark_ready_def)
qed

section \<open>The end of a round\<close>

lemma switch_leaves:
  assumes "dispatch_switch h s = Inr t"
  shows "h \<noteq> Some a \<Longrightarrow> state (task_at s a) = READY \<Longrightarrow> state (task_at t a) = READY"
    and "timer_pending b t = timer_pending b s"
  using assms
  by (auto simp: dispatch_switch_def result_simps preempt_Inr run_task_Inr lock_defs task_at_def timer_pending_def
      split: option.splits if_splits)

lemma switch_task_list: "dispatch_switch h s = Inr t \<Longrightarrow> task_list t = task_list s"
  by (auto simp: dispatch_switch_def result_simps preempt_Inr run_task_Inr lock_defs split: option.splits if_splits)

text \<open>When every thread has ended and no timer is pending, only a process that calls the module changes anything.\<close>

lemma all_finished:
  assumes "\<forall>th\<in>set ts. \<exists>r. th = Finished r" "\<not> woken s" "\<forall>b. \<not> timer_pending b s" "par_step (ts, s) (us, t)"
  shows "t = s"
  using assms(4)
proof cases
  case (par_turn i k)
  then obtain r where "ts ! i = Finished r" using assms(1) nth_mem by blast
  then show ?thesis using par_turn by (simp add: turn_def)
qed (use assms(2,3) in auto)

end
