(* ===== verification/Mp2_Lost_Updates.thy ===== *)
theory Mp2_Lost_Updates
  imports Mp2_Rounds
begin

text \<open>
  Updates of \<open>total_util\<close> that are lost because \<open>Task_register\<close> reads and writes it without a lock. The list is as it should be
  afterwards, so the operations on it work on, with a total that counts too little or too much.
\<close>

section \<open>The list without the total\<close>

definition listed :: "addr \<Rightarrow> mp2_task_struct \<Rightarrow> mp2_state \<Rightarrow> mp2_state" where
  "listed a t s = s\<lparr>slab := (slab s)(a \<mapsto> t), task_list := task_list s @ [a]\<rparr>"

lemma listed_fields [simp]:
  "task_list (listed a t s) = task_list s @ [a]" "slab (listed a t s) = (slab s)(a \<mapsto> t)"
  "total_util (listed a t s) = total_util s" "ct (listed a t s) = ct s"
  "tl_lock (listed a t s) = tl_lock s" "ct_lock (listed a t s) = ct_lock s"
  by (simp_all add: listed_def)

lemma total_frame [simp]:
  "list_ok (s\<lparr>total_util := x\<rparr>) = list_ok s" "pids (s\<lparr>total_util := x\<rparr>) = pids s"
  by (simp_all add: list_ok_def view_defs)

lemma listed_pids:
  assumes "list_ok s" "slab s a = None"
  shows "pids (listed a t s) = pids s @ [pid t]" "task_at (listed a t s) a = t"
    "b \<in> set (task_list s) \<Longrightarrow> task_at (listed a t s) b = task_at s b"
proof -
  have "a \<notin> set (task_list s)" using assms by (auto simp: list_ok_def)
  then show "pids (listed a t s) = pids s @ [pid t]" "task_at (listed a t s) a = t"
    "b \<in> set (task_list s) \<Longrightarrow> task_at (listed a t s) b = task_at s b"
    by (auto simp: view_defs)
qed

lemma listed_ok:
  assumes "list_ok s" "slab s a = None" "task_ok t" "pid t \<notin> set (pids s)"
  shows "list_ok (listed a t s)"
proof -
  have n: "a \<notin> set (task_list s)" using assms by (auto simp: list_ok_def)
  have "distinct (pids (listed a t s))" using listed_pids(1) [OF assms(1,2)] assms(1,4) by (simp add: list_ok_def)
  then show ?thesis using assms n unfolding list_ok_def by (auto simp: tasks_def task_at_def)
qed

lemma deregistered_ok:
  assumes "list_ok s" "a \<in> set (task_list s)"
  shows "list_ok (deregistered a s)"
proof -
  have d: "distinct (task_list s)" using assms(1) by (simp add: list_ok_def)
  have "distinct (pids (deregistered a s))"
    using deregistered_pids [OF assms] assms(1) by (simp add: list_ok_def distinct_remove1)
  then show ?thesis using assms d unfolding list_ok_def by (auto simp: tasks_def task_at_def)
qed

section \<open>A total below zero\<close>

text \<open>A total that has wrapped is above the limit, and stays there for every utility it lacks.\<close>

lemma wrapped_total:
  fixes u w :: u64
  assumes "u < MAX_UTIL" "w < u"
  shows "MAX_UTIL \<le> 0 - u + w"
proof -
  have "unat (w - u) = unat w + 2 ^ 64 - unat u" using assms(2) by (simp add: unat_sub_if' word_less_nat_alt not_le [symmetric])
  moreover have "unat u < 726663" using assms(1) by (simp add: word_less_nat_alt MAX_UTIL_def)
  ultimately show ?thesis by (simp add: word_le_nat_alt MAX_UTIL_def)
qed

lemma refused_empty:
  assumes "task_list s = []" "\<not> tl_lock s" "total_util s = 0 - u" "u < MAX_UTIL" "per \<noteq> 0" "task_util proc per < u"
  shows "Task_register f new p per proc s = Inr (-1, s)"
  using wrapped_total [OF assms(4,6)] assms(1-3,5)
  by (simp add: Task_register_def register_check_def register_admit_def lock_defs)

section \<open>Two registrations\<close>

lemma check_free: "list_ok s \<Longrightarrow> \<not> tl_lock s \<Longrightarrow> p \<notin> set (pids s) \<Longrightarrow> register_check p s = Inr (False, s)"
  using addr_of_None [of s p] by (simp add: register_check_def find_pid_inv lock_defs)

text \<open>Both load the same total; what the second one stores is without the utility of the first.\<close>

lemma lost_update:
  assumes "list_ok s" "\<not> tl_lock s" "p \<notin> set (pids s)" "q \<notin> set (pids s)" "per \<noteq> 0" "per' \<noteq> 0"
    and "total_util s + task_util proc per < MAX_UTIL" "total_util s + task_util proc' per' < MAX_UTIL"
    and "slab_object k = Some a" "slab_object k' = Some b" "a \<noteq> b" "slab s a = None" "slab s b = None"
  shows "turns (concat (replicate 6 [(k, 0), (k', 1)])) ([Check_pid p per proc, Check_pid q per' proc'], s) =
    Inr ([Finished 0, Finished 0], listed b (new_task (pid_task k' q) q per' proc')
      (listed a (new_task (pid_task k p) p per proc) (s\<lparr>total_util := total_util s + task_util proc' per'\<rparr>)))"
proof -
  have "a \<notin> set (task_list s)" "b \<notin> set (task_list s)" using assms(1,12,13) by (auto simp: list_ok_def)
  then show ?thesis
    using assms(2,5-11) check_free [OF assms(1,2,3)] check_free [OF assms(1,2,4)]
    by (simp add: numeral_eq_Suc turn_def not_le alloc_task_def link_task_def put_task_def lock_defs find_task_by_pid_def listed_def fun_upd_twist)
qed

text \<open>The two tasks deregister again: each takes its utility off a total to which only one of them was added.\<close>

lemma deregistered_both:
  fixes x :: u64
  assumes "list_ok s" "\<not> tl_lock s" "\<not> ct_lock s" "p \<notin> set (pids s)" "q \<notin> set (pids s)" "p \<noteq> q" "per \<noteq> 0" "per' \<noteq> 0"
    and "a \<noteq> b" "slab s a = None" "slab s b = None"
    and t: "t = listed b (new_task f q per' proc') (listed a (new_task g p per proc) (s\<lparr>total_util := x + task_util proc' per'\<rparr>))"
  shows "\<exists>u v. Task_deregister p t = Inr (0, u) \<and> Task_deregister q u = Inr (0, v) \<and> task_list v = task_list s \<and>
    pids v = pids s \<and> total_util v = x - task_util proc per \<and> \<not> tl_lock v"
proof -
  let ?a = "new_task g p per proc" and ?b = "new_task f q per' proc'"
  let ?s = "s\<lparr>total_util := x + task_util proc' per'\<rparr>"
  define r where "r = listed a ?a ?s"
  define u where "u = deregistered a t"
  define v where "v = deregistered b u"
  have pid: "pid ?a = p" "pid ?b = q" by (simp_all add: new_task_def)
  have out: "a \<notin> set (task_list s)" "b \<notin> set (task_list s)" using assms(1,10,11) by (auto simp: list_ok_def)
  have r: "list_ok r" "pids r = pids s @ [p]"
    unfolding r_def using assms(1,4,7,10) listed_pids(1) [of ?s a ?a] by (auto intro!: listed_ok new_task_ok simp: pid)
  have tr: "t = listed b ?b r" by (simp add: t r_def)
  have b: "slab r b = None" using assms(9,11) by (simp add: r_def)
  have "list_ok t" unfolding tr using r assms(5,6,8) b by (auto intro!: listed_ok new_task_ok simp: pid)
  moreover have pt: "pids t = pids s @ [p, q]" using listed_pids(1) [OF r(1) b, of ?b] r(2) by (simp add: tr pid)
  ultimately have ok: "list_ok t" "pids t = pids s @ [p, q]" by simp_all
  have lt: "task_list t = task_list s @ [a, b]" "\<not> tl_lock t" "\<not> ct_lock t" using assms(2,3) by (simp_all add: t)
  have at: "task_at t a = ?a" "task_at t b = ?b" using assms(9) by (simp_all add: t task_at_def)
  have "addr_of t p = Some a" using ok(1) lt(1) at(1) by (intro addr_of_member) (simp_all add: pid)
  then have du: "Task_deregister p t = Inr (0, u)" using Task_deregister_eq [OF ok(1) lt(2,3)] by (simp add: u_def)
  have u: "list_ok u" "task_list u = task_list s @ [b]" "\<not> tl_lock u" "\<not> ct_lock u" "task_at u b = ?b"
    using deregistered_ok [OF ok(1), of a] lt at(2) out assms(9)
    by (simp_all add: u_def remove1_append) (simp_all add: task_at_def)
  have pu: "pids u = pids s @ [q]"
    using deregistered_pids [OF ok(1), of a] lt(1) ok(2) at(1) assms(4) by (simp add: u_def pid remove1_append)
  have "addr_of u q = Some b" using u by (intro addr_of_member) (simp_all add: pid)
  then have dv: "Task_deregister q u = Inr (0, v)" using Task_deregister_eq [OF u(1,3,4)] by (simp add: v_def)
  have "task_list v = task_list s" "\<not> tl_lock v" using u(2,3) out by (simp_all add: v_def remove1_append)
  moreover have "pids v = pids s"
    using deregistered_pids [OF u(1), of b] u(2,5) pu assms(5) by (simp add: v_def pid remove1_append)
  moreover have "total_util v = x - task_util proc per"
    using at(1) u(5) by (simp add: v_def u_def t new_task_def)
  ultimately show ?thesis using du dv by blast
qed

text \<open>The whole story of two registrations, and what it does to an empty list.\<close>

lemma lost_registration:
  assumes "unlocked s" "p \<notin> set (pids s)" "q \<notin> set (pids s)" "p \<noteq> q" "per \<noteq> 0" "per' \<noteq> 0"
    "total_util s + task_util proc per < MAX_UTIL" "total_util s + task_util proc' per' < MAX_UTIL"
    "slab_object k = Some a" "slab_object k' = Some b" "a \<noteq> b" "slab s a = None" "slab s b = None"
  shows "\<exists>t u v. turns (concat (replicate 6 [(k, 0), (k', 1)])) ([Check_pid p per proc, Check_pid q per' proc'], s) =
      Inr ([Finished 0, Finished 0], t) \<and> pids t = pids s @ [p, q] \<and> total_util t = total_util s + task_util proc' per' \<and>
    Task_deregister p t = Inr (0, u) \<and> Task_deregister q u = Inr (0, v) \<and> pids v = pids s \<and>
    total_util v = total_util s - task_util proc per \<and>
    (task_list s = [] \<longrightarrow> (\<forall>f new r per2 proc2. per2 \<noteq> 0 \<and> task_util proc2 per2 < task_util proc per \<longrightarrow>
      Task_register f new r per2 proc2 v = Inr (-1, v)))"
proof -
  note u = unlockedD [OF assms(1)]
  note t = lost_update [OF u(3,2) assms(2,3,5-13)]
  let ?s = "s\<lparr>total_util := total_util s + task_util proc' per'\<rparr>"
  let ?a = "new_task (pid_task k p) p per proc" and ?b = "new_task (pid_task k' q) q per' proc'"
  have "list_ok (listed a ?a ?s)" "slab (listed a ?a ?s) b = None" "pids (listed a ?a ?s) = pids s @ [p]"
    using u(3) assms(2,5,11-13) listed_pids(1) [of ?s a ?a]
    by (auto intro!: listed_ok new_task_ok simp: new_task_def task_ok_def)
  from listed_pids(1) [OF this(1,2)] this(3) have pids: "pids (listed b ?b (listed a ?a ?s)) = pids s @ [p, q]"
    by (simp add: new_task_def)
  obtain x v where d: "Task_deregister p (listed b ?b (listed a ?a ?s)) = Inr (0, x)" "Task_deregister q x = Inr (0, v)"
      "task_list v = task_list s" "pids v = pids s" "total_util v = total_util s - task_util proc per" "\<not> tl_lock v"
    using deregistered_both [OF u(3,2,4) assms(2-6,11-13) refl] by blast
  have zero: "total_util s = 0" if "task_list s = []"
    using u(1) that by (simp add: inv_defs util_sum_def tasks_def unat_eq_0)
  have "Task_register f new r per2 proc2 v = Inr (-1, v)"
    if "task_list s = []" "per2 \<noteq> 0" "task_util proc2 per2 < task_util proc per" for f new r per2 proc2
    using refused_empty [OF _ d(6) _ _ that(2,3)] d(3,5) that(1) zero assms(7) by simp
  then have lost: "task_list s = [] \<longrightarrow> (\<forall>f new r per2 proc2. per2 \<noteq> 0 \<and> task_util proc2 per2 < task_util proc per \<longrightarrow>
      Task_register f new r per2 proc2 v = Inr (-1, v))" by blast
  have total: "total_util (listed b ?b (listed a ?a ?s)) = total_util s + task_util proc' per'" by simp
  show "\<exists>t u v. turns (concat (replicate 6 [(k, 0), (k', 1)])) ([Check_pid p per proc, Check_pid q per' proc'], s) =
      Inr ([Finished 0, Finished 0], t) \<and> pids t = pids s @ [p, q] \<and> total_util t = total_util s + task_util proc' per' \<and>
    Task_deregister p t = Inr (0, u) \<and> Task_deregister q u = Inr (0, v) \<and> pids v = pids s \<and>
    total_util v = total_util s - task_util proc per \<and>
    (task_list s = [] \<longrightarrow> (\<forall>f new r per2 proc2. per2 \<noteq> 0 \<and> task_util proc2 per2 < task_util proc per \<longrightarrow>
      Task_register f new r per2 proc2 v = Inr (-1, v)))"
    by (rule exI [of _ "listed b ?b (listed a ?a ?s)"], rule exI [of _ x], rule exI [of _ v], intro conjI)
      (fact t pids total d lost)+
qed

section \<open>A registration and a deregistration\<close>

text \<open>The registration stores a total it has loaded before the deregistration took a utility off it.\<close>

lemma lost_deregistration:
  assumes "list_ok s" "\<not> tl_lock s" "\<not> ct_lock s" "p \<notin> set (pids s)" "per \<noteq> 0" "total_util s + task_util proc per < MAX_UTIL"
    and "slab_object k = Some a" "slab s a = None" "b \<in> set (task_list s)" "pid (task_at s b) = q"
  shows "\<exists>t. turns [(k, 0), (k, 0), (k, 0), (k, 1), (k, 1), (k, 0), (k, 0), (k, 0)] ([Check_pid p per proc, Find_dereg q], s) =
      Inr ([Finished 0, Finished 0], t) \<and>
    pids t = remove1 q (pids s) @ [p] \<and> total_util t = total_util s + task_util proc per"
proof -
  let ?d = "deregistered b s" and ?a = "new_task (pid_task k p) p per proc"
  let ?t = "listed a ?a (?d\<lparr>total_util := total_util s + task_util proc per\<rparr>)"
  have at: "addr_of s q = Some b" using assms(9,10) by (intro addr_of_member [OF assms(1)])
  then have find: "find_dereg_task q s = Inr (Some b, s)"
    using assms(2) by (simp add: find_dereg_task_def find_pid_inv [OF assms(1)] lock_defs)
  have dereg: "deregister_task_at b s = Inr (0, ?d)"
    using deregister_task_at_weak [OF assms(3) inv_at [OF assms(1,9)] inv_task_ok [OF assms(1,9)]] assms(2) by simp
  have a: "slab ?d a = None" "a \<notin> set (task_list ?d)" "\<not> tl_lock ?d"
    using assms(1,2,8) set_remove1_subset [of b "task_list s"] by (auto simp: list_ok_def)
  have ok: "list_ok (?d\<lparr>total_util := total_util s + task_util proc per\<rparr>)" using deregistered_ok [OF assms(1,9)] by simp
  have "turns [(k, 0), (k, 0), (k, 0), (k, 1), (k, 1), (k, 0), (k, 0), (k, 0)] ([Check_pid p per proc, Find_dereg q], s) =
      Inr ([Finished 0, Finished 0], ?t)"
    using assms(5-7) check_free [OF assms(1,2,4)] find dereg a
    by (simp add: turn_def not_le alloc_task_def link_task_def put_task_def lock_defs find_task_by_pid_def listed_def)
  moreover have "pids ?t = remove1 q (pids s) @ [p]"
    using listed_pids(1) [OF ok, of a ?a] a(1) deregistered_pids [OF assms(1,9)] assms(10) by (simp add: new_task_def)
  ultimately show ?thesis by (intro exI [of _ ?t]) simp
qed

end
