(* ===== verification/Mp2_Race_Props.thy ===== *)
theory Mp2_Race_Props
  imports Mp2_Lost_Updates Mp2_Props
begin

text \<open>
  The properties of the scheduler under interleaving: threads one after the other behave as the
  atomic operations, what holds in every interleaving, and the interleavings that break what the
  operations establish one at a time.
\<close>

section \<open>One after the other\<close>

text \<open>
  A thread that is not interrupted is the operation: run to its end, the steps of a command of the
  status file give the result, the fault and the state of that command, and the two steps of the
  dispatching thread those of one round of it.
\<close>

theorem uninterrupted_thread:
  assumes "reach par_start par_step (ts, s)" "fresh_object k s"
  shows "run_thread 6 k (thread_of cmd) s = Some (run_command k cmd s) \<and>
    run_thread 6 k Find_highest s = Some (rbind (dispaching_thread_function 1 s) (\<lambda>t. Inr (0, t)))"
proof -
  have "weak_inv s" using par.reachable_inv [OF assms(1)] by (simp add: par_inv_def)
  then have "\<forall>a. slab_object k = Some a \<longrightarrow> a \<notin> set (task_list s)"
    using assms(2) weak_dead by (auto simp: fresh_object_def)
  then show ?thesis
    using run_register [of k s 0] run_yield [of 4] run_deregister [of 4] run_dispatcher [of 4]
    by (cases cmd) (simp_all add: thread_of_def run_command_def numeral_eq_Suc)
qed

section \<open>Every interleaving\<close>

lemma par_loaded: "reach par_start par_step ([], loaded)"
  by (rule reach_start) (simp add: par_start_def mp2_start_def loaded_def)

lemma reach_turn:
  "reach par_start par_step (ts, s) \<Longrightarrow> i < length ts \<Longrightarrow> supplied k (ts ! i) s \<Longrightarrow> turn k i (ts, s) = Inr c \<Longrightarrow>
   reach par_start par_step c"
  by (rule reach_step) (auto intro: par_step.intros)

lemma reach_turns:
  "reach par_start par_step c \<Longrightarrow> turns_ok xs c \<Longrightarrow> turns xs c = Inr d \<Longrightarrow> reach par_start par_step d"
proof (induction xs c rule: turns.induct)
  case (2 k i xs c)
  obtain ts s e where c: "c = (ts, s)" "turn k i c = Inr e" using 2(4) by (cases c) (auto simp: result_simps)
  have "reach par_start par_step e"
    by (rule reach_turn [of ts s i k e]) (use 2(2,3) c in simp_all)
  then show ?case using 2 c by auto
qed simp

text \<open>Two registrations, in turns, of which one has loaded the total.\<close>

definition two_callers :: par_state where
  "two_callers = ([Check_pid 1 100 10, Check_pid 2 50 10], loaded)"

lemma par_two_callers: "reach par_start par_step two_callers"
proof -
  have a: "reach par_start par_step ([Check_pid 1 100 10], loaded)"
    using reach_step [OF par_loaded par_call [of "[]" loaded "Register 1 100 10"]] by (simp add: thread_of_def)
  show ?thesis
    using reach_step [OF a par_call [of _ loaded "Register 2 50 10"]] by (simp add: thread_of_def two_callers_def)
qed

definition half_way :: "(mp2_kernel \<times> nat) list" where
  "half_way = [(example_kernel 1 0, 0), (example_kernel 2 0, 1), (example_kernel 1 0, 0), (example_kernel 1 0, 0)]"

lemma half_way:
  "turns_ok half_way two_callers"
  "turns half_way two_callers = Inr ([Store_util 0 1 100 10, Admit 2 50 10], loaded)"
  by (simp_all add: half_way_def two_callers_def turn_def eval)

text \<open>
  Without deregistrations no interleaving of registrations, yields and rounds of the dispatching thread
  reads a freed object: from a reachable state whose threads are about to start and whose current task is listed, any order
  of turns ends in a state or in one of the faults of a single operation.
\<close>

theorem no_deregistration_no_stale_pointer:
  assumes "reach par_start par_step (ts, s)" "\<forall>th\<in>set ts. at_rest th \<and> \<not> deregisters th" "ct_ok s" "turns_ok xs (ts, s)"
  shows "turns xs (ts, s) \<noteq> Inl UseAfterFree"
  using turns_calm [OF par.reachable_inv [OF assms(1)] calm_at_rest [OF assms(3,2)] assms(4)] by auto

theorem no_deregistration_no_stale_pointer_witness:
  "turns half_way two_callers \<noteq> Inl UseAfterFree"
proof -
  have "\<forall>th\<in>set [Check_pid 1 100 10, Check_pid 2 50 10]. at_rest th \<and> \<not> deregisters th" by simp
  from no_deregistration_no_stale_pointer [OF _ this, of loaded half_way] show ?thesis
    using par_two_callers half_way(1) loaded_unlocked unlockedD(1) [of loaded] unfolding two_callers_def
    by (simp add: inv_defs)
qed

section \<open>Interleavings that break the operations\<close>

text \<open>
  C17: A deregistration that runs between the two critical sections of another thread leaves it with the
  pointer to a freed task: a yield, a second deregistration and the dispatching thread, which looked for
  the READY task of the shortest period, all go on to read it.
\<close>

theorem deregistration_races:
  assumes "unlocked s" "a \<in> set (task_list s)" "pid (task_at s a) = p"
  shows "turns [(k, 0), (k, 1), (k, 1), (k, 0)] ([Find_yield p, Find_dereg p], s) = Inl UseAfterFree \<and>
    turns [(k, 0), (k, 1), (k, 1), (k, 0)] ([Find_dereg p, Find_dereg p], s) = Inl UseAfterFree \<and>
    (Task_get_highest s = Inr (Some a, s) \<longrightarrow>
      turns [(k, 0), (k, 1), (k, 1), (k, 0)] ([Find_highest, Find_dereg p], s) = Inl UseAfterFree)"
proof -
  note u = unlockedD [OF assms(1)]
  have inv: "weak_inv s" using u(1) by (rule mp2_weak)
  have at: "addr_of s p = Some a" using assms(2,3) u(3) by (intro addr_of_member)
  have find: "find_yield_task p s = Inr (Some a, s)" "find_dereg_task p s = Inr (Some a, s)"
    using u(2) by (simp_all add: find_yield_task_def find_dereg_task_def find_pid_inv [OF u(3)]
        find_last_pid_inv [OF u(3)] at lock_defs)
  have dereg: "deregister_task_at a s = Inr (0, deregistered a s)"
    using deregister_task_at_weak [OF u(4) inv_at [OF u(3) assms(2)] inv_task_ok [OF u(3) assms(2)]] u(2) by simp
  have stale: "slab (deregistered a s) a = None" "\<not> ct_lock (deregistered a s)" "\<not> tl_lock (deregistered a s)"
    using u(2,4) by (simp_all add: deregistered_def)
  show ?thesis
    using stale_sections [OF stale(1,2)] stale(3) by (simp add: turn_def find dereg)
qed

theorem deregistration_races_witness:
  "turns [(example_kernel 2 0, 0), (example_kernel 2 0, 1), (example_kernel 2 0, 1), (example_kernel 2 0, 0)]
    ([Find_yield 1, Find_dereg 1], first_running) = Inl UseAfterFree"
proof -
  have "1 \<in> set (task_list first_running)" "pid (task_at first_running 1) = 1" by (simp_all add: eval)
  from deregistration_races [OF first_running_unlocked this, of "example_kernel 2 0"] show ?thesis by blast
qed

text \<open>
  Two registrations whose searches and tests alternate are both admitted when each one alone would be: neither
  sees the other's pid or utility. They leave both tasks listed, whether or not they have the same pid,
  and the sum of their utilities admitted, whether or not it is above the limit.
\<close>

theorem registrations_interleaved:
  assumes "unlocked s" "p \<notin> set (pids s)" "q \<notin> set (pids s)" "per \<noteq> 0" "per' \<noteq> 0"
    "total_util s + task_util proc per < MAX_UTIL" "total_util s + task_util proc' per' < MAX_UTIL"
    "slab_object k = Some a" "slab_object k' = Some b" "a \<noteq> b" "slab s a = None" "slab s b = None"
  shows "\<exists>t. turns [(k, 0), (k', 1), (k, 0), (k', 1), (k, 0), (k, 0), (k', 1), (k', 1), (k, 0), (k', 1), (k, 0), (k', 1)]
      ([Check_pid p per proc, Check_pid q per' proc'], s) = Inr ([Finished 0, Finished 0], t) \<and>
    pids t = pids s @ [p, q] \<and> total_util t = total_util s + task_util proc per + task_util proc' per'"
proof -
  note u = unlockedD [OF assms(1)]
  have notin: "a \<notin> set (task_list s)" "b \<notin> set (task_list s)"
    using weak_dead [OF mp2_weak [OF u(1)]] assms(11,12) by blast+
  let ?t = "new_task (pid_task k p) p per proc" and ?t' = "new_task (pid_task k' q) q per' proc'"
  let ?s = "s\<lparr>total_util := total_util s + task_util proc per + task_util proc' per',
    slab := (slab s)(a \<mapsto> ?t, b \<mapsto> ?t'), task_list := task_list s @ [a, b]\<rparr>"
  have "turns [(k, 0), (k', 1), (k, 0), (k', 1), (k, 0), (k, 0), (k', 1), (k', 1), (k, 0), (k', 1), (k, 0), (k', 1)]
      ([Check_pid p per proc, Check_pid q per' proc'], s) = Inr ([Finished 0, Finished 0], ?s)"
    using assms(4-10) u(2) check_free [OF u(3,2) assms(2)] check_free [OF u(3,2) assms(3)] notin
    by (simp add: turn_def not_le alloc_task_def link_task_def put_task_def lock_defs find_task_by_pid_def fun_upd_twist)
  moreover have "pids ?s = pids s @ [p, q]"
    using notin assms(10) by (auto simp: view_defs new_task_def)
  ultimately show ?thesis by fastforce
qed

text \<open>The witness: one pid registered twice, with three quarters of a processor each time.\<close>

theorem registrations_interleaved_witness:
  "\<exists>t. turns [(example_kernel 1 0, 0), (example_kernel 2 0, 1), (example_kernel 1 0, 0), (example_kernel 2 0, 1),
      (example_kernel 1 0, 0), (example_kernel 1 0, 0), (example_kernel 2 0, 1), (example_kernel 2 0, 1),
      (example_kernel 1 0, 0), (example_kernel 2 0, 1), (example_kernel 1 0, 0), (example_kernel 2 0, 1)]
      ([Check_pid 1 100 60, Check_pid 1 100 60], loaded) = Inr ([Finished 0, Finished 0], t) \<and>
    pids t = [1, 1] \<and> MAX_UTIL \<le> total_util t"
proof -
  have h: "1 \<notin> set (pids loaded)" "(100 :: u64) \<noteq> 0" "total_util loaded + task_util 60 100 < MAX_UTIL"
    "slab_object (example_kernel 1 0) = Some 1" "slab_object (example_kernel 2 0) = Some 2" "(1 :: nat) \<noteq> 2"
    "slab loaded 1 = None" "slab loaded 2 = None"
    by (simp_all add: eval view_defs)
  have "pids loaded = []" "MAX_UTIL \<le> total_util loaded + task_util 60 100 + task_util 60 100"
    by (simp_all add: eval view_defs)
  with registrations_interleaved [OF loaded_unlocked h(1) h(1) h(2) h(2) h(3) h(3) h(4-8)] show ?thesis by auto
qed

text \<open>
  C16: \<open>Task_register\<close> adds its utility to \<open>total_util\<close> without a lock, so updates are lost. Take a reachable state with no lock held and two
  different pids that are not listed, each of which fits. When the turns of their registrations
  alternate (a turn is a critical section, a read or a write of \<open>total_util\<close>, or the allocation) both return 0 and list their
  tasks, but only the second one's utility is counted. When both deregister, the list is as before and the total lacks the first one's utility; if
  nothing was listed before, the total has wrapped around, and every later registration of a smaller utility, on an empty list, is refused. And a
  deregistration between the load and the store of a registration is lost: its task is gone, its utility stays counted.
\<close>

theorem updates_lost:
  assumes "unlocked s" "p \<notin> set (pids s)" "q \<notin> set (pids s)" "p \<noteq> q" "per \<noteq> 0" "per' \<noteq> 0"
    "total_util s + task_util proc per < MAX_UTIL" "total_util s + task_util proc' per' < MAX_UTIL"
    "slab_object k = Some a" "slab_object k' = Some b" "a \<noteq> b" "slab s a = None" "slab s b = None"
  shows "(\<exists>t u v. turns (concat (replicate 6 [(k, 0), (k', 1)])) ([Check_pid p per proc, Check_pid q per' proc'], s) =
      Inr ([Finished 0, Finished 0], t) \<and> pids t = pids s @ [p, q] \<and> total_util t = total_util s + task_util proc' per' \<and>
    Task_deregister p t = Inr (0, u) \<and> Task_deregister q u = Inr (0, v) \<and> pids v = pids s \<and>
    total_util v = total_util s - task_util proc per \<and>
    (task_list s = [] \<longrightarrow> (\<forall>f new r per2 proc2. per2 \<noteq> 0 \<and> task_util proc2 per2 < task_util proc per \<longrightarrow>
      Task_register f new r per2 proc2 v = Inr (-1, v)))) \<and>
   (\<forall>c r. c \<in> set (task_list s) \<and> pid (task_at s c) = r \<longrightarrow>
     (\<exists>t. turns [(k, 0), (k, 0), (k, 0), (k, 1), (k, 1), (k, 0), (k, 0), (k, 0)] ([Check_pid p per proc, Find_dereg r], s) =
         Inr ([Finished 0, Finished 0], t) \<and>
       pids t = remove1 r (pids s) @ [p] \<and> total_util t = total_util s + task_util proc per))"
  using lost_registration [OF assms] lost_deregistration [OF unlockedD(3,2,4) [OF assms(1)] assms(2,5,7,9,12)] by blast

text \<open>A tenth and a fifth of a processor on an empty list, after which a twentieth is refused; and a third task while the first one deregisters.\<close>

theorem updates_lost_witness:
  "(\<exists>t u v. turns (concat (replicate 6 [(example_kernel 1 0, 0), (example_kernel 2 0, 1)]))
       ([Check_pid 1 100 10, Check_pid 2 50 10], loaded) = Inr ([Finished 0, Finished 0], t) \<and> total_util t = 209715 \<and>
     Task_deregister 1 t = Inr (0, u) \<and> Task_deregister 2 u = Inr (0, v) \<and> pids v = [] \<and>
     Task_register (\<lambda>_. Some 3) (Some 3) 3 100 5 v = Inr (-1, v)) \<and>
   (\<exists>t. turns [(example_kernel 2 0, 0), (example_kernel 2 0, 0), (example_kernel 2 0, 0), (example_kernel 2 0, 1),
       (example_kernel 2 0, 1), (example_kernel 2 0, 0), (example_kernel 2 0, 0), (example_kernel 2 0, 0)]
       ([Check_pid 2 100 10, Find_dereg 1], first_running) = Inr ([Finished 0, Finished 0], t) \<and> pids t = [2] \<and>
     total_util t = total_util first_running + 104857)"
proof -
  have h: "1 \<notin> set (pids loaded)" "2 \<notin> set (pids loaded)" "(1 :: u32) \<noteq> 2" "(100 :: u64) \<noteq> 0" "(50 :: u64) \<noteq> 0"
    "total_util loaded + task_util 10 100 < MAX_UTIL" "total_util loaded + task_util 10 50 < MAX_UTIL"
    "slab_object (example_kernel 1 0) = Some 1" "slab_object (example_kernel 2 0) = Some 2" "(1 :: nat) \<noteq> 2"
    "slab loaded 1 = None" "slab loaded 2 = None"
    by (simp_all add: eval view_defs)
  have e: "task_list loaded = []" "pids loaded = []" "total_util loaded + task_util 10 50 = 209715"
    "(100 :: u64) \<noteq> 0 \<and> task_util 5 100 < task_util 10 100"
    by (simp_all add: eval view_defs)
  note first = conjunct1 [OF updates_lost [OF loaded_unlocked h]]
  have g: "2 \<notin> set (pids first_running)" "3 \<notin> set (pids first_running)" "(2 :: u32) \<noteq> 3" "(100 :: u64) \<noteq> 0"
    "total_util first_running + task_util 10 100 < MAX_UTIL"
    "slab_object (example_kernel 2 0) = Some 2" "slab_object (example_kernel 3 0) = Some 3" "(2 :: nat) \<noteq> 3"
    "slab first_running 2 = None" "slab first_running 3 = None"
    by (simp_all add: eval view_defs)
  have l: "1 \<in> set (task_list first_running) \<and> pid (task_at first_running 1) = 1" "remove1 1 (pids first_running) = []"
    "task_util 10 100 = 104857"
    by (simp_all add: eval view_defs)
  note second = conjunct2 [OF updates_lost [OF first_running_unlocked g(1,2,3,4,4,5,5,6-10)], THEN spec, THEN spec, THEN mp, OF l(1)]
  from first obtain t u v where t: "turns (concat (replicate 6 [(example_kernel 1 0, 0), (example_kernel 2 0, 1)]))
       ([Check_pid 1 100 10, Check_pid 2 50 10], loaded) = Inr ([Finished 0, Finished 0], t)"
     "total_util t = total_util loaded + task_util 10 50" "Task_deregister 1 t = Inr (0, u)" "Task_deregister 2 u = Inr (0, v)"
     "pids v = pids loaded" "\<forall>f new r per2 proc2. per2 \<noteq> 0 \<and> task_util proc2 per2 < task_util 10 100 \<longrightarrow>
       Task_register f new r per2 proc2 v = Inr (-1, v)"
    using e(1) by blast
  have "Task_register (\<lambda>_. Some 3) (Some 3) 3 100 5 v = Inr (-1, v)" using t(6) e(4) by blast
  with t have "\<exists>t u v. turns (concat (replicate 6 [(example_kernel 1 0, 0), (example_kernel 2 0, 1)]))
       ([Check_pid 1 100 10, Check_pid 2 50 10], loaded) = Inr ([Finished 0, Finished 0], t) \<and> total_util t = 209715 \<and>
     Task_deregister 1 t = Inr (0, u) \<and> Task_deregister 2 u = Inr (0, v) \<and> pids v = [] \<and>
     Task_register (\<lambda>_. Some 3) (Some 3) 3 100 5 v = Inr (-1, v)"
    unfolding e(2,3) by blast
  then show ?thesis using second unfolding l(2,3) append_Nil by (rule conjI)
qed

section \<open>Wake-ups during a round\<close>

text \<open>
  C21: The dispatching thread loses the wake-ups that come while it is in a round: it goes to sleep at the head of its loop
  without looking again. When a timer fires after a round has looked for the READY task of the shortest period and before the round has ended,
  its task is READY and the thread asleep. If every other thread has ended by then and no other timer is pending, no further step
  of the module changes anything: the task's process, the processor being idle or not, waits until some other process calls the module.
\<close>

theorem round_misses_wakeup:
  assumes "reach par_start par_step (ts, s)" "i < length ts" "ts ! i = Switch_to h" "timer_pending a s" "h \<noteq> Some a"
    and "fire_timer a s = Inr u" "fresh_object k u" "turn k i (ts, u) = Inr (ts', t)"
  shows "reach par_start par_step (ts', t) \<and> a \<in> set (task_list t) \<and> state (task_at t a) = READY \<and> \<not> woken t \<and>
    ((\<forall>j<length ts. j = i \<or> (\<exists>r. ts ! j = Finished r)) \<and> (\<forall>b. timer_pending b s \<longrightarrow> b = a) \<longrightarrow>
      (\<forall>us v. par_step (ts', t) (us, v) \<longrightarrow> v = t))"
proof -
  have inv: "weak_inv s" using par.reachable_inv [OF assms(1)] by (simp add: par_inv_def)
  have "reach par_start par_step (ts, u)" by (rule reach_step [OF assms(1) par_timer [OF assms(4,6)]])
  then have reached: "reach par_start par_step (ts', t)" by (rule reach_step) (rule par_turn [OF assms(2) fresh_supplied [OF assms(7)] assms(8)])
  note f = fired_weak [OF inv assms(4,6)]
  obtain v where v: "dispatch_switch h u = Inr v" "t = v\<lparr>woken := False\<rparr>" "ts' = ts[i := Finished 0]"
    using assms(3,8) by (auto simp: turn_def result_simps)
  have ready: "state (task_at t a) = READY" "\<not> woken t"
    using switch_leaves(1) [OF v(1) assms(5) f(1)] v(2) by (simp_all add: task_at_def)
  have pending: "timer_pending b t \<longleftrightarrow> timer_pending b s \<and> b \<noteq> a" for b
    using switch_leaves(2) [OF v(1), of b] f(5) [of b] v(2) by (simp add: timer_pending_def task_at_def)
  have "x = t" if "\<forall>j<length ts. j = i \<or> (\<exists>r. ts ! j = Finished r)" "\<forall>b. timer_pending b s \<longrightarrow> b = a" "par_step (ts', t) (us, x)" for us x
  proof (rule all_finished [OF _ ready(2) _ that(3)])
    show "\<forall>th\<in>set ts'. \<exists>r. th = Finished r"
    proof
      fix th assume "th \<in> set ts'"
      then obtain j where "j < length ts" "th = ts[i := Finished 0] ! j" unfolding v(3) in_set_conv_nth by auto
      with that(1) show "\<exists>r. th = Finished r" by (cases "j = i") (auto simp: nth_list_update)
    qed
  qed (use that(2) pending in auto)
  moreover have "a \<in> set (task_list t)" using assms(4) f(3) switch_task_list [OF v(1)] v(2) by (simp add: timer_pending_def)
  ultimately show ?thesis using reached ready by blast
qed

text \<open>Task 1 has yielded and sleeps; the round this yield has woken finds no READY task, and then the timer fires.\<close>

definition one_registered :: mp2_state where
  "one_registered = loaded\<lparr>total_util := 104857, task_list := [1], slab := [1 \<mapsto> new_task (Some 1) 1 100 10]\<rparr>"

definition one_asleep :: mp2_state where
  "one_asleep = yielded ucast 1000 1 1 one_registered"

abbreviation at_1000 :: "addr \<Rightarrow> mp2_kernel" where
  "at_1000 a \<equiv> example_kernel a 1000"

lemmas one_eval = supplied_def turn_def one_asleep_def one_registered_def yielded_def slept_def

lemma one_turns:
  "turns_ok [(at_1000 1, 0), (at_1000 1, 0), (at_1000 1, 0), (at_1000 1, 0), (at_1000 1, 0), (at_1000 1, 0)] ([Check_pid 1 100 10], loaded)"
  "turns [(at_1000 1, 0), (at_1000 1, 0), (at_1000 1, 0), (at_1000 1, 0), (at_1000 1, 0), (at_1000 1, 0)] ([Check_pid 1 100 10], loaded) =
    Inr ([Finished 0], one_registered)"
  "turns_ok [(at_1000 2, 1), (at_1000 2, 1)] ([Finished 0, Find_yield 1], one_registered)"
  "turns [(at_1000 2, 1), (at_1000 2, 1)] ([Finished 0, Find_yield 1], one_registered) = Inr ([Finished 0, Finished 0], one_asleep)"
  "turns_ok [(at_1000 2, 2)] ([Finished 0, Finished 0, Find_highest], one_asleep)"
  "turns [(at_1000 2, 2)] ([Finished 0, Finished 0, Find_highest], one_asleep) =
    Inr ([Finished 0, Finished 0, Switch_to None], one_asleep)"
  by (simp_all add: one_eval eval find_yield_task_def)

lemma round_start_reach: "reach par_start par_step ([Finished 0, Finished 0, Switch_to None], one_asleep)"
proof -
  have "reach par_start par_step ([Check_pid 1 100 10], loaded)"
    using reach_step [OF par_loaded par_call [of "[]" loaded "Register 1 100 10"]] by (simp add: thread_of_def)
  note r1 = reach_turns [OF this one_turns(1,2)]
  have "reach par_start par_step ([Finished 0, Find_yield 1], one_registered)"
    using reach_step [OF r1 par_call [of "[Finished 0]" one_registered "Yield 1"]] by (simp add: thread_of_def)
  note r2 = reach_turns [OF this one_turns(3,4)]
  have "par_step ([Finished 0, Finished 0], one_asleep) ([Finished 0, Finished 0] @ [Find_highest], one_asleep)"
    by (rule par_dispatch) (simp_all add: one_eval eval)
  with r2 have "reach par_start par_step ([Finished 0, Finished 0, Find_highest], one_asleep)"
    using reach_step [OF r2] by fastforce
  from reach_turns [OF this one_turns(5,6)] show ?thesis .
qed

theorem round_misses_wakeup_witness:
  "\<exists>u t. fire_timer 1 one_asleep = Inr u \<and>
     turn (at_1000 2) 2 ([Finished 0, Finished 0, Switch_to None], u) = Inr ([Finished 0, Finished 0, Finished 0], t) \<and>
     state (task_at t 1) = READY \<and> ct t = None \<and>
     (\<forall>us v. par_step ([Finished 0, Finished 0, Finished 0], t) (us, v) \<longrightarrow> v = t)"
proof -
  define u where "u = the (run_action (Fire 1) one_asleep)"
  define t where "t = u\<lparr>woken := False\<rparr>"
  have f: "fire_timer 1 one_asleep = Inr u" "fresh_object (at_1000 2) u" and ct: "ct t = None"
    by (simp_all add: t_def u_def one_eval eval)
  have r: "turn (at_1000 2) 2 ([Finished 0, Finished 0, Switch_to None], u) = Inr ([Finished 0, Finished 0, Finished 0], t)"
    by (simp add: t_def u_def one_eval eval)
  have p: "timer_pending 1 one_asleep" "\<forall>b. timer_pending b one_asleep \<longrightarrow> b = 1" by (simp_all add: one_eval eval)
  have all: "\<forall>j<length [Finished 0, Finished 0, Switch_to None]. j = 2 \<or> (\<exists>r. [Finished 0, Finished 0, Switch_to None] ! j = Finished r)"
    by (simp add: less_Suc_eq numeral_eq_Suc)
  have i: "2 < length [Finished 0, Finished 0, Switch_to None]" "[Finished 0, Finished 0, Switch_to None] ! 2 = Switch_to None"
    "(None :: addr option) \<noteq> Some 1" by simp_all
  from round_misses_wakeup [OF round_start_reach i(1,2) p(1) i(3) f r] all p(2) have
    "state (task_at t 1) = READY" "\<forall>us v. par_step ([Finished 0, Finished 0, Finished 0], t) (us, v) \<longrightarrow> v = t" by blast+
  then show ?thesis using f(1) r ct by blast
qed

end
