(* ===== verification/Mp2_Walk_Props.thy ===== *)
theory Mp2_Walk_Props
  imports Mp2_Timer_Walk Mp2_Race_Props
begin

text \<open>
  The properties of the timer callback as a walk that takes turns with the threads: alone it is the atomic callback,
  what holds of every order of turns, and the deregistration that frees the node it is at.
\<close>

section \<open>The callback alone\<close>

text \<open>
  C18: The timer callback cut into its accesses is the callback. When a timer fires in any state that any interleaving of the other
  threads leads to, and the callback's turns follow one another, two for each listed task and one to leave, they have the same result
  as the whole handler in one step, and the callback is over.
\<close>

theorem uninterrupted_callback:
  assumes "reach par_start par_step (ts, s)" "timer_pending a s"
  shows "walk_turns (Timer_fires a # replicate (Suc (2 * length (task_list s))) Callback_turn) (None, ts, s) =
    rbind (fire_timer a s) (\<lambda>t. Inr (None, ts, t))"
  using callback_alone [OF _ assms(2)] par.reachable_inv [OF assms(1)] by (simp add: par_inv_def)

theorem uninterrupted_callback_witness:
  "\<exists>t. walk_turns [Timer_fires 1, Callback_turn, Callback_turn, Callback_turn]
       (None, [Finished 0, Finished 0, Switch_to None], one_asleep) =
     Inr (None, [Finished 0, Finished 0, Switch_to None], t) \<and> state (task_at t 1) = READY \<and> woken t"
proof -
  have p: "timer_pending 1 one_asleep" and l: "task_list one_asleep = [1]" by (simp_all add: one_eval eval)
  obtain t where t: "fire_timer 1 one_asleep = Inr t" "state (task_at t 1) = READY" "woken t" by (simp add: one_eval eval)
  from uninterrupted_callback [OF round_start_reach p] show ?thesis unfolding l t(1) using t(2,3) by (simp add: numeral_eq_Suc)
qed

section \<open>Every order of turns\<close>

text \<open>
  C19: The timer callback and any number of threads taking turns. A turn of the callback is its access to one node, under its spin lock; a turn
  of a thread is a critical section under its mutex, a read or a write of \<open>total_util\<close> outside of the sections, the allocation of an object, or
  a switch of the dispatching thread. Whatever the order, deregistrations included, after every order of turns that has not faulted the list holds distinct live objects with periods other
  than 0, and the spin lock is held exactly while a callback is under way. From a reachable state without a callback, whose current task is listed and
  whose threads have not begun or have ended, no order of turns in which nobody deregisters makes the callback or a thread read a freed object or
  link a node twice; the current task stays a listed one; and if the total was at most the utility of the listed tasks, as it is after
  loading, it stays at most that of the listed tasks and of the registrations about to list theirs. It may be less (C16).
\<close>

theorem callback_walk_safe:
  assumes "reach walk_start walk_step (w, ts, s)"
  shows "distinct (task_list s) \<and> (\<forall>a\<in>set (task_list s). \<exists>t. slab s a = Some t \<and> period t \<noteq> 0) \<and>
    (spin_held s \<longleftrightarrow> w \<noteq> None) \<and>
    (w = None \<and> (\<forall>th\<in>set ts. at_rest th \<and> \<not> deregisters th) \<and> (\<forall>a. ct s = Some a \<longrightarrow> a \<in> set (task_list s)) \<and>
     list_all (\<lambda>x. \<not> deregisters_in x) xs \<longrightarrow>
      walk_turns xs (w, ts, s) \<noteq> Inl UseAfterFree \<and> walk_turns xs (w, ts, s) \<noteq> Inl ListCorrupt \<and>
      (\<forall>w' ts' s'. walk_turns xs (w, ts, s) = Inr (w', ts', s') \<longrightarrow>
        (\<forall>a. ct s' = Some a \<longrightarrow> a \<in> set (task_list s')) \<and>
        (unat (total_util s) \<le> sum_list (map (util_at (slab s)) (task_list s)) \<longrightarrow>
          unat (total_util s') \<le> sum_list (map (util_at (slab s')) (task_list s')) +
            sum_list (map (reserved (slab s')) ts'))))"
proof -
  have inv: "walk_inv (w, ts, s)" using walk.reachable_inv [OF assms] .
  then have weak: "weak_inv (unspun s)" and spin: "spin_held s \<longleftrightarrow> w \<noteq> None"
    by (simp_all add: walk_inv_def par_inv_def)
  have "distinct (task_list s)" "\<exists>t. slab s a = Some t \<and> period t \<noteq> 0" if "a \<in> set (task_list s)" for a
    using weak weak_at [OF weak, of a] that by (auto simp: weak_defs task_ok_def)
  moreover have "distinct (task_list s)" using weak by (simp add: weak_defs)
  ultimately show ?thesis using spin walk_from_rest [OF inv, of xs] by blast
qed

lemma walk_loaded: "reach walk_start walk_step (None, [], loaded)"
  by (rule reach_start) (simp add: walk_start_def par_start_def mp2_start_def loaded_def)

text \<open>Task 1 has registered and yielded; while the callback of its timer is at its node, task 2 registers and is visited too.\<close>

definition registers_as :: "nat \<Rightarrow> addr \<Rightarrow> walk_act list" where
  "registers_as i a = [Thread_turn (at_1000 a) i, Thread_turn (at_1000 a) i, Thread_turn (at_1000 a) i,
     Thread_turn (at_1000 a) i, Thread_turn (at_1000 a) i, Thread_turn (at_1000 a) i]"

definition walk_example :: "walk_act list" where
  "walk_example =
     Call_in (Register 1 100 10) # registers_as 0 1 @
     [Call_in (Yield 1), Thread_turn (at_1000 2) 1, Thread_turn (at_1000 2) 1, Timer_fires 1, Callback_turn,
      Call_in (Register 2 50 10)] @ registers_as 2 2 @ [Callback_turn]"

definition walk_middle :: walk_state where
  "walk_middle = (case walk_turns walk_example (None, [], loaded) of Inl e \<Rightarrow> undefined | Inr c \<Rightarrow> c)"

lemmas walk_eval = walk_middle_def walk_example_def registers_as_def thread_of_def turn_def enter_callback_def walk_from_def
  first_node_def find_yield_task_def Let_def supplied_def

lemma walk_middle: "walk_turns walk_example (None, [], loaded) = Inr walk_middle"
  by (simp add: walk_eval eval)

lemma walk_middle_at: "fst walk_middle = Some (Visit 1 2)" "task_list (snd (snd walk_middle)) = [1, 2]"
  "state (task_at (snd (snd walk_middle)) 1) = READY" "sum_list (map (reserved (slab (snd (snd walk_middle)))) (fst (snd walk_middle))) = 0"
  by (simp_all add: walk_eval eval)

theorem callback_walk_safe_witness:
  "spin_held (snd (snd walk_middle)) \<and> walk_turns (walk_example @ [Callback_turn]) (None, [], loaded) \<noteq> Inl UseAfterFree \<and>
   unat (total_util (snd (snd walk_middle))) \<le> sum_list (map (util_at (slab (snd (snd walk_middle)))) [1, 2])"
proof -
  have "reach walk_start walk_step (fst walk_middle, fst (snd walk_middle), snd (snd walk_middle))"
    using walk_turns_reach [OF walk_loaded walk_middle] by simp
  from callback_walk_safe [OF this, of "[]"] have s: "spin_held (snd (snd walk_middle))" by (simp add: walk_middle_at)
  have d: "None = None \<and> (\<forall>th\<in>set []. at_rest th \<and> \<not> deregisters th) \<and> (\<forall>a. ct loaded = Some a \<longrightarrow> a \<in> set (task_list loaded)) \<and>
      list_all (\<lambda>x. \<not> deregisters_in x) (walk_example @ [Callback_turn])"
      "list_all (\<lambda>x. \<not> deregisters_in x) walk_example"
    by (simp_all add: walk_example_def registers_as_def eval)
  have u: "walk_turns (walk_example @ [Callback_turn]) (None, [], loaded) \<noteq> Inl UseAfterFree"
    using callback_walk_safe [OF walk_loaded, of "walk_example @ [Callback_turn]"] d(1) by blast
  have m: "walk_turns walk_example (None, [], loaded) = Inr (fst walk_middle, fst (snd walk_middle), snd (snd walk_middle))"
    using walk_middle by simp
  have "unat (total_util loaded) \<le> sum_list (map (util_at (slab loaded)) (task_list loaded))" by (simp add: eval)
  with callback_walk_safe [OF walk_loaded, of walk_example] d m
  have "unat (total_util (snd (snd walk_middle))) \<le> sum_list (map (util_at (slab (snd (snd walk_middle)))) (task_list (snd (snd walk_middle)))) +
      sum_list (map (reserved (slab (snd (snd walk_middle)))) (fst (snd walk_middle)))"
    by blast
  with s u show ?thesis by (simp add: walk_middle_at)
qed

section \<open>A deregistration under the callback\<close>

text \<open>
  C20: The mutex that deregistration holds does not keep it from the list the callback walks. Whatever timer fires and whichever task is
  being deregistered, there is a number of turns of the callback, two for each task listed before that one, after which
  the removal is in time to free the node the callback is at: its next turn reads the freed object.
\<close>

theorem callback_walk_races:
  assumes "unlocked s" "timer_pending a s" "task_list s = as @ b # bs" "pid (task_at s b) = p" "fresh_object k s"
  shows "walk_turns (Thread_turn k 0 # Timer_fires a # replicate (2 * length as) Callback_turn @ [Thread_turn k 0, Callback_turn])
    (None, [Find_dereg p], s) = Inl UseAfterFree"
proof -
  note u = unlockedD [OF assms(1)]
  have inv: "weak_inv s" using u(1) by (rule mp2_weak)
  have same: "unspun s = s" using u(5) by (simp add: unspun_def)
  have "addr_of s p = Some b" using assms(3,4) u(3) by (intro addr_of_member) simp_all
  then have find: "find_dereg_task p s = Inr (Some b, s)"
    using u(2) by (simp add: find_dereg_task_def find_pid_inv [OF u(3)] lock_defs)
  obtain c t where e: "enter_callback a s = Inr (c, t)" using enter_callback_live [OF _ assms(2) u(5)] inv same by auto
  have weak: "weak_inv (unspun t)" and dom: "dom (slab t) = dom (slab s)"
    using enter_callback_in_place(1) [OF _ e] inv same by (simp_all add: in_place_def kept_def)
  obtain d where c: "c = walk_from d (first_node (task_list s))" and list: "task_list t = task_list s"
    using enter_callback_in_place(4) [OF _ e] inv same by auto
  have tl: "\<not> tl_lock t" using e u(2) by (auto simp: enter_callback_def result_simps Let_def put_task_def split: if_splits)
  have "task_list t = [] @ as @ b # bs" using list assms(3) by simp
  from callback_reaches [OF weak this, of d "[Dereg_task b]"] obtain v
    where v: "walk_turns (replicate (2 * length as) Callback_turn) (Some c, [Dereg_task b], t) = Inr (Some (Visit d b), [Dereg_task b], v)"
      "weak_inv (unspun v)" "task_list v = task_list t" "tl_lock v = tl_lock t" "dom (slab v) = dom (slab t)"
    unfolding c assms(3) by blast
  have "fresh_object k v"
    using assms(5) v(5) dom by (auto simp: fresh_object_def domIff)
  then have "walk_turns [Thread_turn k 0, Callback_turn] (Some (Visit d b), [Dereg_task b], v) = Inl UseAfterFree"
    by (intro removed_node [OF v(2)]) (use v list tl assms(3) in auto)
  then show ?thesis
    using assms(2,5) e v(1) find by (simp add: walk_turns_append turn_def del: replicate.simps)
qed

text \<open>Two tasks sleep; the callback of the first one's timer has gone on to the second one when that is removed.\<close>

definition both_asleep :: mp2_state where
  "both_asleep = the (run_schedule (take 4 start_both) loaded)"

theorem callback_walk_races_witness:
  "walk_turns [Thread_turn (at_1000 3) 0, Timer_fires 1, Callback_turn, Callback_turn, Thread_turn (at_1000 3) 0, Callback_turn]
    (None, [Find_dereg 2], both_asleep) = Inl UseAfterFree"
proof -
  have run: "run_schedule (take 4 start_both) loaded = Some both_asleep" "\<not> tl_lock both_asleep"
    by (simp_all add: both_asleep_def eval)
  have h: "timer_pending 1 both_asleep" "task_list both_asleep = [1] @ 2 # []" "pid (task_at both_asleep 2) = 2"
    "fresh_object (at_1000 3) both_asleep"
    by (simp_all add: both_asleep_def eval)
  from callback_walk_races [OF schedule_unlocked [OF run] h] show ?thesis by (simp add: numeral_eq_Suc)
qed

end
