(* ===== verification/Mp2_Wakeup.thy ===== *)
theory Mp2_Wakeup
  imports Mp2_Safety
begin

text \<open>
  Wake-ups of the scheduler module. The dispatching thread sleeps between its rounds and a process
  sleeps between its periods, so a wake-up that is forgotten is lost for good. Shown here: the thread
  has been woken whenever there is a READY task it should start, a sleeping process of the list is
  always waited for by a timer or READY, and a process that runs is not asleep. The yield is
  also cut at its call of \<open>schedule()\<close>, which it makes with \<open>tl_lock\<close> held.
\<close>

section \<open>What a step does\<close>

text \<open>
  The steps of \<open>mp2_step\<close> in closed form: what a command that returns may have done to a
  well-formed state, and what a round of the dispatching thread may have done.
\<close>

definition untouched :: "mp2_state \<Rightarrow> mp2_state \<Rightarrow> bool" where
  "untouched s t \<longleftrightarrow> task_list t = task_list s \<and> slab t = slab s \<and> ct t = ct s \<and> woken t = woken s \<and> calls t = calls s"

definition redue :: "addr \<Rightarrow> u64 \<Rightarrow> mp2_state \<Rightarrow> mp2_state" where
  "redue a d s = s\<lparr>slab := (slab s)(a \<mapsto> (task_at s a)\<lparr>next_ddl := d\<rparr>), tl_lock := True\<rparr>"

inductive command_effect :: "mp2_kernel \<Rightarrow> mp2_command \<Rightarrow> mp2_state \<Rightarrow> mp2_state \<Rightarrow> bool" where
  effect_none: "untouched s t \<Longrightarrow> command_effect k cmd s t"
| effect_register: "slab_object k = Some a \<Longrightarrow> p \<notin> set (pids s) \<Longrightarrow>
    command_effect k (Register p per proc) s (registered a (new_task (pid_task k p) p per proc) s)"
| effect_missed: "a \<in> set (task_list s) \<Longrightarrow> command_effect k (Yield p) s (redue a d s)"
| effect_yield: "a \<in> set (task_list s) \<Longrightarrow> linux_task (task_at s a) = Some kt \<Longrightarrow>
    command_effect k (Yield p) s (yielded (msecs_to_jiffies k) (jiffies k) a kt s)"
| effect_deregister: "a \<in> set (task_list s) \<Longrightarrow> command_effect k (Deregister p) s (deregistered a s)"

lemma command_effectI:
  assumes inv: "mp2_inv s" and run: "run_command k cmd s = Inr (r, t)"
  shows "command_effect k cmd s t"
proof (cases "tl_lock s \<and> cmd \<noteq> Ignored")
  case True
  then show ?thesis using run by (cases cmd) (simp_all add: run_command_def)
next
  case False
  note ok = mp2_list_ok [OF inv]
  have ct: "\<not> ct_lock s" using inv by (simp add: mp2_inv_def)
  show ?thesis
  proof (cases cmd)
    case (Register p per proc)
    with run False ok show ?thesis
      by (auto simp: run_command_def Task_register_eq untouched_def split: if_splits option.splits
          intro: effect_none effect_register)
  next
    case (Yield p)
    with run False ok ct show ?thesis
      by (auto simp: run_command_def Task_yeild_eq untouched_def redue_def [symmetric] split: if_splits option.splits
          dest: addr_of_Some intro: effect_none effect_missed effect_yield)
  next
    case (Deregister p)
    with run False ok ct show ?thesis
      by (auto simp: run_command_def Task_deregister_eq untouched_def split: if_splits option.splits
          dest: addr_of_Some intro: effect_none effect_deregister)
  next
    case Ignored
    with run show ?thesis by (simp add: run_command_def effect_none untouched_def)
  qed
qed

text \<open>A round of the dispatching thread: nothing, a demotion, a start, or a preemption.\<close>

definition mark :: "addr \<Rightarrow> u32 \<Rightarrow> kcall list \<Rightarrow> mp2_state \<Rightarrow> mp2_state" where
  "mark a st cs s = s\<lparr>slab := (slab s)(a \<mapsto> (task_at s a)\<lparr>state := st\<rparr>), calls := calls s @ cs\<rparr>"

inductive round_effect :: "mp2_state \<Rightarrow> mp2_state \<Rightarrow> bool" where
  round_idle: "\<forall>a\<in>set (task_list s). \<not> is_ready (slab s) a \<Longrightarrow> ct s = None \<Longrightarrow> round_effect s s"
| round_keep: "first_least (slab s) (task_list s) h \<Longrightarrow> ct s = Some c \<Longrightarrow>
    \<not> period_at (slab s) h < period_at (slab s) c \<Longrightarrow> round_effect s s"
| round_demote: "\<forall>a\<in>set (task_list s). \<not> is_ready (slab s) a \<Longrightarrow> ct s = Some c \<Longrightarrow>
    linux_task (task_at s c) = Some kc \<Longrightarrow> round_effect s (mark c READY [Sched_setscheduler kc SCHED_NORMAL 0] s)"
| round_start: "first_least (slab s) (task_list s) h \<Longrightarrow> ct s = None \<Longrightarrow> linux_task (task_at s h) = Some kh \<Longrightarrow>
    round_effect s ((mark h RUNNING [Wake_up_process kh, Sched_setscheduler kh SCHED_FIFO 99] s)\<lparr>ct := Some h\<rparr>)"
| round_preempt: "first_least (slab s) (task_list s) h \<Longrightarrow> ct s = Some c \<Longrightarrow>
    period_at (slab s) h < period_at (slab s) c \<Longrightarrow>
    linux_task (task_at s h) = Some kh \<Longrightarrow> linux_task (task_at s c) = Some kc \<Longrightarrow>
    round_effect s ((mark h RUNNING [Wake_up_process kh, Sched_setscheduler kh SCHED_FIFO 99]
      (mark c READY [Sched_setscheduler kc SCHED_NORMAL 0] s))\<lparr>ct := Some h\<rparr>)"

lemma mark_other: "b \<noteq> a \<Longrightarrow> task_at (mark a st cs s) b = task_at s b"
  by (simp add: mark_def task_at_def)

lemma mark_same: "task_at (mark a st cs s) a = (task_at s a)\<lparr>state := st\<rparr>"
  by (simp add: mark_def task_at_def)

lemma dispatch_switch_null:
  assumes "dispatch_switch (Some h) s = Inr t"
  shows "ct s = None \<Longrightarrow> \<exists>k. linux_task (task_at s h) = Some k"
    and "ct s = Some c \<Longrightarrow> period_at (slab s) h < period_at (slab s) c \<Longrightarrow>
      (\<exists>k. linux_task (task_at s h) = Some k) \<and> (\<exists>k. linux_task (task_at s c) = Some k)"
  using assms
  by (auto simp: dispatch_switch_def result_simps preempt_Inr run_task_Inr lock_defs ct_above_def period_at_def
      task_at_def split: if_splits option.splits)

lemma dispatch_switch_demotes:
  "dispatch_switch None s = Inr t \<Longrightarrow> ct s = Some c \<Longrightarrow> \<exists>k. linux_task (task_at s c) = Some k"
  by (auto simp: dispatch_switch_def result_simps preempt_Inr lock_defs task_at_def split: if_splits)

lemma body_effect:
  assumes inv: "mp2_inv s" and run: "dispatch_body s = Inr t"
  shows "round_effect s t"
proof -
  have ok: "list_ok s" "\<not> ct_lock s" using inv by (simp_all add: mp2_list_ok mp2_inv_def)
  have tl: "\<not> tl_lock s" using run by (auto simp: dispatch_body_def)
  have at: "slab s a = Some (task_at s a)" if "a \<in> set (task_list s)" for a using inv_at [OF ok(1) that] .
  have cur: "slab s c = Some (task_at s c)" if "ct s = Some c" for c using at that inv by (simp add: inv_defs)
  obtain h where h: "Task_get_highest s = Inr (h, s)" using rm.select_returns ok(1) tl by blast
  then have sw: "dispatch_switch h s = Inr t" using run by (simp add: dispatch_body_def)
  show ?thesis
  proof (cases h)
    case None
    then have none: "\<forall>a\<in>set (task_list s). \<not> is_ready (slab s) a"
      using Task_get_highest_None [OF ok(1) tl] h by blast
    show ?thesis
    proof (cases "ct s")
      case None
      then have "t = s" using sw ok(2) by (simp add: dispatch_switch_def \<open>h = None\<close> lock_defs)
      with none None show ?thesis by (auto intro: round_idle)
    next
      case (Some c)
      obtain kc where kc: "linux_task (task_at s c) = Some kc"
        using dispatch_switch_demotes sw Some \<open>h = None\<close> by blast
      have "t = mark c READY [Sched_setscheduler kc SCHED_NORMAL 0] s"
        using dispatch_idle [OF ok(2) Some cur [OF Some] kc] sw by (simp add: \<open>h = None\<close> mark_def)
      with round_demote [OF none Some kc] show ?thesis by simp
    qed
  next
    case (Some a)
    have sel: "first_least (slab s) (task_list s) a" using Task_get_highest_Some [OF ok(1) tl] h Some by blast
    then have a: "slab s a = Some (task_at s a)" using at first_least_member by blast
    note sw = sw [unfolded Some]
    show ?thesis
    proof (cases "ct s")
      case None
      obtain kh where kh: "linux_task (task_at s a) = Some kh" using dispatch_switch_null(1) [OF sw None] by blast
      have "t = (mark a RUNNING [Wake_up_process kh, Sched_setscheduler kh SCHED_FIFO 99] s)\<lparr>ct := Some a\<rparr>"
        using dispatch_start [OF ok(2) a None kh] sw by (simp add: mark_def)
      with round_start [OF sel None kh] show ?thesis by simp
    next
      case (Some c)
      show ?thesis
      proof (cases "period_at (slab s) a < period_at (slab s) c")
        case True
        obtain kh kc where k: "linux_task (task_at s a) = Some kh" "linux_task (task_at s c) = Some kc"
          using dispatch_switch_null(2) [OF sw Some True] by blast
        have "a \<noteq> c" using True by auto
        then have "t = (mark a RUNNING [Wake_up_process kh, Sched_setscheduler kh SCHED_FIFO 99]
            (mark c READY [Sched_setscheduler kc SCHED_NORMAL 0] s))\<lparr>ct := Some a\<rparr>"
          using dispatch_replace [OF ok(2) a Some cur [OF Some] _ k] True sw
          by (simp add: mark_def task_at_def period_at_def)
        with round_preempt [OF sel Some True k] show ?thesis by simp
      next
        case False
        then have "t = s"
          using dispatch_keep [OF ok(2) a Some cur [OF Some]] sw by (simp add: task_at_def period_at_def)
        with sel Some False show ?thesis by (auto intro: round_keep)
      qed
    qed
  qed
qed

lemma round_effectI:
  assumes "mp2_inv s" "dispaching_thread_function 1 s = Inr t"
  shows "round_effect (s\<lparr>woken := False\<rparr>) t"
proof -
  have "mp2_inv (s\<lparr>woken := False\<rparr>)" using assms(1) by (simp add: mp2_inv_def)
  moreover have "dispatch_body (s\<lparr>woken := False\<rparr>) = Inr t"
    using assms(2) by (simp add: result_simps numeral_eq_Suc)
  ultimately show ?thesis by (rule body_effect)
qed

text \<open>A firing timer takes its task off the timer queue, makes it READY and wakes the thread.\<close>

definition fired :: "addr \<Rightarrow> mp2_state \<Rightarrow> mp2_state" where
  "fired a s = s\<lparr>slab := (slab s)(a \<mapsto> (task_at s a)\<lparr>timer := (timer (task_at s a))\<lparr>expires := None\<rparr>, state := READY\<rparr>),
     woken := True\<rparr>"

lemma distinct_pid_at:
  assumes "list_ok s" "a \<in> set (task_list s)" "b \<in> set (task_list s)" "pid (task_at s a) = pid (task_at s b)"
  shows "a = b"
  using assms by (auto simp: list_ok_def pids_def tasks_def distinct_map inj_on_def)

lemma fire_effect:
  assumes inv: "mp2_inv s" and mem: "a \<in> set (task_list s)"
  shows "fire_timer a s = Inr (fired a s)"
proof -
  note ok = mp2_list_ok [OF inv]
  have at: "slab s b = Some (task_at s b)" if "b \<in> set (task_list s)" for b using inv_at [OF ok that] .
  let ?u = "(task_at s a)\<lparr>timer := (timer (task_at s a))\<lparr>expires := None\<rparr>\<rparr>"
  let ?t = "s\<lparr>slab := (slab s)(a \<mapsto> ?u)\<rparr>"
  have td: "tdata (timer (task_at s a)) = ucast (pid (task_at s a))" "task_ok ?u"
    using inv_task_ok [OF ok mem] by (simp_all add: task_ok_def)
  have "core_inv ?t" using td at [OF mem] by (intro core_inv_put [OF mp2_core [OF inv]]) auto
  then have "list_ok ?t" by (rule core_list_ok)
  moreover have "\<not> spin_held ?t" using inv by (simp add: mp2_inv_def)
  ultimately have "fire_timer a s = Inr (?t\<lparr>slab := mark_ready (ucast (pid (task_at s a))) (slab ?t) (task_list ?t),
      spin_held := False, woken := True\<rparr>)"
    using at [OF mem] td(1) by (simp add: fire_timer_def put_task_def callback_eq)
  moreover have "mark_ready (ucast (pid (task_at s a))) (slab ?t) (task_list ?t) = slab (fired a s)"
  proof
    fix b
    show "mark_ready (ucast (pid (task_at s a))) (slab ?t) (task_list ?t) b = slab (fired a s) b"
      using mem distinct_pid_at [OF ok mem, of b] at [of b] by (auto simp: mark_ready_def fired_def)
  qed
  ultimately show ?thesis using inv by (simp add: fired_def mp2_inv_def)
qed

section \<open>The dispatching thread is woken when it is needed\<close>

definition attended :: "mp2_state \<Rightarrow> bool" where
  "attended s \<longleftrightarrow> woken s \<or> (\<forall>a\<in>set (task_list s). is_ready (slab s) a \<longrightarrow>
     (\<exists>c. ct s = Some c \<and> period_at (slab s) c \<le> period_at (slab s) a))"

lemma attended_woken [simp]: "woken s \<Longrightarrow> attended s"
  by (simp add: attended_def)

lemma view_at:
  "is_ready (slab s) a \<longleftrightarrow> state (task_at s a) = READY"
  "period_at (slab s) a = period (task_at s a)"
  by (simp_all add: is_ready_def period_at_def task_at_def)

lemma attended_cong:
  assumes "attended s" "task_list t = task_list s" "ct t = ct s" "woken t = woken s"
    and "\<And>a. is_ready (slab t) a = is_ready (slab s) a" "\<And>a. period_at (slab t) a = period_at (slab s) a"
  shows "attended t"
  using assms by (simp add: attended_def)

lemma attended_command:
  assumes inv: "mp2_inv s" and fresh: "fresh_object k s" and "attended s" "command_effect k cmd s t"
  shows "attended t"
  using assms(4)
proof cases
  case effect_none
  then show ?thesis using assms(3) by (simp add: untouched_def attended_def)
next
  case (effect_register a p per proc)
  have slab: "slab s a = None" using fresh effect_register by (simp add: fresh_object_def)
  then have new: "a \<notin> set (task_list s)" "ct s \<noteq> Some a" using inv by (auto simp: inv_defs)
  show ?thesis
    using assms(3) new
    by (auto simp: attended_def effect_register registered_def new_task_def is_ready_def period_at_def)
next
  case (effect_missed a p d)
  show ?thesis
    using assms(3)
    by (rule attended_cong) (auto simp: effect_missed redue_def is_ready_def period_at_def task_at_def)
next
  case (effect_yield a kt p)
  then show ?thesis by (simp add: yielded_def)
next
  case (effect_deregister a p)
  have "distinct (task_list s)" using mp2_list_ok [OF inv] by (simp add: list_ok_def)
  then show ?thesis
    using assms(3)
    by (auto simp: attended_def effect_deregister is_ready_def period_at_def dest: notin_set_remove1)
qed

lemma mark_view:
  "is_ready (slab (mark a st cs s)) b \<longleftrightarrow> (if b = a then st = READY else is_ready (slab s) b)"
  "period_at (slab (mark a st cs s)) b = period_at (slab s) b"
  by (simp_all add: mark_def is_ready_def period_at_def task_at_def)

lemma mark_fields [simp]:
  "task_list (mark a st cs s) = task_list s" "ct (mark a st cs s) = ct s" "woken (mark a st cs s) = woken s"
  "calls (mark a st cs s) = calls s @ cs"
  by (simp_all add: mark_def)

lemma attended_round:
  assumes "round_effect s t"
  shows "attended t"
  using assms
proof cases
  case (round_keep h c)
  then show ?thesis using first_least_le [OF round_keep(2)] by (force simp: attended_def not_less)
next
  case (round_start h kh)
  then show ?thesis using first_least_le [OF round_start(2)] by (auto simp: attended_def mark_view)
next
  case (round_preempt h c kh kc)
  have "h \<noteq> c" using round_preempt by auto
  then show ?thesis
    using first_least_le [OF round_preempt(2)] round_preempt(4)
    by (auto simp: attended_def mark_view round_preempt(1) less_imp_le)
qed (auto simp: attended_def mark_view)

lemma write_effect:
  assumes "mp2_inv s" "mp2_write k data s = Inr (n, t)"
  shows "\<exists>cmd. parse_command k data = Inr cmd \<and> command_effect k cmd s t"
  using assms command_effectI by (fastforce simp: mp2_write_def result_simps)

lemma read_effect: "mp2_read n s = Inr (buf, t) \<Longrightarrow> untouched s t"
  by (auto simp: mp2_read_def lock_defs Let_def result_simps untouched_def split: if_splits)

lemma attended_step:
  assumes "mp2_inv s \<and> attended s" "mp2_step s t"
  shows "mp2_inv t \<and> attended t"
proof
  show "mp2_inv t" using mp2_step_inv assms by blast
  show "attended t"
    using assms(2)
  proof cases
    case (step_write k data n)
    then show ?thesis using write_effect attended_command assms(1) by blast
  next
    case (step_read count buf)
    then show ?thesis using read_effect assms(1) by (fastforce simp: untouched_def attended_def)
  next
    case (step_timer a)
    then have "t = fired a s" using fire_effect [of s a] assms(1) by (simp add: timer_pending_def)
    then show ?thesis by (simp add: fired_def)
  next
    case step_dispatch
    then show ?thesis using attended_round round_effectI assms(1) by blast
  qed
qed

interpretation attention: inductive_invariant mp2_start mp2_step "\<lambda>s. mp2_inv s \<and> attended s"
proof (unfold_locales, goal_cases)
  case (1 s)
  then show ?case using mp2_start_inv by (simp add: mp2_start_def mp2_init_def mp2_static_def Task_init_def attended_def)
next
  case (2 s t)
  then show ?case by (rule attended_step)
qed

section \<open>Sleeping processes\<close>

text \<open>
  What the module's calls have done to a process: \<open>set_task_state(.., TASK_UNINTERRUPTIBLE)\<close> takes it off
  the processor until \<open>wake_up_process\<close> puts it back; the other calls leave that alone.
\<close>

fun after_call :: "addr \<Rightarrow> kcall \<Rightarrow> bool \<Rightarrow> bool" where
  "after_call k (Set_task_state i) b = (i = k \<or> b)"
| "after_call k (Wake_up_process i) b = (i \<noteq> k \<and> b)"
| "after_call k (Sched_setscheduler i pol prio) b = b"
| "after_call k Schedule b = b"

definition process_sleeps :: "addr \<Rightarrow> kcall list \<Rightarrow> bool" where
  "process_sleeps k cs = fold (after_call k) cs False"

lemma process_sleeps_simps [simp]:
  "\<not> process_sleeps k []"
  "process_sleeps k (cs @ ds) = fold (after_call k) ds (process_sleeps k cs)"
  by (simp_all add: process_sleeps_def)

text \<open>
  Programs use the module as \<open>MP2/userapp.c\<close> does: the kernel's pid table stays as it is and no two
  pids share a process, and it is the program itself that asks for its registration, so its process is
  not asleep then.
\<close>

definition pid_table :: "(u32 \<Rightarrow> addr option) \<Rightarrow> bool" where
  "pid_table f \<longleftrightarrow> (\<forall>p q k. f p = Some k \<and> f q = Some k \<longrightarrow> p = q)"

definition asks_itself :: "(u32 \<Rightarrow> addr option) \<Rightarrow> mp2_command \<Rightarrow> mp2_state \<Rightarrow> bool" where
  "asks_itself f cmd s \<longleftrightarrow>
     (\<forall>p per proc k. cmd = Register p per proc \<and> f p = Some k \<longrightarrow> \<not> process_sleeps k (calls s))"

inductive app_step :: "(u32 \<Rightarrow> addr option) \<Rightarrow> mp2_state \<Rightarrow> mp2_state \<Rightarrow> bool" for f :: "u32 \<Rightarrow> addr option" where
  app_write: "fresh_object k s \<Longrightarrow> pid_task k = f \<Longrightarrow> parse_command k data = Inr cmd \<Longrightarrow> asks_itself f cmd s \<Longrightarrow>
    mp2_write k data s = Inr (n, t) \<Longrightarrow> app_step f s t"
| app_read: "mp2_read count s = Inr (buf, t) \<Longrightarrow> app_step f s t"
| app_timer: "timer_pending a s \<Longrightarrow> fire_timer a s = Inr t \<Longrightarrow> app_step f s t"
| app_dispatch: "dispatcher s \<Longrightarrow> woken s \<Longrightarrow> dispaching_thread_function 1 s = Inr t \<Longrightarrow> app_step f s t"

lemma app_step_mp2: "app_step f s t \<Longrightarrow> mp2_step s t"
  by (induction rule: app_step.induct) (auto intro: mp2_step.intros simp del: dispaching_thread_function.simps)

lemma app_step_effect:
  assumes inv: "mp2_inv s" and "app_step f s t"
  obtains (written) k cmd where "fresh_object k s" "pid_task k = f" "asks_itself f cmd s" "command_effect k cmd s t"
  | (seen) "untouched s t"
  | (timer) a where "timer_pending a s" "t = fired a s"
  | (dispatch) "round_effect (s\<lparr>woken := False\<rparr>) t"
  using assms(2)
proof cases
  case (app_write k data cmd n)
  then show ?thesis using written [of k cmd] write_effect [OF inv app_write(5)] by auto
next
  case (app_read count buf)
  then show ?thesis using seen read_effect by blast
next
  case (app_timer a)
  then show ?thesis using timer [of a] fire_effect [OF inv, of a] by (simp add: timer_pending_def)
next
  case app_dispatch
  then show ?thesis using dispatch round_effectI [OF inv] by blast
qed

section \<open>No sleeping process is forgotten\<close>

text \<open>
  Every task has the process of its pid, and a process that sleeps is waited for: its task has its
  timer pending, or it is READY.
\<close>

definition waited :: "mp2_state \<Rightarrow> addr \<Rightarrow> bool" where
  "waited s a \<longleftrightarrow> (\<forall>k. linux_task (task_at s a) = Some k \<and> process_sleeps k (calls s) \<longrightarrow>
     expires (timer (task_at s a)) \<noteq> None \<and> state (task_at s a) = SLEEPING \<or> state (task_at s a) = READY)"

definition remembered :: "(u32 \<Rightarrow> addr option) \<Rightarrow> mp2_state \<Rightarrow> bool" where
  "remembered f s \<longleftrightarrow> (\<forall>a\<in>set (task_list s). linux_task (task_at s a) = f (pid (task_at s a)) \<and> waited s a)"

lemma own_process:
  assumes "pid_table f" "remembered f s" "list_ok s" "a \<in> set (task_list s)" "b \<in> set (task_list s)"
    "linux_task (task_at s a) = Some k" "linux_task (task_at s b) = Some k"
  shows "a = b"
  using assms distinct_pid_at [OF assms(3-5)] unfolding remembered_def pid_table_def by metis

lemma remembered_same:
  assumes "remembered f s" "set (task_list t) \<subseteq> set (task_list s)" "calls t = calls s"
    and "\<And>a. a \<in> set (task_list t) \<Longrightarrow> task_at t a = task_at s a"
  shows "remembered f t"
  using assms by (auto simp: remembered_def waited_def)

lemma remembered_change:
  assumes "remembered f s" "task_list t = task_list s"
    and "\<And>b. b \<in> set (task_list s) \<Longrightarrow> linux_task (task_at t b) = linux_task (task_at s b) \<and> pid (task_at t b) = pid (task_at s b)"
    and "\<And>b. b \<in> set (task_list s) \<Longrightarrow> waited s b \<Longrightarrow> waited t b"
  shows "remembered f t"
  using assms by (simp add: remembered_def)

lemma remembered_command:
  assumes tab: "pid_table f" and inv: "mp2_inv s" and r: "remembered f s" and fresh: "fresh_object k s"
    and f: "pid_task k = f" and self: "asks_itself f cmd s" and eff: "command_effect k cmd s t"
  shows "remembered f t"
  using eff
proof cases
  case effect_none
  then show ?thesis by (intro remembered_same [OF r]) (auto simp: untouched_def task_at_def)
next
  case (effect_register a p per proc)
  have "slab s a = None" using fresh effect_register by (simp add: fresh_object_def)
  then have new: "a \<notin> set (task_list s)" using inv by (auto simp: inv_defs)
  have "\<not> process_sleeps kt (calls s)" if "f p = Some kt" for kt
    using self that effect_register(1) by (auto simp: asks_itself_def)
  then show ?thesis
    using r new by (auto simp: remembered_def waited_def effect_register registered_def task_at_def new_task_def f)
next
  case (effect_missed a p d)
  then show ?thesis using r by (auto simp: remembered_def waited_def redue_def task_at_def)
next
  case (effect_yield a kt p)
  have own: "b = a" if "b \<in> set (task_list s)" "linux_task (task_at s b) = Some kt" for b
    using own_process [OF tab r mp2_list_ok [OF inv] that(1) effect_yield(3) that(2) effect_yield(4)] .
  show ?thesis
  proof (rule remembered_change [OF r], unfold effect_yield(2))
    fix b assume b: "b \<in> set (task_list s)" "waited s b"
    show "waited (yielded (msecs_to_jiffies k) (jiffies k) a kt s) b"
    proof (cases "b = a")
      case True
      then show ?thesis by (simp add: waited_def yielded_def slept_def task_at_def)
    next
      case False
      then have "linux_task (task_at s b) \<noteq> Some kt" using own b(1) by blast
      then show ?thesis using False b(2) by (auto simp: waited_def yielded_def task_at_def)
    qed
  qed (simp_all add: yielded_def slept_def task_at_def)
next
  case (effect_deregister a p)
  have "distinct (task_list s)" using mp2_list_ok [OF inv] by (simp add: list_ok_def)
  then show ?thesis
    using r effect_deregister by (intro remembered_same [OF r]) (auto simp: task_at_def dest: notin_set_remove1)
qed

lemma remembered_mark:
  assumes "remembered f s" "\<And>k. linux_task (task_at s a) = Some k \<Longrightarrow> process_sleeps k (calls s @ cs) \<Longrightarrow> st = READY"
    and "\<And>k. process_sleeps k (calls s @ cs) \<Longrightarrow> process_sleeps k (calls s)"
  shows "remembered f (mark a st cs s)"
proof (rule remembered_change [OF assms(1)])
  fix b assume b: "waited s b"
  show "waited (mark a st cs s) b"
  proof (cases "b = a")
    case True
    then show ?thesis using assms(2) by (simp add: waited_def mark_same)
  next
    case False
    show ?thesis unfolding waited_def mark_other [OF False] mark_fields
      using b assms(3) unfolding waited_def by blast
  qed
qed (simp_all add: mark_def task_at_def)

lemma remembered_frame [simp]:
  "remembered f (s\<lparr>ct := c\<rparr>) = remembered f s" "remembered f (s\<lparr>woken := b\<rparr>) = remembered f s"
  by (simp_all add: remembered_def waited_def task_at_def)

lemma remembered_round:
  assumes r: "remembered f s" and "round_effect s t"
  shows "remembered f t"
  using assms(2)
proof cases
  case (round_preempt h c kh kc)
  let ?m = "mark c READY [Sched_setscheduler kc SCHED_NORMAL 0] s"
  have m: "remembered f ?m" by (rule remembered_mark [OF r]) auto
  have "linux_task (task_at ?m h) = Some kh"
    using round_preempt by (cases "h = c") (auto simp: mark_same mark_other)
  then show ?thesis unfolding round_preempt(1) remembered_frame
    by (intro remembered_mark [OF m]) auto
next
  case (round_start h kh)
  then show ?thesis using r by (auto intro!: remembered_mark split: if_splits)
next
  case (round_demote c kc)
  then show ?thesis using r by (auto intro!: remembered_mark split: if_splits)
qed (use r in simp_all)

lemma remembered_step:
  assumes tab: "pid_table f" and inv: "mp2_inv s \<and> remembered f s" and step: "app_step f s t"
  shows "mp2_inv t \<and> remembered f t"
proof
  show "mp2_inv t" using mp2_step_inv app_step_mp2 inv step by blast
  from inv have "mp2_inv s" by simp
  from this step show "remembered f t"
  proof (cases rule: app_step_effect)
    case (written k cmd)
    then show ?thesis using remembered_command tab inv by blast
  next
    case seen
    then show ?thesis using remembered_same [of f s t] inv by (simp add: untouched_def task_at_def)
  next
    case (timer a)
    have "waited (fired a s) b" if "waited s b" for b
      using that by (cases "b = a") (simp_all add: waited_def fired_def task_at_def)
    then show ?thesis unfolding timer(2) using inv remembered_change [of f s "fired a s"]
      by (simp add: fired_def task_at_def)
  next
    case dispatch
    then show ?thesis using remembered_round [of f "s\<lparr>woken := False\<rparr>"] inv by simp
  qed
qed

lemma remembered_reach:
  assumes "pid_table f" "reach mp2_start (app_step f) s"
  shows "mp2_inv s \<and> remembered f s"
  using assms(2)
proof (induction rule: reach.induct)
  case (reach_start s)
  then show ?case
    using mp2_start_inv by (simp add: mp2_start_def mp2_init_def mp2_static_def Task_init_def remembered_def)
next
  case (reach_step s t)
  then show ?case using remembered_step [OF assms(1)] by blast
qed

section \<open>A sleeping process whose task is gone\<close>

text \<open>
  Deregistration does not wake the process of the task it removes. A process that sleeps and has no
  task is never woken: only a task's start wakes its process, and only the process itself would ask for
  a new task.
\<close>

definition stranded :: "addr \<Rightarrow> mp2_state \<Rightarrow> bool" where
  "stranded k s \<longleftrightarrow> process_sleeps k (calls s) \<and> (\<forall>a\<in>set (task_list s). linux_task (task_at s a) \<noteq> Some k)"

lemma stranded_mark:
  assumes "stranded k s" "fold (after_call k) cs True"
  shows "stranded k (mark a st cs s)"
  using assms by (auto simp: stranded_def mark_def task_at_def)

lemma stranded_ct [simp]: "stranded k (s\<lparr>ct := c\<rparr>) = stranded k s"
  by (simp add: stranded_def task_at_def)

lemma stranded_round:
  assumes inv: "mp2_inv s" and st: "stranded k s" and "round_effect (s\<lparr>woken := False\<rparr>) t"
  shows "stranded k t"
proof -
  have st': "stranded k (s\<lparr>woken := False\<rparr>)" using st by (simp add: stranded_def task_at_def)
  have lt: "kh \<noteq> k" if "linux_task (task_at (s\<lparr>woken := False\<rparr>) h) = Some kh" "h \<in> set (task_list s)" for h kh
    using st that by (auto simp: stranded_def task_at_def)
  show ?thesis
    using assms(3)
  proof cases
    case (round_demote c kc)
    then show ?thesis using stranded_mark [OF st'] by simp
  next
    case (round_start h kh)
    then have "kh \<noteq> k" using lt first_least_member [OF round_start(2)] by simp
    then show ?thesis unfolding round_start(1) stranded_ct by (intro stranded_mark [OF st']) simp
  next
    case (round_preempt h c kh kc)
    then have "kh \<noteq> k" using lt first_least_member [OF round_preempt(2)] by simp
    then show ?thesis unfolding round_preempt(1) stranded_ct
      by (intro stranded_mark [OF stranded_mark [OF st']]) simp_all
  qed (use st' in simp_all)
qed

lemma stranded_command:
  assumes inv: "mp2_inv s" and st: "stranded k s" and f: "pid_task kk = f" and self: "asks_itself f cmd s"
    and fresh: "fresh_object kk s" and eff: "command_effect kk cmd s t"
  shows "stranded k t"
  using eff
proof cases
  case effect_none
  then show ?thesis using st by (auto simp: stranded_def untouched_def task_at_def)
next
  case (effect_register a p per proc)
  have "slab s a = None" using fresh effect_register by (simp add: fresh_object_def)
  then have "a \<notin> set (task_list s)" using inv by (auto simp: inv_defs)
  moreover have "f p \<noteq> Some k" using self st effect_register(1) by (auto simp: asks_itself_def stranded_def)
  ultimately show ?thesis
    using st by (auto simp: stranded_def effect_register registered_def task_at_def new_task_def f)
next
  case (effect_missed a p d)
  then show ?thesis using st by (auto simp: stranded_def redue_def task_at_def)
next
  case (effect_yield a kt p)
  then show ?thesis using st by (auto simp: stranded_def yielded_def slept_def task_at_def)
next
  case (effect_deregister a p)
  have "distinct (task_list s)" using mp2_list_ok [OF inv] by (simp add: list_ok_def)
  then show ?thesis
    using st effect_deregister by (auto simp: stranded_def task_at_def dest: notin_set_remove1)
qed

lemma stranded_step:
  assumes "mp2_inv s" "stranded k s" "app_step f s t"
  shows "stranded k t"
  using assms(1,3)
proof (cases rule: app_step_effect)
  case (written kk cmd)
  then show ?thesis using stranded_command assms(1,2) by blast
next
  case seen
  then show ?thesis using assms(2) by (simp add: stranded_def untouched_def task_at_def)
next
  case (timer a)
  then show ?thesis using assms(2) by (simp add: stranded_def fired_def task_at_def)
next
  case dispatch
  then show ?thesis using stranded_round assms(1,2) by blast
qed

lemma stranded_run:
  assumes "mp2_inv s" "stranded k s" "(app_step f)\<^sup>*\<^sup>* s t"
  shows "stranded k t"
proof -
  have "mp2_inv t \<and> stranded k t"
    using assms(3)
  proof (induction rule: rtranclp_induct)
    case base
    then show ?case using assms(1,2) by simp
  next
    case (step u v)
    then show ?case using stranded_step mp2_step_inv app_step_mp2 by blast
  qed
  then show ?thesis by simp
qed

lemma deregistered_stranded:
  assumes tab: "pid_table f" and inv: "mp2_inv s" and r: "remembered f s" and a: "a \<in> set (task_list s)"
    and k: "linux_task (task_at s a) = Some k" "process_sleeps k (calls s)"
  shows "stranded k (deregistered a s)"
proof -
  have d: "distinct (task_list s)" using mp2_list_ok [OF inv] by (simp add: list_ok_def)
  have "linux_task (task_at s b) \<noteq> Some k" if "b \<in> set (task_list s)" "b \<noteq> a" for b
    using own_process [OF tab r mp2_list_ok [OF inv] a that(1) k(1)] that(2) by blast
  then show ?thesis using k d by (auto simp: stranded_def task_at_def)
qed

section \<open>The call of schedule\<close>

text \<open>
  \<open>Task_yeild\<close> up to its call of \<open>schedule()\<close>, which it makes with \<open>tl_lock\<close> held, and from there on. The call
  returns when the process that makes it is not asleep: \<open>MP2/userapp.c\<close> writes through a shell, so
  that the writing process is not the one that is put to sleep.
\<close>

definition yeild_sleep :: "(u32 \<Rightarrow> u64) \<Rightarrow> u64 \<Rightarrow> addr \<Rightarrow> mp2_state \<Rightarrow> (int option \<times> mp2_state) result" where
  "yeild_sleep m2j now a s =
     rbind (lock_tl s) (\<lambda>s.
     rbind (deref (slab s) a) (\<lambda>t.
     let ddl = next_deadline m2j now t; t' = t\<lparr>next_ddl := ddl\<rparr> in
     if next_ddl t \<noteq> 0 \<and> ddl < now then Inr (Some (-1), put_task a t' s)
     else
       let t'' = t'\<lparr>timer := (timer t)\<lparr>expires := Some ddl\<rparr>, state := SLEEPING\<rparr> in
       rbind (linux_task_of t'') (\<lambda>k. Inr (None, emit [Set_task_state k, Schedule] (put_task a t'' s)))))"

definition yeild_resume :: "mp2_state \<Rightarrow> (int \<times> mp2_state) result" where
  "yeild_resume s =
     rbind (lock_ct s) (\<lambda>s. Inr (0, wake_dispatcher (unlock_tl (unlock_ct (s\<lparr>ct := None\<rparr>)))))"

lemma yeild_split:
  "yeild_task_at m2j j a s =
   rbind (yeild_sleep m2j j a s) (\<lambda>(r, s). case r of Some r \<Rightarrow> Inr (r, s) | None \<Rightarrow> yeild_resume s)"
  by (auto simp: yeild_task_at_def yeild_sleep_def yeild_resume_def rbind_assoc Let_def intro!: rbind_cong)

datatype yield_end = Returned int | In_schedule

definition yeild_written_by :: "addr \<Rightarrow> (u32 \<Rightarrow> u64) \<Rightarrow> u64 \<Rightarrow> u32 \<Rightarrow> mp2_state \<Rightarrow> (yield_end \<times> mp2_state) result" where
  "yeild_written_by writer m2j now p s =
     rbind (lock_tl s) (\<lambda>s.
     rbind (find_last_pid (slab s) p None (task_list s)) (\<lambda>yeild_task.
     case yeild_task of
       None \<Rightarrow> Inr (Returned (-1), unlock_tl s)
     | Some a \<Rightarrow>
         rbind (yeild_sleep m2j now a (unlock_tl s)) (\<lambda>(r, s).
         case r of
           Some r \<Rightarrow> Inr (Returned r, s)
         | None \<Rightarrow>
             if process_sleeps writer (calls s) then Inr (In_schedule, s)
             else rbind (yeild_resume s) (\<lambda>(r, s). Inr (Returned r, s)))))"

lemma yeild_written_eq:
  assumes "unlocked s" "addr_of s p = Some a" "linux_task (task_at s a) = Some k" "\<not> missed m2j j (task_at s a)"
  shows "yeild_written_by w m2j j p s =
    (if w = k \<or> process_sleeps w (calls s)
     then Inr (In_schedule, s\<lparr>slab := (slab s)(a \<mapsto> slept m2j j (task_at s a)),
                 calls := calls s @ [Set_task_state k, Schedule], tl_lock := True\<rparr>)
     else Inr (Returned 0, yielded m2j j a k s))"
proof -
  note ok = unlockedD [OF assms(1)]
  have a: "slab s a = Some (task_at s a)" using inv_at [OF ok(3)] addr_of_Some [OF assms(2)] by blast
  show ?thesis
    using assms(2-4) ok a
    by (auto simp: yeild_written_by_def find_last_pid_inv lock_defs yeild_sleep_def yeild_resume_def access_defs
        missed_def Let_def yielded_def slept_def)
qed

text \<open>While \<open>tl_lock\<close> stays held, no step wakes a process or gives the mutex back.\<close>

lemma locked_step:
  assumes inv: "mp2_inv s" and "tl_lock s" "mp2_step s t"
  shows "tl_lock t \<and> calls t = calls s"
  using assms(3)
proof cases
  case (step_write k data n)
  then obtain cmd r where "parse_command k data = Inr cmd" "run_command k cmd s = Inr (r, t)"
    by (auto simp: mp2_write_def result_simps)
  then show ?thesis using assms(2) by (cases cmd) (auto simp: run_command_def)
next
  case (step_read count buf)
  then show ?thesis using assms(2) by (auto simp: mp2_read_def lock_defs Let_def result_simps split: if_splits)
next
  case (step_timer a)
  then have "t = fired a s" using fire_effect [OF inv, of a] by (simp add: timer_pending_def)
  then show ?thesis using assms(2) by (simp add: fired_def)
next
  case step_dispatch
  then show ?thesis using assms(2) by (simp add: dispatch_body_def numeral_eq_Suc)
qed

lemma locked_run:
  assumes "mp2_inv s" "tl_lock s" "mp2_step\<^sup>*\<^sup>* s t"
  shows "mp2_inv t \<and> tl_lock t \<and> calls t = calls s"
  using assms(3)
proof (induction rule: rtranclp_induct)
  case (step u v)
  then show ?case using locked_step [of u v] mp2_step_inv [of u v] by simp
qed (use assms in simp)

end
