(* ===== verification/Mp2_Drain.thy ===== *)
theory Mp2_Drain
  imports Mp2_Wakeup Mp2_Session
begin

text \<open>
  The READY tasks of the scheduler module are served in the order of their periods: when each task
  that is started yields in time, the dispatching thread goes through the queue once, shortest period first
  and in the order of registration among equal periods, and leaves no task READY.
\<close>

section \<open>The queue\<close>

definition ready_order :: "slab \<Rightarrow> addr list \<Rightarrow> addr list" where
  "ready_order h as = sort_key (period_at h) (filter (is_ready h) as)"

lemma sort_key_least:
  assumes "\<forall>x\<in>set us. f r < f x" "\<forall>x\<in>set vs. f r \<le> f x"
  shows "sort_key f (us @ r # vs) = r # sort_key f (us @ vs)"
  using assms
proof (induction us)
  case Nil
  then show ?case by (simp add: insort_is_Cons)
next
  case (Cons u us)
  then show ?case by (auto simp: not_le dest: leD)
qed

text \<open>The choice of \<open>Task_get_highest\<close> is the head of the queue; the rest is the queue without it.\<close>

lemma ready_order_head:
  assumes "first_least h as r" "distinct as" "\<And>a. is_ready h' a \<longleftrightarrow> is_ready h a \<and> a \<noteq> r"
    "\<And>a. period_at h' a = period_at h a"
  shows "ready_order h as = r # ready_order h' as"
proof -
  obtain us vs where as: "as = us @ r # vs" "is_ready h r" "\<forall>a\<in>set us. is_ready h a \<longrightarrow> period_at h r < period_at h a"
      "\<forall>a\<in>set vs. is_ready h a \<longrightarrow> period_at h r \<le> period_at h a"
    using assms(1) by (auto simp: first_least_def)
  have f: "filter (is_ready h') us = filter (is_ready h) us" "filter (is_ready h') vs = filter (is_ready h) vs"
    using assms(2,3) as(1) by (auto intro!: filter_cong)
  have "period_at h' = period_at h" using assms(4) by auto
  then show ?thesis
    using as f assms(3) sort_key_least [of "filter (is_ready h) us" "period_at h" r "filter (is_ready h) vs"]
    by (simp add: ready_order_def)
qed

lemma ready_order_empty: "ready_order h as = [] \<longleftrightarrow> (\<forall>a\<in>set as. \<not> is_ready h a)"
proof -
  have "ready_order h as = [] \<longleftrightarrow> set (ready_order h as) = {}" by simp
  then show ?thesis by (auto simp: ready_order_def)
qed

section \<open>One turn\<close>

definition serve :: "mp2_kernel \<Rightarrow> (addr \<Rightarrow> u64) \<Rightarrow> (addr \<Rightarrow> u32) \<Rightarrow> addr \<Rightarrow> mp2_action list" where
  "serve k at_jiffies pid_of a = [Dispatch, Write (at_time k (at_jiffies a)) (yield_line (pid_of a) @ [newline])]"

definition rested :: "mp2_state \<Rightarrow> bool" where
  "rested s \<longleftrightarrow> unlocked s \<and> dispatcher s \<and> woken s \<and> ct s = None"

lemma serve_runs:
  assumes s: "rested s" and h: "first_least (slab s) (task_list s) a" and kt: "linux_task (task_at s a) = Some kt"
    and ddl: "\<not> missed (msecs_to_jiffies k) (j a) (task_at s a)" and p: "p a = pid (task_at s a)"
  shows "\<exists>u. run_schedule (serve k j p a) s = Some u \<and> rested u \<and> task_list u = task_list s \<and>
    (\<forall>b. b \<noteq> a \<longrightarrow> slab u b = slab s b) \<and> \<not> is_ready (slab u) a \<and> period_at (slab u) a = period_at (slab s) a \<and>
    calls u = calls s @ period_calls kt"
proof -
  note ok = unlockedD [of s] and r = s [unfolded rested_def]
  let ?s = "s\<lparr>woken := False\<rparr>"
  let ?t = "?s\<lparr>slab := (slab s)(a \<mapsto> (task_at s a)\<lparr>state := RUNNING\<rparr>),
    calls := calls s @ [Wake_up_process kt, Sched_setscheduler kt SCHED_FIFO 99], ct := Some a\<rparr>"
  let ?u = "yielded (msecs_to_jiffies k) (j a) a kt ?t"
  have mem: "a \<in> set (task_list s)" using first_least_member [OF h] by simp
  have inv: "mp2_inv ?s" using ok(1) r by (simp add: mp2_inv_def)
  have lok: "list_ok ?s" "\<not> tl_lock ?s" using mp2_list_ok [OF inv] ok(2) r by simp_all
  obtain x where x: "Task_get_highest ?s = Inr (x, ?s)" using rm.select_returns lok by blast
  have "x = Some a"
  proof (cases x)
    case None
    then show ?thesis using Task_get_highest_None [OF lok] x first_least_member [OF h] by fastforce
  next
    case (Some b)
    then show ?thesis using Task_get_highest_Some [OF lok] x first_least_unique [OF h] by fastforce
  qed
  moreover have "dispatch_switch (Some a) ?s = Inr ?t"
    using dispatch_start [of ?s a "task_at s a" kt] ok(4) r inv_at [OF ok(3) mem] kt by simp
  ultimately have body: "dispatch_body ?s = Inr ?t" using x by (simp add: dispatch_body_def)
  have d: "run_action Dispatch s = Some ?t" using r body by (simp add: numeral_eq_Suc)
  have t: "unlocked ?t"
    using dispatch_body_ends [OF inv] body lok(2) by (simp add: unlocked_def)
  have at: "task_at ?t a = (task_at s a)\<lparr>state := RUNNING\<rparr>" by (simp add: task_at_def)
  have "\<not> missed (msecs_to_jiffies k) (j a) (task_at ?t a)"
    using ddl unfolding at by (auto simp: missed_def next_deadline_def)
  then have y: "Task_yeild (msecs_to_jiffies k) (j a) (p a) ?t = Inr (0, ?u)" "unlocked ?u"
    using yield_yielded [OF t, of a "p a" kt "msecs_to_jiffies k" "j a"] mem kt p unfolding at by simp_all
  have "run_schedule (serve k j p a) s = Some ?u"
    unfolding serve_def by (simp only: run_schedule.simps d write_yield [OF y(1)] bind.bind_lunit)
  moreover have "rested ?u" using y(2) r by (simp add: rested_def yielded_def)
  moreover have "calls ?u = calls s @ period_calls kt" by (simp add: yielded_def period_calls_def)
  ultimately show ?thesis
    by (intro exI [of _ ?u]) (simp add: yielded_def slept_def is_ready_def period_at_def task_at_def)
qed

section \<open>The whole queue\<close>

lemma queue_runs:
  assumes "rested s" "ready_order (slab s) (task_list s) = as"
    and "\<forall>a\<in>set as. linux_task (task_at s a) = Some (proc a) \<and> \<not> missed (msecs_to_jiffies k) (j a) (task_at s a) \<and>
      p a = pid (task_at s a)"
  shows "\<exists>t. run_schedule (concat (map (serve k j p) as)) s = Some t \<and> rested t \<and> task_list t = task_list s \<and>
    (\<forall>a\<in>set (task_list t). \<not> is_ready (slab t) a) \<and> calls t = calls s @ concat (map (\<lambda>a. period_calls (proc a)) as)"
  using assms
proof (induction as arbitrary: s)
  case Nil
  then show ?case by (auto simp: ready_order_empty)
next
  case (Cons a as)
  note ok = unlockedD [of s] and r = Cons.prems(1) [unfolded rested_def]
  have d: "distinct (task_list s)" using ok(3) r by (simp add: list_ok_def)
  obtain h where h: "Task_get_highest s = Inr (h, s)" using rm.select_returns [of s] ok r by blast
  have "h \<noteq> None"
  proof
    assume "h = None"
    then have "ready_order (slab s) (task_list s) = []"
      using h Task_get_highest_None ok r by (auto simp: ready_order_empty)
    with Cons.prems(2) show False by simp
  qed
  then obtain b where b: "first_least (slab s) (task_list s) b"
    using h Task_get_highest_Some [OF ok(3) ok(2)] r by blast
  have "is_ready (slab s) b" using first_least_member [OF b] by simp
  have "a = b"
    using ready_order_head [where h' = "(slab s)(b \<mapsto> (task_at s b)\<lparr>state := SLEEPING\<rparr>)", OF b d] Cons.prems(2)
    by (simp add: is_ready_def period_at_def task_at_def)
  note head = b [folded this]
  obtain u where u: "run_schedule (serve k j p a) s = Some u" "rested u" "task_list u = task_list s"
      "\<And>b. b \<noteq> a \<Longrightarrow> slab u b = slab s b" "\<not> is_ready (slab u) a" "period_at (slab u) a = period_at (slab s) a"
      "calls u = calls s @ period_calls (proc a)"
    using serve_runs [OF Cons.prems(1) head, of "proc a" k j p] Cons.prems(3) by auto
  have other: "is_ready (slab u) b \<longleftrightarrow> is_ready (slab s) b \<and> b \<noteq> a" "period_at (slab u) b = period_at (slab s) b" for b
    using u(4) [of b] u(5,6) first_least_member [OF head] by (cases "b = a"; simp add: is_ready_def period_at_def)+
  have rest: "ready_order (slab u) (task_list u) = as"
    using ready_order_head [OF head d other] Cons.prems(2) u(3) by simp
  have "a \<notin> set as"
    using u(5) rest by (auto simp: ready_order_def)
  then have "task_at u b = task_at s b" if "b \<in> set as" for b using u(4) [of b] that by (cases "b = a") (auto simp: task_at_def)
  with Cons.prems(3) obtain t where
      t: "run_schedule (concat (map (serve k j p) as)) u = Some t" "rested t" "task_list t = task_list u"
        "\<forall>a\<in>set (task_list t). \<not> is_ready (slab t) a" "calls t = calls u @ concat (map (\<lambda>a. period_calls (proc a)) as)"
    using Cons.IH [OF u(2) rest] by auto
  have "run_schedule (concat (map (serve k j p) (a # as))) s = Some t"
    using u(1) t(1) by (simp add: run_schedule_append)
  with t u(3,7) show ?case by (intro exI [of _ t]) simp
qed

end
