(* ===== verification/Mp2_Wakeup_Props.thy ===== *)
theory Mp2_Wakeup_Props
  imports Mp2_Props Mp2_Drain
begin

text \<open>
  The properties of the scheduler module's wake-ups: the dispatching thread is woken whenever it has
  something to do, no sleeping process is forgotten, both as long as no timer fires within a round, the READY queue is served by period, and the two
  ways in which a process is put to sleep for good.
\<close>

section \<open>The dispatching thread is woken\<close>

text \<open>
  C7: A READY task is attended to when the handlers and the rounds of the dispatching thread run one after the other, each to its
  end, so that no timer fires within a round: in every state reached so, if some task is READY then the dispatching
  thread has been woken and has not run since, or there is a current task in the list, and its period is no longer than
  that of the READY task. A timer that fires within a round, after the thread has looked for READY tasks and before it goes to sleep, can be
  overlooked.
\<close>

theorem ready_tasks_attended:
  assumes "reach mp2_start mp2_step s" "a \<in> set (task_list s)" "state (task_at s a) = READY"
  shows "woken s \<or> (\<exists>c. ct s = Some c \<and> c \<in> set (task_list s) \<and> period (task_at s c) \<le> period (task_at s a))"
proof -
  have "mp2_inv s \<and> attended s" using attention.reachable_inv [OF assms(1)] .
  then show ?thesis
    using assms(2,3) by (auto simp: attended_def view_at inv_defs)
qed

theorem ready_tasks_attended_witness:
  "state (task_at second_ready 2) = READY \<and> (woken second_ready \<or>
     (\<exists>c. ct second_ready = Some c \<and> c \<in> set (task_list second_ready) \<and>
       period (task_at second_ready c) \<le> period (task_at second_ready 2)))"
proof -
  have r: "reach mp2_start mp2_step second_ready"
    by (rule run_schedule_reach [OF loaded_reach, of start_both]) (simp add: eval)
  have h: "2 \<in> set (task_list second_ready)" "state (task_at second_ready 2) = READY"
    by (simp_all add: eval)
  show ?thesis using ready_tasks_attended [OF r h] h(2) by blast
qed

section \<open>No sleeping process is forgotten\<close>

text \<open>
  C8: No sleeping process is forgotten when handlers and rounds run one after the other, each to its end. Where moreover the pid table is fixed
  and gives each pid its own process, and programs ask for their own registration only, a registered process that the module
  has put to sleep is always waited for: either its task is SLEEPING with its timer pending, or its task is READY and
  attended to as above. A timer that fires within a round of the dispatching thread can be missed.
\<close>

theorem no_lost_wakeup:
  assumes "pid_table f" "reach mp2_start (app_step f) s" "a \<in> set (task_list s)" "f (pid (task_at s a)) = Some k"
    and "process_sleeps k (calls s)"
  shows "timer_pending a s \<and> state (task_at s a) = SLEEPING \<or>
    state (task_at s a) = READY \<and>
      (woken s \<or> (\<exists>c. ct s = Some c \<and> c \<in> set (task_list s) \<and> period (task_at s c) \<le> period (task_at s a)))"
proof -
  have "reach mp2_start mp2_step s"
    using assms(2) by (induction rule: reach.induct) (auto intro: reach.intros app_step_mp2)
  then have inv: "mp2_inv s" and att: "attended s" using attention.reachable_inv by blast+
  have "remembered f s" using remembered_reach [OF assms(1,2)] by simp
  then have "expires (timer (task_at s a)) \<noteq> None \<and> state (task_at s a) = SLEEPING \<or> state (task_at s a) = READY"
    using assms(3-5) by (simp add: remembered_def waited_def)
  then show ?thesis
    using assms(3) inv att by (auto simp: timer_pending_def attended_def view_at inv_defs)
qed

text \<open>Task 1 sleeps until its second period while task 2 is registered.\<close>

definition first_asleep :: mp2_state where
  "first_asleep = the (run_schedule [Write (example_kernel 1 1000) (register_line 1 100 10 @ [newline]),
     Write (example_kernel 2 1000) (yield_line 1 @ [newline])] loaded)"

definition example_table :: "u32 \<Rightarrow> addr option" where
  "example_table = (\<lambda>p. Some (unat p))"

lemma example_table: "pid_table example_table"
  by (simp add: pid_table_def example_table_def word_unat_eq_iff)

lemma first_asleep_reach: "reach mp2_start (app_step example_table) first_asleep"
proof -
  let ?k = "\<lambda>a. example_kernel a 1000"
  let ?s = "the (run_schedule [Write (?k 1) (register_line 1 100 10 @ [newline])] loaded)"
  have l: "reach mp2_start (app_step example_table) loaded"
    by (rule reach_start) (simp add: mp2_start_def loaded_def)
  have 1: "app_step example_table loaded ?s"
    by (rule app_write [of "?k 1" _ _ "register_line 1 100 10 @ [newline]" "Register 1 100 10"])
      (simp_all add: eval example_table_def asks_itself_def)
  have 2: "app_step example_table ?s first_asleep"
    by (rule app_write [of "?k 2" _ _ "yield_line 1 @ [newline]" "Yield 1"])
      (simp_all add: eval first_asleep_def example_table_def asks_itself_def)
  show ?thesis using reach_step [OF reach_step [OF l 1] 2] .
qed

theorem no_lost_wakeup_witness:
  "process_sleeps 1 (calls first_asleep) \<and>
   (timer_pending 1 first_asleep \<and> state (task_at first_asleep 1) = SLEEPING \<or> state (task_at first_asleep 1) = READY)"
proof -
  have h: "1 \<in> set (task_list first_asleep)" "example_table (pid (task_at first_asleep 1)) = Some 1"
    "process_sleeps 1 (calls first_asleep)"
    by (simp_all add: eval first_asleep_def example_table_def process_sleeps_def)
  show ?thesis using no_lost_wakeup [OF example_table first_asleep_reach h] h(3) by blast
qed

text \<open>
  C22: Deregistration does not wake the process whose task it removes. Take a fixed pid table that gives each pid its own
  process, programs that ask for their own registration only, so that nobody writes the register or yield lines of a process that sleeps, and handlers
  that run one after the other. When the line of a process that
  sleeps between two periods is removed, by whoever writes its pid, that process is asleep in every state the module can
  reach from there in this way.
\<close>

theorem deregistration_strands:
  assumes "pid_table f" "reach mp2_start (app_step f) s" "\<not> tl_lock s" "p \<in> set (pids s)" "f p = Some k"
    and "process_sleeps k (calls s)"
  shows "\<exists>t. Task_deregister p s = Inr (0, t) \<and> p \<notin> set (pids t) \<and>
    (\<forall>u. (app_step f)\<^sup>*\<^sup>* t u \<longrightarrow> process_sleeps k (calls u))"
proof -
  have inv: "mp2_inv s" and r: "remembered f s" using remembered_reach [OF assms(1,2)] by simp_all
  have un: "unlocked s" using inv assms(3) by (simp add: unlocked_def)
  obtain a where a: "addr_of s p = Some a" using assms(4) addr_of_None by fastforce
  have mem: "a \<in> set (task_list s)" "linux_task (task_at s a) = Some k"
    using addr_of_Some [OF a] r assms(5) by (auto simp: remembered_def)
  have d: "Task_deregister p s = Inr (0, deregistered a s)" "mp2_inv (deregistered a s)"
    using a mem(1) unlockedD [OF un] unlocked_deregistered [OF un] by (simp_all add: Task_deregister_eq unlocked_def)
  have "distinct (pids s)" using unlockedD(3) [OF un] by (simp add: list_ok_def)
  then have "p \<notin> set (pids (deregistered a s))"
    using deregistered_pids [OF unlockedD(3) [OF un] mem(1)] addr_of_Some [OF a] by simp
  moreover have "stranded k (deregistered a s)"
    using deregistered_stranded [OF assms(1) inv r mem assms(6)] .
  then have "process_sleeps k (calls u)" if "(app_step f)\<^sup>*\<^sup>* (deregistered a s) u" for u
    using stranded_run [OF d(2) _ that] by (auto simp: stranded_def)
  ultimately show ?thesis using d(1) by blast
qed

theorem deregistration_strands_witness:
  "\<exists>t. Task_deregister 1 first_asleep = Inr (0, t) \<and> process_sleeps 1 (calls t)"
proof -
  have h: "\<not> tl_lock first_asleep" "1 \<in> set (pids first_asleep)" "example_table 1 = Some 1"
    "process_sleeps 1 (calls first_asleep)"
    by (simp_all add: eval view_defs first_asleep_def example_table_def process_sleeps_def)
  show ?thesis using deregistration_strands [OF example_table first_asleep_reach h] by blast
qed

section \<open>Who writes the yield\<close>

text \<open>
  C23: \<open>Task_yeild\<close> calls \<open>schedule()\<close> with \<open>tl_lock\<close> held. When a process other than the yielding one writes the
  yield, as the shell that \<open>MP2/userapp.c\<close> starts does, the call returns and the yield ends as \<open>Task_yeild\<close> does. When the
  process writes its own yield, it falls asleep there with the mutex: in every state the module reaches from then on it is
  still asleep, and the dispatching thread, which alone would wake it, every deregistration and unloading wait for the mutex.
\<close>

theorem direct_yield_deadlock:
  assumes "unlocked s" "a \<in> set (task_list s)" "pid (task_at s a) = p" "linux_task (task_at s a) = Some k"
    and "\<not> missed m2j j (task_at s a)"
  shows "(\<forall>w. w \<noteq> k \<and> \<not> process_sleeps w (calls s) \<longrightarrow>
      (\<exists>t. yeild_written_by w m2j j p s = Inr (Returned 0, t) \<and> Task_yeild m2j j p s = Inr (0, t))) \<and>
    (\<exists>u. yeild_written_by k m2j j p s = Inr (In_schedule, u) \<and>
      (\<forall>t. mp2_step\<^sup>*\<^sup>* u t \<longrightarrow> process_sleeps k (calls t) \<and> dispatch_body t = Inl Deadlock \<and>
        mp2_exit t = Inl Deadlock \<and> (\<forall>q. Task_deregister q t = Inl Deadlock)))"
proof -
  have a: "addr_of s p = Some a" using assms(2,3) unlockedD(3) [OF assms(1)] by (intro addr_of_member)
  note w = yeild_written_eq [OF assms(1) a assms(4,5)] and y = yield_yielded [OF assms]
  let ?u = "s\<lparr>slab := (slab s)(a \<mapsto> slept m2j j (task_at s a)), calls := calls s @ [Set_task_state k, Schedule],
    tl_lock := True\<rparr>"
  have at: "slab s a = Some (task_at s a)" "task_ok (task_at s a)"
    by (rule inv_at [OF unlockedD(3) [OF assms(1)] assms(2)], rule inv_task_ok [OF unlockedD(3) [OF assms(1)] assms(2)])
  then have "core_inv (s\<lparr>slab := (slab s)(a \<mapsto> slept m2j j (task_at s a))\<rparr>)"
    by (intro core_inv_put mp2_core unlockedD(1) [OF assms(1)]) (auto simp: task_ok_def slept_def)
  then have "core_inv ?u" by simp
  then have inv: "mp2_inv ?u" using unlockedD [OF assms(1)] by (simp add: mp2_inv_def)
  have "process_sleeps k (calls t) \<and> dispatch_body t = Inl Deadlock \<and> mp2_exit t = Inl Deadlock \<and>
      (\<forall>q. Task_deregister q t = Inl Deadlock)" if "mp2_step\<^sup>*\<^sup>* ?u t" for t
    using locked_run [OF inv _ that] by (simp add: locked_exit dispatch_body_def)
  then have stuck: "\<exists>u. yeild_written_by k m2j j p s = Inr (In_schedule, u) \<and>
      (\<forall>t. mp2_step\<^sup>*\<^sup>* u t \<longrightarrow> process_sleeps k (calls t) \<and> dispatch_body t = Inl Deadlock \<and>
        mp2_exit t = Inl Deadlock \<and> (\<forall>q. Task_deregister q t = Inl Deadlock))"
    using w [of k] by (intro exI [of _ ?u]) simp
  have "\<exists>t. yeild_written_by x m2j j p s = Inr (Returned 0, t) \<and> Task_yeild m2j j p s = Inr (0, t)"
    if "x \<noteq> k \<and> \<not> process_sleeps x (calls s)" for x
    using w [of x] y(1) that by simp
  with stuck show ?thesis by blast
qed

theorem direct_yield_deadlock_witness:
  "\<exists>u. yeild_written_by 1 ucast 1090 1 first_running = Inr (In_schedule, u) \<and> mp2_exit u = Inl Deadlock \<and>
     (\<exists>t. yeild_written_by 7 ucast 1090 1 first_running = Inr (Returned 0, t))"
proof -
  have h: "1 \<in> set (task_list first_running)" "pid (task_at first_running 1) = 1"
    "linux_task (task_at first_running 1) = Some 1" "\<not> missed ucast 1090 (task_at first_running 1)"
    "\<not> process_sleeps 7 (calls first_running)"
    by (simp_all add: eval missed_def process_sleeps_def)
  note d = direct_yield_deadlock [where m2j = ucast and j = 1090, OF first_running_unlocked h(1-4)]
  obtain u where u: "yeild_written_by 1 ucast 1090 1 first_running = Inr (In_schedule, u)"
      "\<forall>t. mp2_step\<^sup>*\<^sup>* u t \<longrightarrow> process_sleeps 1 (calls t) \<and> dispatch_body t = Inl Deadlock \<and>
        mp2_exit t = Inl Deadlock \<and> (\<forall>q. Task_deregister q t = Inl Deadlock)"
    using conjunct2 [OF d] by blast
  have "mp2_exit u = Inl Deadlock" using u(2) by blast
  moreover have "(7 :: addr) \<noteq> 1" by simp
  ultimately show ?thesis using u(1) conjunct1 [OF d] h(5) by blast
qed

section \<open>The READY queue\<close>

text \<open>
  The READY queue is served in rate-monotonic order: when no task is current and the thread has been woken, and
  each task yields in time once it has been started, then rounds of the thread and the yields alternate through the READY
  tasks sorted by period, equal periods in list order; each is woken, made FIFO and put to sleep in its turn,
  and at the end no task is READY.
\<close>

theorem ready_queue_drains:
  assumes "rested s" "as = sort_key (period_at (slab s)) (filter (is_ready (slab s)) (task_list s))"
    and "\<forall>a\<in>set as. linux_task (task_at s a) = Some (proc a) \<and> \<not> missed (msecs_to_jiffies k) (j a) (task_at s a) \<and>
      p a = pid (task_at s a)"
  shows "\<exists>t. run_schedule (concat (map (serve k j p) as)) s = Some t \<and> rested t \<and> task_list t = task_list s \<and>
    (\<forall>a\<in>set (task_list t). \<not> is_ready (slab t) a) \<and> calls t = calls s @ concat (map (\<lambda>a. period_calls (proc a)) as)"
  by (rule queue_runs) (use assms in \<open>simp_all add: ready_order_def\<close>)

text \<open>Tasks 1, 2 and 3 of periods 100, 50 and 100 are all READY and none is current.\<close>

definition start_three :: "mp2_action list" where
  "start_three =
     [Write (example_kernel 1 1000) (register_line 1 100 10 @ [newline]),
      Write (example_kernel 2 1000) (register_line 2 50 10 @ [newline]),
      Write (example_kernel 3 1000) (register_line 3 100 10 @ [newline]),
      Write (example_kernel 4 1000) (yield_line 1 @ [newline]), Write (example_kernel 4 1000) (yield_line 2 @ [newline]),
      Write (example_kernel 4 1000) (yield_line 3 @ [newline]), Fire 3, Fire 1, Fire 2]"

definition three_ready :: mp2_state where
  "three_ready = the (run_schedule start_three loaded)"

lemmas three_eval = eval three_ready_def start_three_def

theorem ready_queue_drains_witness:
  "\<exists>t. run_schedule (concat (map (serve (example_kernel 4 1000) (\<lambda>a. 1100) of_nat) [2, 1, 3])) three_ready = Some t \<and>
     calls t = calls three_ready @ period_calls 2 @ period_calls 1 @ period_calls 3"
proof -
  let ?k = "example_kernel 4 1000"
  have "unlocked three_ready"
    by (rule schedule_unlocked [of start_three]) (simp_all add: three_eval)
  then have r: "rested three_ready" by (simp add: rested_def three_eval)
  have o: "[2, 1, 3] = sort_key (period_at (slab three_ready)) (filter (is_ready (slab three_ready)) (task_list three_ready))"
    by (simp add: three_eval is_ready_def period_at_def)
  have h: "\<forall>a\<in>set [2, 1, 3]. linux_task (task_at three_ready a) = Some a \<and>
      \<not> missed (msecs_to_jiffies ?k) 1100 (task_at three_ready a) \<and> of_nat a = pid (task_at three_ready a)"
    by (simp add: three_eval missed_def)
  show ?thesis using ready_queue_drains [OF r o, of "\<lambda>a. a" ?k "\<lambda>a. 1100" of_nat] h by auto
qed

end
