(* ===== verification/Mp2_Demand.thy ===== *)
theory Mp2_Demand
  imports Complex_Main
begin

text \<open>
  The mathematics of admission control: periodic tasks under fixed priorities, the demand of a set of
  tasks in an interval, and the hyperbolic bound: when the product of \<open>1 + u\<close> over the utilisations \<open>u\<close> is below 2,
  there is an instant within the longest period by which the processor has caught up. A sum of utilisations below
  \<open>ln 2\<close>, of which 0.693 is an approximation, is enough.
\<close>

section \<open>Demand\<close>

text \<open>The releases of a task of period \<open>p\<close> in an interval of length \<open>t\<close> that starts with one.\<close>

definition releases :: "nat \<Rightarrow> nat \<Rightarrow> nat" where
  "releases t p = (t + p - 1) div p"

definition demand :: "('a \<Rightarrow> nat) \<Rightarrow> ('a \<Rightarrow> nat) \<Rightarrow> 'a set \<Rightarrow> nat \<Rightarrow> nat" where
  "demand T c A t = (\<Sum>a\<in>A. c a * releases t (T a))"

lemma releases_le:
  assumes "0 < p" "t \<le> q * p"
  shows "releases t p \<le> q"
proof -
  have "t + p - 1 < Suc q * p" using assms by simp
  then have "releases t p < Suc q" unfolding releases_def by (rule less_mult_imp_div_less)
  then show ?thesis by simp
qed

lemma releases_ge:
  assumes "0 < p" "0 < n" "(n - 1) * p < t"
  shows "n \<le> releases t p"
proof -
  obtain m where n: "n = Suc m" using assms(2) by (cases n) simp_all
  then have "n * p \<le> t + p - 1" using assms by simp
  then show ?thesis unfolding releases_def using assms(1) by (simp add: less_eq_div_iff_mult_less_eq)
qed

section \<open>The hyperbolic bound\<close>

text \<open>Weights in ascending order, each smaller than what has been collected before it.\<close>

lemma collect_bound:
  fixes e u :: "'a \<Rightarrow> real" and S :: real
  assumes "sorted_wrt (\<lambda>a b. e a \<le> e b) xs" "distinct xs" "\<forall>a\<in>set xs. 0 \<le> u a \<and> 0 \<le> e a"
    and "\<forall>k\<in>set xs. e k \<le> S + (\<Sum>a\<in>{a \<in> set xs. e a < e k}. u a * e a)"
  shows "S + (\<Sum>a\<leftarrow>xs. u a * e a) \<le> S * (\<Prod>a\<leftarrow>xs. 1 + u a)"
  using assms
proof (induction xs rule: rev_induct)
  case (snoc k xs)
  have below: "{a \<in> set (xs @ [k]). e a < e b} \<subseteq> set xs" if "b \<in> set (xs @ [k])" for b
    using snoc.prems(1) that by (auto simp: sorted_wrt_append)
  have "e b \<le> S + (\<Sum>a\<in>{a \<in> set xs. e a < e b}. u a * e a)" if "b \<in> set xs" for b
  proof -
    have "{a \<in> set (xs @ [k]). e a < e b} = {a \<in> set xs. e a < e b}" using below [of b] that by auto
    then show ?thesis using snoc.prems(4) that by auto
  qed
  then have IH: "S + (\<Sum>a\<leftarrow>xs. u a * e a) \<le> S * (\<Prod>a\<leftarrow>xs. 1 + u a)"
    using snoc.IH snoc.prems(1-3) by (simp add: sorted_wrt_append)
  have "(\<Sum>a\<in>{a \<in> set (xs @ [k]). e a < e k}. u a * e a) \<le> (\<Sum>a\<in>set xs. u a * e a)"
    using below [of k] snoc.prems(3) by (intro sum_mono2) auto
  also have "\<dots> = (\<Sum>a\<leftarrow>xs. u a * e a)" using snoc.prems(2) by (simp add: sum_list_distinct_conv_sum_set)
  finally have "e k \<le> S + (\<Sum>a\<leftarrow>xs. u a * e a)" using snoc.prems(4) by auto
  with IH have "e k \<le> S * (\<Prod>a\<leftarrow>xs. 1 + u a)" by simp
  then have "u k * e k \<le> u k * (S * (\<Prod>a\<leftarrow>xs. 1 + u a))" using snoc.prems(3) by (intro mult_left_mono) auto
  then show ?case using IH by (simp add: algebra_simps)
qed simp

text \<open>The last release of each task within the longest period, as a candidate instant.\<close>

lemma demand_at_release:
  fixes T c :: "'a \<Rightarrow> nat"
  assumes "finite A" "\<forall>a\<in>A. 0 < T a \<and> T a \<le> L" "k \<in> A"
  defines "e \<equiv> \<lambda>a. (L div T a) * T a"
  shows "demand T c A (e k) \<le> (\<Sum>a\<in>A. c a * (L div T a)) + (\<Sum>a\<in>{a \<in> A. e a < e k}. c a * (L div T a))"
proof -
  have "c a * releases (e k) (T a) \<le> c a * (L div T a) + (if e a < e k then c a * (L div T a) else 0)" if "a \<in> A" for a
  proof (cases "e a < e k")
    case False
    then have "releases (e k) (T a) \<le> L div T a" using that assms(2) by (intro releases_le) (auto simp: e_def)
    then show ?thesis using False by simp
  next
    case True
    have pos: "0 < T a" "1 \<le> L div T a" using that assms(2) by (auto simp: div_greater_zero_iff Suc_le_eq)
    have "e k \<le> L" by (simp add: e_def)
    also have "L \<le> Suc (L div T a) * T a"
      using mod_less_divisor [OF pos(1), of L] div_mult_mod_eq [of L "T a"] by (metis add_le_cancel_left less_imp_le mult_Suc add.commute)
    finally have "releases (e k) (T a) \<le> Suc (L div T a)" using pos(1) by (intro releases_le)
    also have "\<dots> \<le> L div T a + L div T a" using pos(2) by simp
    finally have "c a * releases (e k) (T a) \<le> c a * (L div T a + L div T a)" by (rule mult_le_mono2)
    then show ?thesis using True by (simp add: distrib_left)
  qed
  then have "demand T c A (e k) \<le> (\<Sum>a\<in>A. c a * (L div T a) + (if e a < e k then c a * (L div T a) else 0))"
    unfolding demand_def by (rule sum_mono)
  also have "\<dots> = (\<Sum>a\<in>A. c a * (L div T a)) + (\<Sum>a\<in>{a \<in> A. e a < e k}. c a * (L div T a))"
    using assms(1) by (simp add: sum.distrib sum.inter_filter)
  finally show ?thesis .
qed

theorem hyperbolic_bound:
  fixes T c :: "'a \<Rightarrow> nat"
  assumes "finite A" "i \<in> A" "\<forall>a\<in>A. 0 < T a \<and> T a \<le> T i"
    and "(\<Prod>a\<in>A. 1 + real (c a) / real (T a)) < 2"
  shows "\<exists>t. 0 < t \<and> t \<le> T i \<and> demand T c A t \<le> t"
proof (rule ccontr)
  assume "\<nexists>t. 0 < t \<and> t \<le> T i \<and> demand T c A t \<le> t"
  then have over: "t < demand T c A t" if "0 < t" "t \<le> T i" for t using that by (meson not_le)
  define e where "e \<equiv> \<lambda>a. (T i div T a) * T a"
  define u where "u a = real (c a) / real (T a)" for a
  define S where "S = (\<Sum>a\<in>A. u a * real (e a))"
  have part: "u a * real (e a) = real (c a * (T i div T a))" if "a \<in> A" for a
    using assms(3) that by (simp add: u_def e_def)
  have part_sum: "(\<Sum>a\<in>B. u a * real (e a)) = (\<Sum>a\<in>B. real (c a * (T i div T a)))" if "B \<subseteq> A" for B
    by (intro sum.cong refl part) (use that in auto)
  have e: "0 < e a" "e a \<le> T i" if "a \<in> A" for a using assms(3) that by (auto simp: e_def div_greater_zero_iff)
  have step: "real (e k) < S + (\<Sum>a\<in>{a \<in> A. e a < e k}. u a * real (e a))" if "k \<in> A" for k
  proof -
    have "e k < demand T c A (e k)" using e [OF that] over by simp
    also have "\<dots> \<le> (\<Sum>a\<in>A. c a * (T i div T a)) + (\<Sum>a\<in>{a \<in> A. e a < e k}. c a * (T i div T a))"
      using demand_at_release [OF assms(1) assms(3) that] by (simp add: e_def)
    finally have "real (e k) < real ((\<Sum>a\<in>A. c a * (T i div T a)) + (\<Sum>a\<in>{a \<in> A. e a < e k}. c a * (T i div T a)))"
      by (simp only: of_nat_less_iff)
    then have "real (e k) < (\<Sum>a\<in>A. real (c a * (T i div T a))) + (\<Sum>a\<in>{a \<in> A. e a < e k}. real (c a * (T i div T a)))"
      by (simp only: of_nat_add of_nat_sum)
    moreover have "{a \<in> A. e a < e k} \<subseteq> A" by blast
    ultimately show ?thesis by (simp only: part_sum subset_refl S_def)
  qed
  obtain xs0 where xs0: "set xs0 = A" "distinct xs0" using finite_distinct_list [OF assms(1)] by blast
  define xs where "xs = sort_key e xs0"
  have xs: "set xs = A" "distinct xs" "sorted_wrt (\<lambda>a b. real (e a) \<le> real (e b)) xs"
    using xs0 sorted_sort_key [of e xs0] by (simp_all add: xs_def sorted_map)
  have "S + (\<Sum>a\<leftarrow>xs. u a * real (e a)) \<le> S * (\<Prod>a\<leftarrow>xs. 1 + u a)"
  proof (rule collect_bound [OF xs(3,2)])
    show "\<forall>k\<in>set xs. real (e k) \<le> S + (\<Sum>a\<in>{a \<in> set xs. real (e a) < real (e k)}. u a * real (e a))"
      using step xs(1) by (auto simp: less_imp_le)
  qed (simp add: u_def)
  moreover have "(\<Sum>a\<leftarrow>xs. u a * real (e a)) = S"
    using xs(1,2) by (simp add: S_def sum_list_distinct_conv_sum_set)
  moreover have "(\<Prod>a\<leftarrow>xs. 1 + u a) = (\<Prod>a\<in>A. 1 + u a)"
    using xs(1,2) by (simp add: prod.distinct_set_conv_list [symmetric])
  ultimately have "2 * S \<le> S * (\<Prod>a\<in>A. 1 + u a)" by simp
  moreover have "0 < S"
  proof -
    have "e i = T i" using assms(2,3) by (simp add: e_def)
    have "T i < demand T c A (T i)" using assms(2,3) over by simp
    also have "demand T c A (T i) \<le> (\<Sum>a\<in>A. c a * (T i div T a)) + (\<Sum>a\<in>{a \<in> A. e a < T i}. c a * (T i div T a))"
      using demand_at_release [OF assms(1) assms(3) assms(2), of c] \<open>e i = T i\<close> by (simp add: e_def)
    also have "\<dots> \<le> (\<Sum>a\<in>A. c a * (T i div T a)) + (\<Sum>a\<in>A. c a * (T i div T a))"
      by (intro add_left_mono sum_mono2 assms(1)) auto
    finally have "0 < (\<Sum>a\<in>A. c a * (T i div T a))" by linarith
    moreover have "S = real (\<Sum>a\<in>A. c a * (T i div T a))" by (simp only: part_sum [OF subset_refl] S_def of_nat_sum)
    ultimately show ?thesis by (simp only: of_nat_0_less_iff)
  qed
  ultimately have "2 \<le> (\<Prod>a\<in>A. 1 + u a)" by simp
  then show False using assms(4) by (simp add: u_def)
qed

section \<open>The limit of admission control\<close>

lemma exp_limit: "exp (726817 / 2 ^ 20 :: real) < 2"
proof -
  let ?x = "- 726817 / 2 ^ 20 :: real"
  obtain t where "exp ?x = (\<Sum>m<10. ?x ^ m / fact m) + exp t / fact 10 * ?x ^ 10"
    using Maclaurin_exp_le [of ?x 10] by blast
  moreover have "0 \<le> exp t / fact 10 * ?x ^ 10" by simp
  moreover have "1 / 2 < (\<Sum>m<10. ?x ^ m / fact m)"
    by (simp add: eval_nat_numeral lessThan_Suc)
  ultimately have "1 / 2 < exp ?x" by linarith
  then have "1 / 2 < 1 / exp (726817 / 2 ^ 20 :: real)" by (simp add: exp_minus field_simps)
  then show ?thesis by (simp add: field_simps)
qed

theorem utilisation_test:
  fixes T c :: "'a \<Rightarrow> nat"
  assumes "finite A" "i \<in> A" "\<forall>a\<in>A. 0 < T a \<and> T a \<le> T i"
    and "(\<Sum>a\<in>A. real (c a) / real (T a)) \<le> 726817 / 2 ^ 20"
  shows "\<exists>t. 0 < t \<and> t \<le> T i \<and> demand T c A t \<le> t"
proof (rule hyperbolic_bound [OF assms(1-3)])
  have "(\<Prod>a\<in>A. 1 + real (c a) / real (T a)) \<le> (\<Prod>a\<in>A. exp (real (c a) / real (T a)))"
    by (intro prod_mono) simp
  also have "\<dots> = exp (\<Sum>a\<in>A. real (c a) / real (T a))" using assms(1) by (simp add: exp_sum)
  also have "\<dots> \<le> exp (726817 / 2 ^ 20)" using assms(4) by (simp only: exp_le_cancel_iff)
  also have "\<dots> < 2" by (rule exp_limit)
  finally show "(\<Prod>a\<in>A. 1 + real (c a) / real (T a)) < 2" .
qed

end
