(* ===== verification/Mp2_Periodic.thy ===== *)
theory Mp2_Periodic
  imports Mp2_Demand
begin

text \<open>
  Recurring tasks on one processor that always works for the task of the highest priority: the specification
  the scheduler module is measured by. If every level of priorities catches up within the period of its task, then every job
  ends before the next one of its task is released.
\<close>

section \<open>One tick of the processor\<close>

text \<open>
  \<open>rem a\<close> is what the current job of a task has still to compute, 0 between two jobs; \<open>d a\<close> is the release of the
  current job, or of the next one. At tick \<open>j\<close> the jobs that are due are released, then the processor works for
  the task of the highest priority, if there is one. The next release of a task is at least one period after the
  last; a task that has ended has none that comes. A smaller \<open>prio\<close> is a higher priority.
\<close>

definition released_at :: "'a set \<Rightarrow> ('a \<Rightarrow> nat) \<Rightarrow> nat \<Rightarrow> ('a \<Rightarrow> nat) \<Rightarrow> ('a \<Rightarrow> nat) \<Rightarrow> ('a \<Rightarrow> nat) \<Rightarrow> bool" where
  "released_at A c j rem d rem1 \<longleftrightarrow>
     (\<forall>a\<in>A. if rem a = 0 \<and> d a = j then 0 < rem1 a \<and> rem1 a \<le> c a else rem1 a = rem a)"

definition worked :: "'a set \<Rightarrow> ('a \<Rightarrow> nat) \<Rightarrow> ('a \<Rightarrow> 'p::linorder) \<Rightarrow> ('a \<Rightarrow> nat) \<Rightarrow> ('a \<Rightarrow> nat) \<Rightarrow>
    ('a \<Rightarrow> nat) \<Rightarrow> ('a \<Rightarrow> nat) \<Rightarrow> bool" where
  "worked A T prio rem1 d rem' d' \<longleftrightarrow>
     (\<forall>a\<in>A. rem1 a = 0 \<and> rem' a = 0 \<and> d' a = d a) \<or>
     (\<exists>r\<in>A. 0 < rem1 r \<and> (\<forall>a\<in>A. 0 < rem1 a \<longrightarrow> prio r \<le> prio a) \<and>
       rem' r = rem1 r - 1 \<and> (if rem1 r = 1 then d r + T r \<le> d' r else d' r = d r) \<and>
       (\<forall>a\<in>A. a \<noteq> r \<longrightarrow> rem' a = rem1 a \<and> d' a = d a))"

lemma released_atD:
  assumes "released_at A c j rem d rem1" "a \<in> A"
  shows "rem a = 0 \<and> d a = j \<and> 0 < rem1 a \<and> rem1 a \<le> c a \<or> \<not> (rem a = 0 \<and> d a = j) \<and> rem1 a = rem a"
  using assms unfolding released_at_def by (metis (full_types))

text \<open>A task at work or not, in either case.\<close>

lemma workedD:
  assumes "worked A T prio rem1 d rem' d'" "a \<in> A"
  shows "rem' a = rem1 a \<and> d' a = d a \<or> 0 < rem1 a \<and> rem' a = rem1 a - 1 \<and> (if rem1 a = 1 then d a + T a \<le> d' a else d' a = d a)"
  using assms(1) unfolding worked_def
proof (elim disjE bexE conjE)
  fix r
  assume "r \<in> A" "0 < rem1 r" "rem' r = rem1 r - 1" "if rem1 r = 1 then d r + T r \<le> d' r else d' r = d r"
    "\<forall>a\<in>A. a \<noteq> r \<longrightarrow> rem' a = rem1 a \<and> d' a = d a"
  then show ?thesis using assms(2) by (cases "a = r") simp_all
qed (use assms(2) in simp)

section \<open>Busy windows\<close>

text \<open>
  A window of a level started at \<open>t0\<close>, when the level had nothing to do, and is shorter than \<open>x\<close>; \<open>n\<close> counts its
  releases, and what they asked for covers the work left and the time gone.
\<close>

definition window_from :: "('a \<Rightarrow> nat) \<Rightarrow> ('a \<Rightarrow> nat) \<Rightarrow> 'a set \<Rightarrow> nat \<Rightarrow> nat \<Rightarrow> ('a \<Rightarrow> nat) \<Rightarrow> ('a \<Rightarrow> nat) \<Rightarrow> ('a \<Rightarrow> nat) \<Rightarrow> bool" where
  "window_from T c H t0 j n rem d \<longleftrightarrow> t0 \<le> j \<and>
     (\<forall>a\<in>H. t0 + n a * T a \<le> d a + (if rem a = 0 then 0 else T a) \<and> (n a = 0 \<or> t0 + (n a - 1) * T a < j) \<and>
       (rem a \<noteq> 0 \<longrightarrow> t0 \<le> d a)) \<and>
     (\<Sum>a\<in>H. rem a) + (j - t0) \<le> (\<Sum>a\<in>H. c a * n a)"

definition window :: "('a \<Rightarrow> nat) \<Rightarrow> ('a \<Rightarrow> nat) \<Rightarrow> 'a set \<Rightarrow> nat \<Rightarrow> nat \<Rightarrow> ('a \<Rightarrow> nat) \<Rightarrow> ('a \<Rightarrow> nat) \<Rightarrow> bool" where
  "window T c H x j rem d \<longleftrightarrow> (\<exists>t0 n. j < t0 + x \<and> window_from T c H t0 j n rem d)"

lemma window_fresh:
  assumes "0 < x" "\<forall>a\<in>H. rem a = 0 \<and> j \<le> d a"
  shows "window T c H x j rem d"
  unfolding window_def window_from_def using assms
  by (intro exI [of _ j] exI [of _ "\<lambda>_. 0"]) simp

text \<open>A window that has reached its length has no work left.\<close>

lemma window_over:
  assumes "finite H" "\<forall>a\<in>H. 0 < T a" "demand T c H x \<le> x" "window_from T c H t0 (t0 + x) n rem d" "a \<in> H"
  shows "rem a = 0"
proof -
  have "c b * n b \<le> c b * releases x (T b)" if "b \<in> H" for b
  proof (cases "n b = 0")
    case False
    then have "n b \<le> releases x (T b)"
      using assms(2,4) that by (intro releases_ge) (auto simp: window_from_def)
    then show ?thesis by (rule mult_le_mono2)
  qed simp
  then have "(\<Sum>b\<in>H. c b * n b) \<le> demand T c H x" unfolding demand_def by (rule sum_mono)
  then have "(\<Sum>b\<in>H. rem b) = 0" using assms(3,4) by (simp add: window_from_def)
  then show ?thesis using assms(1,5) by simp
qed

lemma window_release:
  assumes "finite H" "H \<subseteq> A" "released_at A c j rem d rem1" "window_from T c H t0 j n rem d"
  shows "\<exists>m. (\<forall>a\<in>H. t0 + m a * T a \<le> d a + (if rem1 a = 0 then 0 else T a) \<and> (m a = 0 \<or> t0 + (m a - 1) * T a \<le> j) \<and>
      (rem1 a \<noteq> 0 \<longrightarrow> t0 \<le> d a)) \<and> (\<Sum>a\<in>H. rem1 a) + (j - t0) \<le> (\<Sum>a\<in>H. c a * m a)"
proof -
  let ?new = "\<lambda>a. rem a = 0 \<and> d a = j"
  let ?m = "\<lambda>a. n a + (if ?new a then 1 else 0)"
  note w = assms(4) [unfolded window_from_def]
  have rem1: "rem1 a \<le> rem a + (if ?new a then c a else 0)" "\<not> ?new a \<Longrightarrow> rem1 a = rem a" "?new a \<Longrightarrow> rem1 a \<noteq> 0" if "a \<in> H" for a
    using released_atD [OF assms(3), of a] that assms(2) by auto
  have "t0 + ?m a * T a \<le> d a + (if rem1 a = 0 then 0 else T a) \<and> (?m a = 0 \<or> t0 + (?m a - 1) * T a \<le> j) \<and>
      (rem1 a \<noteq> 0 \<longrightarrow> t0 \<le> d a)" if a: "a \<in> H" for a
  proof (cases "?new a")
    case True
    then show ?thesis using w a rem1(3) [OF a] by auto
  next
    case False
    then show ?thesis using w a rem1(2) [OF a] by (auto simp: less_imp_le)
  qed
  moreover have "(\<Sum>a\<in>H. rem1 a) + (j - t0) \<le> (\<Sum>a\<in>H. c a * ?m a)"
  proof -
    have "(\<Sum>a\<in>H. rem1 a) \<le> (\<Sum>a\<in>H. rem a + (if ?new a then c a else 0))" by (intro sum_mono rem1(1))
    moreover have "(\<Sum>a\<in>H. c a * ?m a) = (\<Sum>a\<in>H. c a * n a) + (\<Sum>a\<in>H. if ?new a then c a else 0)"
      unfolding sum.distrib [symmetric] by (intro sum.cong) auto
    moreover have "(\<Sum>a\<in>H. rem a) + (j - t0) \<le> (\<Sum>a\<in>H. c a * n a)" using w by blast
    ultimately show ?thesis unfolding sum.distrib by linarith
  qed
  ultimately show ?thesis by (intro exI [of _ ?m] conjI ballI) simp_all
qed

lemma window_tick:
  assumes A: "finite A" "\<forall>a\<in>A. 0 < T a" and H: "H = {a \<in> A. prio a \<le> P}" and x: "0 < x" "demand T c H x \<le> x"
    and ok: "\<forall>a\<in>A. rem a = 0 \<longrightarrow> j \<le> d a" "\<forall>a\<in>A. 0 < rem1 a \<longrightarrow> j < d a + T a"
    and w: "window T c H x j rem d" and step: "released_at A c j rem d rem1" "worked A T prio rem1 d rem' d'"
  shows "window T c H x (Suc j) rem' d'"
proof -
  obtain t0 n where t0: "j < t0 + x" "window_from T c H t0 j n rem d" using w by (auto simp: window_def)
  have fin: "finite H" "H \<subseteq> A" using A(1) H by auto
  have idle: "Suc j \<le> d a" if "a \<in> A" "rem1 a = 0" for a
  proof -
    have "rem a = 0" "d a \<noteq> j" using released_atD [OF step(1) that(1)] that(2) by auto
    then show ?thesis using bspec [OF ok(1) that(1)] by simp
  qed
  obtain m where m: "\<forall>a\<in>H. t0 + m a * T a \<le> d a + (if rem1 a = 0 then 0 else T a) \<and> (m a = 0 \<or> t0 + (m a - 1) * T a \<le> j) \<and>
      (rem1 a \<noteq> 0 \<longrightarrow> t0 \<le> d a)" "(\<Sum>a\<in>H. rem1 a) + (j - t0) \<le> (\<Sum>a\<in>H. c a * m a)"
    using window_release [OF fin step(1) t0(2)] by blast
  have le: "t0 \<le> j" using t0(2) by (simp add: window_from_def)
  show ?thesis
  proof (cases "\<forall>a\<in>H. rem1 a = 0")
    case True
    then have "rem' a = 0 \<and> Suc j \<le> d' a" if "a \<in> H" for a
      using workedD [OF step(2), of a] idle [of a] that fin(2) by auto
    then show ?thesis using x(1) by (intro window_fresh) auto
  next
    case False
    then obtain b where b: "b \<in> H" "0 < rem1 b" by auto
    have "\<not> (\<forall>a\<in>A. rem1 a = 0 \<and> rem' a = 0 \<and> d' a = d a)" using b fin(2) by auto
    then obtain r where r0: "r \<in> A" "0 < rem1 r" "\<forall>a\<in>A. 0 < rem1 a \<longrightarrow> prio r \<le> prio a" "rem' r = rem1 r - 1" "if rem1 r = 1 then d r + T r \<le> d' r else d' r = d r"
        "\<forall>a\<in>A. a \<noteq> r \<longrightarrow> rem' a = rem1 a \<and> d' a = d a"
      using step(2) unfolding worked_def by blast
    have "prio r \<le> prio b" using r0(3) b fin(2) by blast
    note r = r0(1,2) this r0(4,5) r0(6) [rule_format]
    have rH: "r \<in> H" using r(1,3) b(1) H by auto
    have "(\<Sum>a\<in>H - {r}. rem' a) = (\<Sum>a\<in>H - {r}. rem1 a)" using r(6) fin(2) by (intro sum.cong) auto
    then have sum: "(\<Sum>a\<in>H. rem1 a) = Suc (\<Sum>a\<in>H. rem' a)"
      using r(2,4) by (simp add: sum.remove [OF fin(1) rH])
    have "t0 + m a * T a \<le> d' a + (if rem' a = 0 then 0 else T a) \<and> (m a = 0 \<or> t0 + (m a - 1) * T a < Suc j) \<and>
        (rem' a \<noteq> 0 \<longrightarrow> t0 \<le> d' a)" if a: "a \<in> H" for a
    proof (cases "a = r")
      case True
      have "t0 + m r * T r \<le> d r + T r" "m r = 0 \<or> t0 + (m r - 1) * T r \<le> j" "t0 \<le> d r"
        using m(1) rH r(2) by auto
      then show ?thesis using True r(2,4,5) by auto
    next
      case False
      then have "rem' a = rem1 a" "d' a = d a" using r(6) a fin(2) by auto
      then show ?thesis using m(1) a by (simp add: less_Suc_eq_le)
    qed
    then have w': "window_from T c H t0 (Suc j) m rem' d'"
      using m(2) sum le by (auto simp: window_from_def)
    show ?thesis
    proof (cases "Suc j < t0 + x")
      case True
      then show ?thesis using w' by (auto simp: window_def)
    next
      case False
      then have "Suc j = t0 + x" using t0(1) by simp
      then have zero: "rem' a = 0" if "a \<in> H" for a
        using window_over [OF fin(1) _ x(2)] w' A(2) fin(2) that by fastforce
      have "Suc j \<le> d' a" if a: "a \<in> H" for a
      proof (cases "a = r")
        case True
        then have "rem1 r = 1" using zero [OF rH] r(2,4) by simp
        then show ?thesis using True r(1,5) ok(2) by (auto simp: Suc_le_eq)
      next
        case False
        then show ?thesis using r(6) idle zero [OF a] a fin(2) by fastforce
      qed
      then show ?thesis using zero x(1) by (intro window_fresh) auto
    qed
  qed
qed

section \<open>Deadlines\<close>

definition catches_up :: "'a set \<Rightarrow> ('a \<Rightarrow> nat) \<Rightarrow> ('a \<Rightarrow> nat) \<Rightarrow> ('a \<Rightarrow> 'p::linorder) \<Rightarrow> ('a \<Rightarrow> nat) \<Rightarrow> bool" where
  "catches_up A T c prio x \<longleftrightarrow> finite A \<and>
     (\<forall>i\<in>A. 0 < x i \<and> x i \<le> T i \<and> demand T c {a \<in> A. prio a \<le> prio i} (x i) \<le> x i)"

lemma catches_up_pos:
  assumes "catches_up A T c prio x" "a \<in> A"
  shows "0 < T a"
proof -
  have "0 < x a" "x a \<le> T a" using assms by (simp_all add: catches_up_def)
  then show ?thesis by simp
qed

definition on_time :: "'a set \<Rightarrow> ('a \<Rightarrow> nat) \<Rightarrow> ('a \<Rightarrow> nat) \<Rightarrow> ('a \<Rightarrow> 'p::linorder) \<Rightarrow> ('a \<Rightarrow> nat) \<Rightarrow> nat \<Rightarrow>
    ('a \<Rightarrow> nat) \<Rightarrow> ('a \<Rightarrow> nat) \<Rightarrow> bool" where
  "on_time A T c prio x j rem d \<longleftrightarrow> (\<forall>a\<in>A. if rem a = 0 then j \<le> d a else d a < j) \<and>
     (\<forall>i\<in>A. window T c {a \<in> A. prio a \<le> prio i} (x i) j rem d)"

lemma on_time_start:
  assumes "catches_up A T c prio x" "\<forall>a\<in>A. rem a = 0 \<and> j \<le> d a"
  shows "on_time A T c prio x j rem d"
  unfolding on_time_def
proof (intro conjI ballI)
  fix i assume "i \<in> A"
  then have "0 < x i" using assms(1) by (simp add: catches_up_def)
  then show "window T c {a \<in> A. prio a \<le> prio i} (x i) j rem d" by (rule window_fresh) (use assms(2) in blast)
next
  fix a assume "a \<in> A"
  then show "if rem a = 0 then j \<le> d a else d a < j" using bspec [OF assms(2)] by simp
qed

lemma on_time_deadline:
  assumes "catches_up A T c prio x" "on_time A T c prio x j rem d" "a \<in> A" "rem a \<noteq> 0"
  shows "j < d a + T a"
proof -
  have "window T c {b \<in> A. prio b \<le> prio a} (x a) j rem d" using assms(2,3) by (simp add: on_time_def)
  then obtain t0 where "j < t0 + x a" "t0 \<le> d a" using assms(3,4) by (auto simp: window_def window_from_def)
  moreover have "x a \<le> T a" using assms(1,3) by (simp add: catches_up_def)
  ultimately show ?thesis by linarith
qed

lemma on_time_released:
  assumes "catches_up A T c prio x" "on_time A T c prio x j rem d" "released_at A c j rem d rem1" "a \<in> A" "0 < rem1 a"
  shows "j < d a + T a"
proof (cases "rem a = 0")
  case True
  have "0 < T a" by (rule catches_up_pos [OF assms(1,4)])
  then show ?thesis using True assms(5) released_atD [OF assms(3,4)] by auto
next
  case False
  then show ?thesis by (intro on_time_deadline [OF assms(1,2,4)]) simp
qed

lemma on_time_tick:
  assumes c: "catches_up A T c prio x" and o: "on_time A T c prio x j rem d"
    and step: "released_at A c j rem d rem1" "worked A T prio rem1 d rem' d'"
  shows "on_time A T c prio x (Suc j) rem' d'"
proof -
  have T: "\<forall>a\<in>A. 0 < T a" using catches_up_pos [OF c] by blast
  have ok: "\<forall>a\<in>A. rem a = 0 \<longrightarrow> j \<le> d a" "\<forall>a\<in>A. 0 < rem1 a \<longrightarrow> j < d a + T a"
    using o on_time_released [OF c o step(1)] by (auto simp: on_time_def split: if_splits)
  have "window T c {a \<in> A. prio a \<le> prio i} (x i) (Suc j) rem' d'" if i: "i \<in> A" for i
    using window_tick [OF _ T refl _ _ ok _ step, of "x i" "prio i"] c o i by (simp add: catches_up_def on_time_def)
  moreover have "if rem' a = 0 then Suc j \<le> d' a else d' a < Suc j" if a: "a \<in> A" for a
  proof -
    have at: "if rem a = 0 then j \<le> d a else d a < j" using o a by (simp add: on_time_def)
    have sleeping: "rem1 a = 0 \<Longrightarrow> Suc j \<le> d a" and active: "0 < rem1 a \<Longrightarrow> d a \<le> j"
      using released_atD [OF step(1) a] at by (simp_all split: if_splits) (elim disjE conjE; simp)+
    have "j < d a + T a" if "0 < rem1 a" using ok(2) a that by blast
    with sleeping active show ?thesis using workedD [OF step(2) a]
      by (cases "rem1 a = 0") (auto simp: Suc_le_eq less_Suc_eq_le split: if_splits)
  qed
  ultimately show ?thesis by (simp add: on_time_def)
qed

end
