(* ===== verification/Mp2_Schedule.thy ===== *)
theory Mp2_Schedule
  imports Mp2_Periodic Mp2_Drain
begin

text \<open>
  The scheduler module at work: time goes by in jiffies, the timers fire when they are due, the dispatching thread runs when it
  has been woken, the current task computes, and a task whose job is done yields, or deregisters after its last job.
\<close>

section \<open>Runs\<close>

text \<open>
  \<open>work a j\<close> is what the job of a task that is released at \<open>j\<close> has to compute, in jiffies; \<open>rem\<close> is what is left. The
  thread runs at once when it has been woken, as a kernel thread of the module's priority does, and its own computing is
  not counted.
\<close>

definition due :: "nat \<Rightarrow> mp2_state \<Rightarrow> addr list" where
  "due j s = filter (\<lambda>a. expires (timer (task_at s a)) = Some (of_nat j)) (task_list s)"

text \<open>The period of a task in jiffies, and when its current job was, or its next one will be, released.\<close>

definition period_jiffies :: "mp2_kernel \<Rightarrow> mp2_task_struct \<Rightarrow> nat" where
  "period_jiffies k t = unat (msecs_to_jiffies k (ucast (period t)))"

definition release :: "mp2_state \<Rightarrow> addr \<Rightarrow> nat" where
  "release s a = unat (next_ddl (task_at s a))"

text \<open>
  A task whose job is done writes the line of its yield, or of its deregistration when that was its last job:
  \<open>quits a j\<close> says so of the job that was released at \<open>j\<close>.
\<close>

definition done_line :: "(addr \<Rightarrow> nat \<Rightarrow> bool) \<Rightarrow> mp2_state \<Rightarrow> addr \<Rightarrow> char list" where
  "done_line quits s a =
     (if quits a (release s a) then deregister_line (pid (task_at s a)) else yield_line (pid (task_at s a))) @ [newline]"

definition rm_tick :: "mp2_kernel \<Rightarrow> (addr \<Rightarrow> nat \<Rightarrow> nat) \<Rightarrow> (addr \<Rightarrow> nat \<Rightarrow> bool) \<Rightarrow> nat \<Rightarrow> mp2_state \<times> (addr \<Rightarrow> nat) \<Rightarrow>
    (mp2_state \<times> (addr \<Rightarrow> nat)) option" where
  "rm_tick k work quits j = (\<lambda>(s, rem).
     Option.bind (run_schedule (map Fire (due j s)) s) (\<lambda>s1.
     let rem1 = (\<lambda>a. if a \<in> set (due j s) then work a j else rem a) in
     Option.bind (if woken s1 then run_action Dispatch s1 else Some s1) (\<lambda>s2.
     case ct s2 of
       None \<Rightarrow> Some (s2, rem1)
     | Some a \<Rightarrow>
         let rem2 = rem1(a := rem1 a - 1) in
         if rem2 a \<noteq> 0 then Some (s2, rem2)
         else map_option (\<lambda>s3. (s3, rem2)) (run_action (Write (at_time k (of_nat (Suc j))) (done_line quits s2 a)) s2))))"

fun rm_ticks :: "mp2_kernel \<Rightarrow> (addr \<Rightarrow> nat \<Rightarrow> nat) \<Rightarrow> (addr \<Rightarrow> nat \<Rightarrow> bool) \<Rightarrow> nat \<Rightarrow> nat \<Rightarrow> mp2_state \<times> (addr \<Rightarrow> nat) \<Rightarrow>
    (mp2_state \<times> (addr \<Rightarrow> nat)) option" where
  "rm_ticks k work quits j 0 x = Some x"
| "rm_ticks k work quits j (Suc n) x = Option.bind (rm_tick k work quits j x) (rm_ticks k work quits (Suc j) n)"

section \<open>Between two actions\<close>

definition job_ok :: "nat \<Rightarrow> bool \<Rightarrow> mp2_task_struct \<Rightarrow> bool" where
  "job_ok r cur t \<longleftrightarrow> linux_task t \<noteq> None \<and> next_ddl t \<noteq> 0 \<and>
     (if r = 0 then \<not> cur \<and> state t = SLEEPING \<and> expires (timer t) = Some (next_ddl t)
      else state t = (if cur then RUNNING else READY) \<and> expires (timer t) = None)"

definition at_work :: "mp2_state \<Rightarrow> (addr \<Rightarrow> nat) \<Rightarrow> bool" where
  "at_work s rem \<longleftrightarrow> unlocked s \<and> dispatcher s \<and> attended s \<and>
     (\<forall>a\<in>set (task_list s). job_ok (rem a) (ct s = Some a) (task_at s a))"

text \<open>What timers and rounds do not change.\<close>

definition same_tasks :: "mp2_state \<Rightarrow> mp2_state \<Rightarrow> bool" where
  "same_tasks s t \<longleftrightarrow> task_list t = task_list s \<and> (\<forall>a\<in>set (task_list s). pid (task_at t a) = pid (task_at s a) \<and>
     period (task_at t a) = period (task_at s a) \<and> next_ddl (task_at t a) = next_ddl (task_at s a))"

lemma same_tasks_trans: "same_tasks r s \<Longrightarrow> same_tasks s t \<Longrightarrow> same_tasks r t"
  by (simp add: same_tasks_def)

lemma same_tasks_refl [simp]: "same_tasks s s"
  by (simp add: same_tasks_def)

section \<open>Timers\<close>

definition fires :: "addr list \<Rightarrow> mp2_state \<Rightarrow> mp2_state" where
  "fires ds s = s\<lparr>slab := (\<lambda>a. if a \<in> set ds
       then Some ((task_at s a)\<lparr>timer := (timer (task_at s a))\<lparr>expires := None\<rparr>, state := READY\<rparr>) else slab s a),
     woken := woken s \<or> ds \<noteq> []\<rparr>"

lemma fires_task_at: "task_at (fires ds s) a =
    (if a \<in> set ds then (task_at s a)\<lparr>timer := (timer (task_at s a))\<lparr>expires := None\<rparr>, state := READY\<rparr> else task_at s a)"
  by (simp add: fires_def task_at_def)

lemma fires_Cons: "a \<notin> set ds \<Longrightarrow> fires ds (fired a s) = fires (a # ds) s"
  by (auto simp: fires_def fired_def task_at_def fun_eq_iff)

lemma fires_run:
  assumes "mp2_inv s" "distinct ds" "\<forall>a\<in>set ds. timer_pending a s"
  shows "run_schedule (map Fire ds) s = Some (fires ds s) \<and> mp2_inv (fires ds s)"
  using assms
proof (induction ds arbitrary: s)
  case Nil
  then show ?case by (simp add: fires_def)
next
  case (Cons a ds)
  have fire: "fire_timer a s = Inr (fired a s)" "timer_pending a s"
    using fire_effect Cons.prems(1,3) by (simp_all add: timer_pending_def)
  have inv: "mp2_inv (fired a s)" using mp2_step_inv [OF Cons.prems(1) step_timer] fire by simp
  have "timer_pending b (fired a s)" if "b \<in> set ds" for b
    using Cons.prems(2,3) that by (auto simp: timer_pending_def fired_def task_at_def)
  then have "run_schedule (map Fire ds) (fired a s) = Some (fires ds (fired a s)) \<and> mp2_inv (fires ds (fired a s))"
    using Cons.IH [OF inv] Cons.prems(2) by simp
  then show ?case using fire Cons.prems(2) by (simp add: fires_Cons)
qed

lemma due_jobs:
  assumes "at_work s rem" "a \<in> set (task_list s)" "j < 2 ^ 64"
  shows "a \<in> set (due j s) \<longleftrightarrow> rem a = 0 \<and> release s a = j"
proof -
  have "unat (of_nat j :: u64) = j" using assms(3) by (simp add: unsigned_of_nat take_bit_nat_eq_self)
  then have "(of_nat j = next_ddl (task_at s a)) = (unat (next_ddl (task_at s a)) = j)" by (auto simp: word_unat_eq_iff)
  then show ?thesis using assms(1,2) by (auto simp: due_def at_work_def job_ok_def release_def split: if_splits)
qed

lemma fire_phase:
  assumes w: "at_work s rem" and j: "j < 2 ^ 64" and pos: "\<forall>a i. 0 < work a i" and wk: "woken s \<longrightarrow> ct s = None"
  defines "t \<equiv> fires (due j s) s" and "rem1 \<equiv> \<lambda>a. if a \<in> set (due j s) then work a j else rem a"
  shows "run_schedule (map Fire (due j s)) s = Some t" "at_work t rem1" "same_tasks s t"
    "woken t \<longrightarrow> ct t = None \<or> (\<exists>a\<in>set (task_list t). is_ready (slab t) a)"
proof -
  have inv: "mp2_inv s" "\<not> tl_lock s" "distinct (task_list s)"
    using w unlockedD [of s] by (simp_all add: at_work_def list_ok_def)
  have d: "distinct (due j s)" "set (due j s) \<subseteq> set (task_list s)" "\<forall>a\<in>set (due j s). timer_pending a s"
    using inv(3) by (auto simp: due_def timer_pending_def)
  note run = fires_run [OF inv(1) d(1,3)]
  show "run_schedule (map Fire (due j s)) s = Some t" using run by (simp add: t_def)
  have t: "task_list t = task_list s" "ct t = ct s" "tl_lock t = tl_lock s" "dispatcher t = dispatcher s"
      "woken t = (woken s \<or> due j s \<noteq> [])"
    by (simp_all add: t_def fires_def)
  have un: "unlocked t" using run inv(2) t(3) by (simp add: unlocked_def t_def)
  have att: "attended t"
  proof (cases "due j s = []")
    case True
    then have "t = s" by (simp add: t_def fires_def)
    then show ?thesis using w by (simp add: at_work_def)
  next
    case False
    then show ?thesis using t(5) by simp
  qed
  have "job_ok (rem1 a) (ct t = Some a) (task_at t a)" if a: "a \<in> set (task_list t)" for a
  proof -
    have job: "job_ok (rem a) (ct s = Some a) (task_at s a)" using w a t(1) by (simp add: at_work_def)
    show ?thesis
    proof (cases "a \<in> set (due j s)")
      case True
      then have "rem a = 0" using due_jobs [OF w _ j] a t(1) by simp
      moreover have "work a j \<noteq> 0" using pos by simp
      ultimately show ?thesis using True job t(2) by (simp add: job_ok_def rem1_def t_def fires_task_at)
    next
      case False
      then show ?thesis using job t(2) by (simp add: rem1_def t_def fires_task_at)
    qed
  qed
  then show "at_work t rem1" using un att w t by (simp add: at_work_def)
  show "same_tasks s t" by (simp add: same_tasks_def t(1)) (simp add: t_def fires_task_at)
  have "is_ready (slab t) a" if "a \<in> set (due j s)" for a using that by (simp add: is_ready_def t_def fires_def)
  moreover have "\<exists>a. a \<in> set (due j s)" if "due j s \<noteq> []" using that by (cases "due j s") auto
  ultimately show "woken t \<longrightarrow> ct t = None \<or> (\<exists>a\<in>set (task_list t). is_ready (slab t) a)"
    using wk t(1,2,5) d(2) by (cases "due j s = []") auto
qed

section \<open>The dispatching thread\<close>

lemma body_returns:
  assumes "unlocked s" "\<forall>a\<in>set (task_list s). linux_task (task_at s a) \<noteq> None"
  shows "\<exists>t. dispatch_body s = Inr t"
proof -
  note ok = unlockedD [OF assms(1)]
  have at: "slab s a = Some (task_at s a)" "\<exists>k. linux_task (task_at s a) = Some k" if "a \<in> set (task_list s)" for a
    using inv_at [OF ok(3) that] assms(2) that by auto
  have cur: "c \<in> set (task_list s)" if "ct s = Some c" for c using ok(1) that by (simp add: inv_defs)
  obtain h where h: "Task_get_highest s = Inr (h, s)" using rm.select_returns ok(2,3) by blast
  have "\<exists>t. dispatch_switch h s = Inr t"
  proof (cases h)
    case None
    show ?thesis
    proof (cases "ct s")
      case None
      then show ?thesis using ok(4) by (simp add: dispatch_switch_def lock_defs \<open>h = None\<close>)
    next
      case (Some c)
      obtain kc where "linux_task (task_at s c) = Some kc" using at(2) [OF cur [OF Some]] by blast
      then show ?thesis using dispatch_idle [OF ok(4) Some at(1) [OF cur [OF Some]]] \<open>h = None\<close> by simp
    qed
  next
    case (Some a)
    then have a: "a \<in> set (task_list s)" using Task_get_highest_Some [OF ok(3,2)] h first_least_member by blast
    obtain ka where ka: "linux_task (task_at s a) = Some ka" using at(2) [OF a] by blast
    show ?thesis
    proof (cases "ct s")
      case None
      then show ?thesis using dispatch_start [OF ok(4) at(1) [OF a] None ka] Some by simp
    next
      case (Some c)
      have c: "slab s c = Some (task_at s c)" "\<exists>k. linux_task (task_at s c) = Some k" using at [OF cur [OF Some]] by simp_all
      then show ?thesis
        using dispatch_replace [OF ok(4) at(1) [OF a] Some c(1) _ ka] dispatch_keep [OF ok(4) at(1) [OF a] Some c(1)] \<open>h = Some a\<close>
        by (cases "period (task_at s a) < period (task_at s c)") auto
    qed
  qed
  then show ?thesis using h by (simp add: dispatch_body_def)
qed

lemma mark_same_tasks: "a \<in> set (task_list s) \<Longrightarrow> same_tasks s (mark a st cs s)"
  by (simp add: same_tasks_def mark_def task_at_def)

lemma same_tasks_frame [simp]: "same_tasks s (t\<lparr>ct := c\<rparr>) = same_tasks s t" "same_tasks (s\<lparr>woken := b\<rparr>) t = same_tasks s t"
  by (simp_all add: same_tasks_def task_at_def)

lemma job_current: "job_ok r cur t \<Longrightarrow> state t = READY \<Longrightarrow> r \<noteq> 0 \<and> \<not> cur"
  by (cases "r = 0"; cases cur) (simp_all add: job_ok_def)

lemma job_start: "job_ok r cur t \<Longrightarrow> r \<noteq> 0 \<Longrightarrow> job_ok r True (t\<lparr>state := RUNNING\<rparr>)"
  by (simp add: job_ok_def)

lemma job_stop: "job_ok r cur t \<Longrightarrow> r \<noteq> 0 \<Longrightarrow> job_ok r False (t\<lparr>state := READY\<rparr>)"
  by (simp add: job_ok_def)

lemma round_jobs:
  assumes "round_effect s t" and jobs: "\<forall>a\<in>set (task_list s). job_ok (rem a) (ct s = Some a) (task_at s a)"
    and ct: "\<forall>c. ct s = Some c \<longrightarrow> c \<in> set (task_list s)"
    and ready: "ct s = None \<or> (\<exists>a\<in>set (task_list s). is_ready (slab s) a)"
  shows "same_tasks s t \<and> woken t = woken s \<and> dispatcher t = dispatcher s \<and>
    (\<forall>a\<in>set (task_list t). job_ok (rem a) (ct t = Some a) (task_at t a))"
  using assms(1)
proof cases
  case (round_demote c kc)
  then show ?thesis using ready by auto
next
  case (round_start h kh)
  have h: "h \<in> set (task_list s)" "state (task_at s h) = READY" using first_least_member [OF round_start(2)] by (simp_all add: view_at)
  then have "job_ok (rem h) True ((task_at s h)\<lparr>state := RUNNING\<rparr>)" using jobs job_current job_start by blast
  moreover have "job_ok (rem a) False (task_at s a)" if "a \<in> set (task_list s)" for a using jobs that round_start(3) by simp
  ultimately show ?thesis
    using h(1) mark_same_tasks by (auto simp: round_start(1) mark_other mark_def task_at_def)
next
  case (round_preempt h c kh kc)
  have h: "h \<in> set (task_list s)" "state (task_at s h) = READY" using first_least_member [OF round_preempt(2)] by (simp_all add: view_at)
  have c: "c \<in> set (task_list s)" "c \<noteq> h" using ct round_preempt(3,4) by auto
  have "job_ok (rem h) True ((task_at s h)\<lparr>state := RUNNING\<rparr>)" using h jobs job_current job_start by blast
  moreover have "rem c \<noteq> 0" using bspec [OF jobs c(1)] round_preempt(3) by (cases "rem c = 0") (simp_all add: job_ok_def)
  then have "job_ok (rem c) False ((task_at s c)\<lparr>state := READY\<rparr>)" using bspec [OF jobs c(1)] job_stop by blast
  moreover have "job_ok (rem a) False (task_at s a)" if "a \<in> set (task_list s)" "a \<noteq> c" for a
    using bspec [OF jobs that(1)] that(2) round_preempt(3) by simp
  ultimately show ?thesis
    using h(1) c by (auto simp: round_preempt(1) mark_def task_at_def same_tasks_def)
qed (use jobs in simp_all)

lemma dispatch_phase:
  assumes w: "at_work s rem" and "woken s \<longrightarrow> ct s = None \<or> (\<exists>a\<in>set (task_list s). is_ready (slab s) a)"
  shows "\<exists>t. (if woken s then run_action Dispatch s else Some s) = Some t \<and> at_work t rem \<and> same_tasks s t \<and> \<not> woken t"
proof (cases "woken s")
  case True
  let ?s = "s\<lparr>woken := False\<rparr>"
  have un: "unlocked s" "unlocked ?s" using w by (simp_all add: at_work_def unlocked_def mp2_inv_def)
  have jobs: "\<forall>a\<in>set (task_list ?s). job_ok (rem a) (ct ?s = Some a) (task_at ?s a)"
    using w by (simp add: at_work_def task_at_def)
  then have "\<forall>a\<in>set (task_list ?s). linux_task (task_at ?s a) \<noteq> None" by (simp add: job_ok_def)
  then obtain t where t: "dispatch_body ?s = Inr t" using body_returns [OF un(2)] by blast
  have round: "round_effect ?s t" by (rule body_effect [OF unlockedD(1) [OF un(2)] t])
  have ct: "\<forall>c. ct ?s = Some c \<longrightarrow> c \<in> set (task_list ?s)" using unlockedD(1) [OF un(2)] by (simp add: inv_defs)
  have "same_tasks ?s t \<and> woken t = woken ?s \<and> dispatcher t = dispatcher ?s \<and>
      (\<forall>a\<in>set (task_list t). job_ok (rem a) (ct t = Some a) (task_at t a))"
    using True assms(2) by (intro round_jobs [OF round jobs ct]) simp
  moreover have "unlocked t" using dispatch_body_ends [OF unlockedD(1) [OF un(2)]] t unlockedD(2) [OF un(2)] by (simp add: unlocked_def)
  moreover have "run_action Dispatch s = Some t" using w True t by (simp add: at_work_def numeral_eq_Suc)
  ultimately show ?thesis
    using True w attended_round [OF round] by (intro exI [of _ t]) (simp add: at_work_def)
next
  case False
  then show ?thesis using w by simp
qed

section \<open>The current task\<close>

definition compute :: "mp2_kernel \<Rightarrow> (addr \<Rightarrow> nat \<Rightarrow> bool) \<Rightarrow> nat \<Rightarrow> mp2_state \<Rightarrow> (addr \<Rightarrow> nat) \<Rightarrow>
    (mp2_state \<times> (addr \<Rightarrow> nat)) option" where
  "compute k quits j s rem =
     (case ct s of
        None \<Rightarrow> Some (s, rem)
      | Some a \<Rightarrow>
          let rem2 = rem(a := rem a - 1) in
          if rem2 a \<noteq> 0 then Some (s, rem2)
          else map_option (\<lambda>t. (t, rem2)) (run_action (Write (at_time k (of_nat (Suc j))) (done_line quits s a)) s))"

lemma rm_tick_compute:
  "rm_tick k work quits j (s, rem) =
     Option.bind (run_schedule (map Fire (due j s)) s) (\<lambda>s1.
     Option.bind (if woken s1 then run_action Dispatch s1 else Some s1) (\<lambda>s2.
     compute k quits j s2 (\<lambda>a. if a \<in> set (due j s) then work a j else rem a)))"
  by (simp add: rm_tick_def compute_def Let_def)

text \<open>A run in time is one of the runs of the module.\<close>

lemma compute_reach:
  assumes "reach mp2_start mp2_step s" "compute k quits j s rem = Some (t, rem')"
  shows "reach mp2_start mp2_step t"
proof (cases "ct s")
  case None
  then show ?thesis using assms by (simp add: compute_def)
next
  case (Some c)
  show ?thesis
  proof (cases "rem c - 1 = 0")
    case True
    then have "run_action (Write (at_time k (of_nat (Suc j))) (done_line quits s c)) s = Some t"
      using assms(2) Some by (auto simp: compute_def Let_def)
    then show ?thesis using reach_step [OF assms(1) run_action_step] by blast
  next
    case False
    then show ?thesis using assms Some by (simp add: compute_def Let_def)
  qed
qed

lemma rm_tick_reach:
  assumes "reach mp2_start mp2_step s" "rm_tick k work quits j (s, rem) = Some (t, rem')"
  shows "reach mp2_start mp2_step t"
proof -
  let ?rem = "\<lambda>a. if a \<in> set (due j s) then work a j else rem a"
  obtain u v where run: "run_schedule (map Fire (due j s)) s = Some u" "(if woken u then run_action Dispatch u else Some u) = Some v"
      "compute k quits j v ?rem = Some (t, rem')"
    using assms(2) unfolding rm_tick_compute bind_eq_Some_conv by blast
  have u: "reach mp2_start mp2_step u" by (rule run_schedule_reach [OF assms(1) run(1)])
  have "reach mp2_start mp2_step v"
  proof (cases "woken u")
    case True
    then have "run_action Dispatch u = Some v" using run(2) by (simp only: if_True)
    then show ?thesis using reach_step [OF u run_action_step] by blast
  next
    case False
    then show ?thesis using run(2) u by simp
  qed
  then show ?thesis using run(3) by (rule compute_reach)
qed

lemma rm_ticks_reach:
  "reach mp2_start mp2_step s \<Longrightarrow> rm_ticks k work quits j n (s, rem) = Some (t, rem') \<Longrightarrow> reach mp2_start mp2_step t"
proof (induction n arbitrary: j s rem)
  case (Suc n)
  then obtain u r where u: "rm_tick k work quits j (s, rem) = Some (u, r)" "rm_ticks k work quits (Suc j) n (u, r) = Some (t, rem')"
    by (auto simp: bind_eq_Some_conv)
  show ?case by (rule Suc.IH [OF rm_tick_reach [OF Suc.prems(1) u(1)] u(2)])
qed simp

text \<open>The highest priority among the unfinished jobs has the processor.\<close>

lemma idle_jobs:
  assumes "at_work s rem" "\<not> woken s" "ct s = None" "a \<in> set (task_list s)"
  shows "rem a = 0"
proof (rule ccontr)
  assume "rem a \<noteq> 0"
  then have "state (task_at s a) = READY" using assms(1,3,4) by (simp add: at_work_def job_ok_def)
  then show False using assms by (simp add: at_work_def attended_def view_at)
qed

lemma current_job:
  assumes "at_work s rem" "\<not> woken s" "ct s = Some c"
  shows "c \<in> set (task_list s)" "0 < rem c"
    "\<forall>a\<in>set (task_list s). 0 < rem a \<longrightarrow> period (task_at s c) \<le> period (task_at s a)"
proof -
  have "mp2_inv s" using assms(1) unlockedD(1) by (simp add: at_work_def)
  then show c: "c \<in> set (task_list s)" using assms(3) by (simp add: inv_defs)
  have jobs: "\<forall>a\<in>set (task_list s). job_ok (rem a) (ct s = Some a) (task_at s a)" using assms(1) by (simp add: at_work_def)
  show "0 < rem c" using bspec [OF jobs c] assms(3) by (cases "rem c = 0") (simp_all add: job_ok_def)
  show "\<forall>a\<in>set (task_list s). 0 < rem a \<longrightarrow> period (task_at s c) \<le> period (task_at s a)"
  proof (intro ballI impI)
    fix a assume a: "a \<in> set (task_list s)" "0 < rem a"
    show "period (task_at s c) \<le> period (task_at s a)"
    proof (cases "a = c")
      case False
      then have "state (task_at s a) = READY" using bspec [OF jobs a(1)] a(2) assms(3) by (simp add: job_ok_def)
      then show ?thesis using a(1) assms by (simp add: at_work_def attended_def view_at)
    qed simp
  qed
qed

text \<open>A yield that comes in time: the next release is one period after the last.\<close>

lemma next_release:
  assumes "next_ddl t \<noteq> 0" "unat (next_ddl t) + period_jiffies k t < 2 ^ 64"
  shows "unat (next_deadline (msecs_to_jiffies k) j t) = unat (next_ddl t) + period_jiffies k t"
proof -
  have "unat (next_ddl t + msecs_to_jiffies k (ucast (period t))) = unat (next_ddl t) + unat (msecs_to_jiffies k (ucast (period t)))"
    using assms(2) by (intro unat_add_lem [THEN iffD1]) (simp add: period_jiffies_def)
  then show ?thesis using assms(1) by (simp add: next_deadline_def period_jiffies_def)
qed

lemma job_done:
  assumes w: "at_work s rem" and c: "ct s = Some c" "c \<in> set (task_list s)" "rem c \<noteq> 0"
    and j: "Suc j < 2 ^ 64" "release s c \<le> j" "j < release s c + period_jiffies k (task_at s c)"
      "j + period_jiffies k (task_at s c) < 2 ^ 64"
  shows "\<exists>t. run_action (Write (at_time k (of_nat (Suc j))) (yield_line (pid (task_at s c)) @ [newline])) s = Some t \<and>
    at_work t (rem(c := 0)) \<and> task_list t = task_list s \<and> ct t = None \<and>
    (\<forall>a\<in>set (task_list s). period (task_at t a) = period (task_at s a)) \<and> release t c = release s c + period_jiffies k (task_at s c) \<and>
    (\<forall>a. a \<noteq> c \<longrightarrow> release t a = release s a)"
proof -
  define jj where "jj = (of_nat (Suc j) :: u64)"
  let ?m = "msecs_to_jiffies k"
  have jobs: "job_ok (rem a) (ct s = Some a) (task_at s a)" if "a \<in> set (task_list s)" for a
    using w that by (simp add: at_work_def)
  have un: "unlocked s" using w by (simp add: at_work_def)
  obtain kt where kt: "linux_task (task_at s c) = Some kt" "next_ddl (task_at s c) \<noteq> 0"
    using jobs [OF c(2)] by (auto simp: job_ok_def)
  have nr: "unat (next_deadline ?m jj (task_at s c)) = release s c + period_jiffies k (task_at s c)"
    using next_release [OF kt(2)] j(2,4) by (simp add: release_def)
  have "unat jj = Suc j" using j(1) by (simp add: jj_def unsigned_of_nat take_bit_nat_eq_self del: of_nat_Suc)
  then have "\<not> missed ?m jj (task_at s c)" using nr j(3) by (simp add: missed_def word_less_nat_alt)
  note y = yield_yielded [OF un c(2) refl kt(1) this]
  let ?t = "yielded ?m jj c kt s"
  have at: "task_at ?t a = (if a = c then slept ?m jj (task_at s c) else task_at s a)" for a
    by (simp add: yielded_def task_at_def)
  have fields: "task_list ?t = task_list s" "ct ?t = None" "woken ?t" "dispatcher ?t = dispatcher s" by (simp_all add: yielded_def)
  have "job_ok ((rem(c := 0)) a) (ct ?t = Some a) (task_at ?t a)" if a: "a \<in> set (task_list s)" for a
  proof (cases "a = c")
    case True
    have "next_deadline ?m jj (task_at s c) \<noteq> 0"
    proof
      assume "next_deadline ?m jj (task_at s c) = 0"
      then show False using nr j(3) by simp
    qed
    then show ?thesis using kt True fields(2) by (simp add: at job_ok_def slept_def)
  next
    case False
    then show ?thesis using jobs [OF a] c(1) fields(2) by (simp add: at job_ok_def split: if_splits)
  qed
  then have "at_work ?t (rem(c := 0))" using w y(2) fields by (simp add: at_work_def)
  moreover have "\<forall>a\<in>set (task_list s). period (task_at ?t a) = period (task_at s a)" by (simp add: at slept_def)
  moreover have "release ?t c = release s c + period_jiffies k (task_at s c)" using nr by (simp add: release_def at slept_def)
  ultimately show ?thesis using write_yield [OF y(1)] fields(1,2) unfolding jj_def [symmetric]
    by (intro exI [of _ ?t]) (simp add: release_def at)
qed

text \<open>A task that deregisters: the others are as they were, and the dispatching thread is woken.\<close>

lemma job_quits:
  assumes w: "at_work s rem" and c: "ct s = Some c" "c \<in> set (task_list s)"
  shows "run_action (Write (at_time k j) (deregister_line (pid (task_at s c)) @ [newline])) s = Some (deregistered c s)"
    and "at_work (deregistered c s) (rem(c := 0))"
proof -
  have un: "unlocked s" using w by (simp add: at_work_def)
  have "addr_of s (pid (task_at s c)) = Some c" using c(2) unlockedD(3) [OF un] by (intro addr_of_member) simp_all
  then have "Task_deregister (pid (task_at s c)) s = Inr (0, deregistered c s)"
    using Task_deregister_eq [of s] unlockedD [OF un] by simp
  then show "run_action (Write (at_time k j) (deregister_line (pid (task_at s c)) @ [newline])) s = Some (deregistered c s)"
    by (simp add: at_time_def fresh_object_def mp2_write_def parse_lines run_command_def returned_def)
  have "distinct (task_list s)" using unlockedD(3) [OF un] by (simp add: list_ok_def)
  moreover have "dispatcher (deregistered c s) = dispatcher s" by (simp add: deregistered_def)
  moreover have "job_ok (rem a) False (the (slab s a))" if "a \<in> set (task_list s)" "a \<noteq> c" for a
    using w c(1) that by (auto simp: at_work_def task_at_def)
  ultimately show "at_work (deregistered c s) (rem(c := 0))"
    using w c unlocked_deregistered [OF un c(2)] by (auto simp: at_work_def task_at_def)
qed

end
