(* ===== verification/Mp2_Ticks.thy ===== *)
theory Mp2_Ticks
  imports Mp2_Schedule
begin

text \<open>
  Runs of the scheduler module in time implement the periodic tasks of \<open>Mp2_Periodic\<close>, with the period as the priority. Tasks that
  deregister after their last job leave the list; for the specification they have no release that comes.
\<close>

section \<open>A run and its specification\<close>

text \<open>The release of a listed task, and one that does not come for a task that has deregistered.\<close>

definition planned :: "mp2_state \<Rightarrow> addr \<Rightarrow> nat" where
  "planned s a = (if a \<in> set (task_list s) then release s a else 2 ^ 64)"

text \<open>A state in a run of the tasks \<open>A\<close> with their periods \<open>T\<close> in jiffies and priorities \<open>p\<close>.\<close>

definition in_run :: "mp2_kernel \<Rightarrow> addr set \<Rightarrow> (addr \<Rightarrow> nat) \<Rightarrow> (addr \<Rightarrow> u64) \<Rightarrow> mp2_state \<Rightarrow> (addr \<Rightarrow> nat) \<Rightarrow> bool" where
  "in_run k A T p s rem \<longleftrightarrow> at_work s rem \<and> (woken s \<longrightarrow> ct s = None) \<and> set (task_list s) \<subseteq> A \<and>
     (\<forall>a. a \<notin> set (task_list s) \<longrightarrow> rem a = 0) \<and>
     (\<forall>a\<in>set (task_list s). period (task_at s a) = p a \<and> T a = period_jiffies k (task_at s a))"

text \<open>
  A task that stays has gone on by whole periods and finished no last job in them; one that has left
  has finished its last job.
\<close>

definition advanced :: "(addr \<Rightarrow> nat \<Rightarrow> bool) \<Rightarrow> (addr \<Rightarrow> nat) \<Rightarrow> mp2_state \<Rightarrow> mp2_state \<Rightarrow> bool" where
  "advanced quits T s t \<longleftrightarrow> set (task_list t) \<subseteq> set (task_list s) \<and>
     (\<forall>a\<in>set (task_list t). \<exists>m. release t a = release s a + m * T a \<and> (\<forall>i<m. \<not> quits a (release s a + i * T a))) \<and>
     (\<forall>a\<in>set (task_list s) - set (task_list t). \<exists>m. quits a (release s a + m * T a) \<and>
        (\<forall>i<m. \<not> quits a (release s a + i * T a)))"

lemma advanced_refl:
  assumes "task_list t = task_list s" "\<forall>a\<in>set (task_list s). release t a = release s a"
  shows "advanced quits T s t"
  unfolding advanced_def using assms by (auto intro!: exI [of _ 0])

lemma advancedD:
  assumes "advanced quits T s t"
  shows "set (task_list t) \<subseteq> set (task_list s)"
    and "a \<in> set (task_list t) \<Longrightarrow> \<exists>m. release t a = release s a + m * T a \<and> (\<forall>i<m. \<not> quits a (release s a + i * T a))"
    and "a \<in> set (task_list s) \<Longrightarrow> a \<notin> set (task_list t) \<Longrightarrow> \<exists>m. quits a (release s a + m * T a) \<and> (\<forall>i<m. \<not> quits a (release s a + i * T a))"
  using assms unfolding advanced_def by blast+

lemma advanced_trans:
  assumes rs: "advanced quits T r s" and st: "advanced quits T s t"
  shows "advanced quits T r t"
  unfolding advanced_def
proof (intro conjI ballI)
  have moved: "\<exists>m. x = release r a + m * T a \<and> (\<forall>i<m. \<not> quits a (release r a + i * T a))"
    if "a \<in> set (task_list s)" "x = release s a + n * T a" "\<forall>i<n. \<not> quits a (release s a + i * T a)" for a n x
  proof -
    note found = advancedD(2) [OF rs that(1)]
    obtain m where m: "release s a = release r a + m * T a" "\<forall>i<m. \<not> quits a (release r a + i * T a)"
      using found by blast
    have "\<not> quits a (release r a + i * T a)" if "i < m + n" for i
    proof (cases "i < m")
      case False
      then have "\<not> quits a (release s a + (i - m) * T a)" using \<open>\<forall>i<n. _ i\<close> that by simp
      moreover have "release s a + (i - m) * T a = release r a + i * T a"
        using m(1) False by (simp add: add_mult_distrib [symmetric])
      ultimately show ?thesis by simp
    qed (use m(2) in simp)
    then show ?thesis using m(1) that(2) by (intro exI [of _ "m + n"]) (simp add: add_mult_distrib)
  qed
  show "set (task_list t) \<subseteq> set (task_list r)" using advancedD(1) [OF rs] advancedD(1) [OF st] by blast
  fix a
  show "\<exists>m. release t a = release r a + m * T a \<and> (\<forall>i<m. \<not> quits a (release r a + i * T a))" if "a \<in> set (task_list t)"
  proof -
    have listed: "a \<in> set (task_list s)" using advancedD(1) [OF st] that by blast
    note found = advancedD(2) [OF st that]
    obtain n where "release t a = release s a + n * T a" "\<forall>i<n. \<not> quits a (release s a + i * T a)" "a \<in> set (task_list s)"
      using found listed by blast
    then show ?thesis using moved by blast
  qed
  assume a: "a \<in> set (task_list r) - set (task_list t)"
  show "\<exists>m. quits a (release r a + m * T a) \<and> (\<forall>i<m. \<not> quits a (release r a + i * T a))"
  proof (cases "a \<in> set (task_list s)")
    case True
    then obtain n where n: "quits a (release s a + n * T a)" "\<forall>i<n. \<not> quits a (release s a + i * T a)"
      using advancedD(3) [OF st True] a by blast
    obtain m where "release s a + n * T a = release r a + m * T a" "\<forall>i<m. \<not> quits a (release r a + i * T a)"
      using moved [OF True refl n(2)] by blast
    then show ?thesis using n(1) by auto
  next
    case False
    then show ?thesis using advancedD(3) [OF rs] a by blast
  qed
qed

section \<open>The current task computes\<close>

lemma compute_phase:
  assumes r: "in_run k A T p s rem" "\<not> woken s" and j: "Suc j < 2 ^ 64" and T: "\<forall>a\<in>A. j + T a < 2 ^ 64"
    and ok: "\<forall>a\<in>set (task_list s). 0 < rem a \<longrightarrow> release s a \<le> j \<and> j < release s a + T a"
  shows "\<exists>t rem'. compute k quits j s rem = Some (t, rem') \<and> in_run k A T p t rem' \<and> advanced quits T s t \<and>
    worked A T p rem (planned s) rem' (planned t)"
proof -
  have w: "at_work s rem" and sub: "set (task_list s) \<subseteq> A" and out: "\<And>a. a \<notin> set (task_list s) \<Longrightarrow> rem a = 0"
    and data: "\<And>a. a \<in> set (task_list s) \<Longrightarrow> period (task_at s a) = p a \<and> T a = period_jiffies k (task_at s a)"
    using r(1) by (auto simp: in_run_def)
  show ?thesis
  proof (cases "ct s")
    case None
    have "rem a = 0" for a using idle_jobs [OF w r(2) None] out by (cases "a \<in> set (task_list s)") simp_all
    then show ?thesis using r(1) None advanced_refl [of s s] by (simp add: compute_def worked_def)
  next
    case (Some c)
    note c = current_job [OF w r(2) Some]
    have cA: "c \<in> A" using c(1) sub by blast
    have top: "\<forall>a\<in>A. 0 < rem a \<longrightarrow> p c \<le> p a"
    proof (intro ballI impI)
      fix a assume "a \<in> A" "0 < rem a"
      then have "a \<in> set (task_list s)" using out [of a] by (cases "a \<in> set (task_list s)") simp_all
      then show "p c \<le> p a" using bspec [OF c(3)] data [OF c(1)] data [of a] \<open>0 < rem a\<close> by fastforce
    qed
    have here: "release s c \<le> j" "j < release s c + T c" using ok c(1,2) by simp_all
    let ?rem = "rem(c := 0)"
    consider (more) "rem c \<noteq> 1" | (quit) "rem c = 1" "quits c (release s c)" | (yield) "rem c = 1" "\<not> quits c (release s c)"
      by blast
    then show ?thesis
    proof cases
      case more
      have "job_ok (rem c - 1) True (task_at s c)" using w c(1,2) Some more by (simp add: at_work_def job_ok_def)
      then have "at_work s (rem(c := rem c - 1))" using w Some by (auto simp: at_work_def)
      then have "in_run k A T p s (rem(c := rem c - 1))" using r c(1) by (auto simp: in_run_def)
      moreover have "compute k quits j s rem = Some (s, rem(c := rem c - 1))" using more c(2) by (simp add: compute_def Some Let_def)
      moreover have "worked A T p rem (planned s) (rem(c := rem c - 1)) (planned s)"
        unfolding worked_def using c(2) cA top more by (intro disjI2 bexI [of _ c]) simp_all
      ultimately show ?thesis using advanced_refl [of s s] by blast
    next
      case quit
      let ?t = "deregistered c s"
      note q = job_quits [OF w Some c(1)]
      have d: "distinct (task_list s)" using w unlockedD(3) [of s] by (simp add: at_work_def list_ok_def)
      have at: "task_at ?t a = task_at s a" if "a \<noteq> c" for a using that by (simp add: task_at_def)
      have "in_run k A T p ?t ?rem" using q(2) sub out data d Some at by (auto simp: in_run_def)
      moreover have "advanced quits T s ?t"
        unfolding advanced_def using d quit(2) at by (auto simp: release_def intro!: exI [of _ 0])
      moreover have "worked A T p rem (planned s) ?rem (planned ?t)"
      proof -
        have "planned s c + T c \<le> planned ?t c" using d c(1) here T cA by (fastforce simp: planned_def)
        moreover have "planned ?t a = planned s a" if "a \<noteq> c" for a
          using that at by (simp add: planned_def release_def)
        ultimately show ?thesis
          unfolding worked_def using c(2) cA top quit(1) by (intro disjI2 bexI [of _ c]) simp_all
      qed
      moreover have "compute k quits j s rem = Some (?t, ?rem)"
        using q(1) quit by (simp add: compute_def Some Let_def done_line_def)
      ultimately show ?thesis by blast
    next
      case yield
      have Tc: "T c = period_jiffies k (task_at s c)" using data [OF c(1)] by simp
      have jT: "j + T c < 2 ^ 64" using T cA by simp
      obtain t where t: "run_action (Write (at_time k (of_nat (Suc j))) (yield_line (pid (task_at s c)) @ [newline])) s = Some t"
          "at_work t ?rem" "task_list t = task_list s" "ct t = None" "\<forall>a\<in>set (task_list s). period (task_at t a) = period (task_at s a)"
          "release t c = release s c + T c" "\<forall>a. a \<noteq> c \<longrightarrow> release t a = release s a"
        using job_done [OF w Some c(1) _ j here(1) here(2) [unfolded Tc] jT [unfolded Tc]] c(2) unfolding Tc by fastforce
      have "in_run k A T p t ?rem" using t(2-5) sub out data by (auto simp: in_run_def period_jiffies_def)
      moreover have "\<exists>m. release t a = release s a + m * T a \<and> (\<forall>i<m. \<not> quits a (release s a + i * T a))" for a
        using t(6,7) yield(2) by (cases "a = c") (auto intro: exI [of _ 1] exI [of _ 0])
      then have "advanced quits T s t" unfolding advanced_def t(3) by blast
      moreover have "worked A T p rem (planned s) ?rem (planned t)"
        unfolding worked_def using c(1,2) cA top yield(1) t(3,6,7) by (intro disjI2 bexI [of _ c]) (simp_all add: planned_def)
      moreover have "compute k quits j s rem = Some (t, ?rem)"
        using t(1) yield by (simp add: compute_def Some Let_def done_line_def)
      ultimately show ?thesis by blast
    qed
  qed
qed

section \<open>Ticks\<close>

lemma released_due:
  assumes "in_run k A T p s rem" "j < 2 ^ 64" "\<forall>a i. 0 < work a i" "\<forall>a\<in>A. \<forall>i. work a i \<le> c a"
  shows "released_at A c j rem (planned s) (\<lambda>a. if a \<in> set (due j s) then work a j else rem a)"
proof -
  have "a \<in> set (due j s) \<longleftrightarrow> rem a = 0 \<and> planned s a = j" for a
  proof (cases "a \<in> set (task_list s)")
    case True
    then show ?thesis using due_jobs [of s rem a j] assms(1,2) by (simp add: in_run_def planned_def)
  next
    case False
    then show ?thesis using assms(2) by (simp add: due_def planned_def)
  qed
  then show ?thesis using assms(3,4) by (auto simp: released_at_def)
qed

lemma tick_runs:
  assumes up: "catches_up A T c p x" and r: "in_run k A T p s rem" and o: "on_time A T c p x j rem (planned s)"
    and work: "\<forall>a i. 0 < work a i" "\<forall>a\<in>A. \<forall>i. work a i \<le> c a"
    and T: "\<forall>a\<in>A. j + T a < 2 ^ 64" and j: "Suc j < 2 ^ 64"
  shows "\<exists>t rem'. rm_tick k work quits j (s, rem) = Some (t, rem') \<and> in_run k A T p t rem' \<and> advanced quits T s t \<and>
    on_time A T c p x (Suc j) rem' (planned t)"
proof -
  let ?rem = "\<lambda>a. if a \<in> set (due j s) then work a j else rem a"
  have j': "j < 2 ^ 64" using j by simp
  have w: "at_work s rem" "woken s \<longrightarrow> ct s = None" and sub: "set (task_list s) \<subseteq> A" using r by (simp_all add: in_run_def)
  note fire = fire_phase [OF w(1) j' work(1) w(2)]
  obtain u where u: "(if woken (fires (due j s) s) then run_action Dispatch (fires (due j s) s) else Some (fires (due j s) s)) = Some u"
      "at_work u ?rem" "same_tasks (fires (due j s) s) u" "\<not> woken u"
    using dispatch_phase [OF fire(2,4)] by blast
  have k: "same_tasks s u" using same_tasks_trans [OF fire(3) u(3)] .
  then have tl: "task_list u = task_list s"
    and eq: "\<And>a. a \<in> set (task_list s) \<Longrightarrow> release u a = release s a \<and> period (task_at u a) = period (task_at s a)"
    by (simp_all add: same_tasks_def release_def)
  have planned: "planned u = planned s" using tl eq by (auto simp: planned_def)
  have "a \<notin> set (task_list s) \<Longrightarrow> ?rem a = 0" for a using r by (auto simp: in_run_def due_def)
  then have run: "in_run k A T p u ?rem" using r u(2,4) tl eq by (auto simp: in_run_def period_jiffies_def)
  note rel = released_due [OF r j' work]
  have ok: "\<forall>a\<in>set (task_list u). 0 < ?rem a \<longrightarrow> release u a \<le> j \<and> j < release u a + T a"
  proof (intro ballI impI)
    fix a assume a: "a \<in> set (task_list u)" "0 < ?rem a"
    have A: "a \<in> A" and p: "planned s a = release u a" using a(1) tl sub eq by (auto simp: planned_def)
    have "if rem a = 0 then j \<le> planned s a else planned s a < j" using o A by (simp add: on_time_def)
    then have "planned s a \<le> j" using released_atD [OF rel A] a(2) by (auto split: if_splits)
    moreover have "j < planned s a + T a" by (rule on_time_released [OF up o rel A a(2)])
    ultimately show "release u a \<le> j \<and> j < release u a + T a" using p by simp
  qed
  obtain t rem' where t: "compute k quits j u ?rem = Some (t, rem')" "in_run k A T p t rem'" "advanced quits T u t"
      "worked A T p ?rem (planned s) rem' (planned t)"
    using compute_phase [OF run u(4) j T ok] unfolding planned by blast
  have "rm_tick k work quits j (s, rem) = Some (t, rem')"
    unfolding rm_tick_compute by (simp only: fire(1) u(1) t(1) bind.bind_lunit)
  moreover have "advanced quits T s u" using tl eq by (intro advanced_refl) simp_all
  then have "advanced quits T s t" using advanced_trans t(3) by blast
  ultimately show ?thesis using t(2) on_time_tick [OF up o rel t(4)] by blast
qed

lemma ticks_run:
  assumes up: "catches_up A T c p x" and r: "in_run k A T p s rem" and o: "on_time A T c p x j rem (planned s)"
    and work: "\<forall>a i. 0 < work a i" "\<forall>a\<in>A. \<forall>i. work a i \<le> c a"
    and T: "\<forall>a\<in>A. j + n + T a < 2 ^ 64" and j: "j + n < 2 ^ 64"
  shows "\<exists>t rem'. rm_ticks k work quits j n (s, rem) = Some (t, rem') \<and> in_run k A T p t rem' \<and> advanced quits T s t \<and>
    on_time A T c p x (j + n) rem' (planned t)"
  using r o T j
proof (induction n arbitrary: j s rem)
  case 0
  then show ?case using advanced_refl [of s s] by simp
next
  case (Suc n)
  have T: "\<forall>a\<in>A. j + T a < 2 ^ 64" "\<forall>a\<in>A. Suc j + n + T a < 2 ^ 64" and j: "Suc j < 2 ^ 64" "Suc j + n < 2 ^ 64"
    using Suc.prems(3,4) by auto
  obtain t rem1 where t: "rm_tick k work quits j (s, rem) = Some (t, rem1)" "in_run k A T p t rem1" "advanced quits T s t"
      "on_time A T c p x (Suc j) rem1 (planned t)"
    using tick_runs [OF up Suc.prems(1,2) work T(1) j(1)] by blast
  obtain u rem2 where u: "rm_ticks k work quits (Suc j) n (t, rem1) = Some (u, rem2)" "in_run k A T p u rem2" "advanced quits T t u"
      "on_time A T c p x (Suc j + n) rem2 (planned u)"
    using Suc.IH [OF t(2,4) T(2) j(2)] by blast
  show ?case using t(1) u(1,2,4) advanced_trans [OF t(3) u(3)] by (intro exI [of _ u] exI [of _ rem2]) simp
qed

end
