(* ===== verification/Mp2_Schedule_Props.thy ===== *)
theory Mp2_Schedule_Props
  imports Mp2_Wakeup_Props Mp2_Ticks
begin

text \<open>
  What admission control is for: the tasks it admits, dispatched by the module in the order of their periods, meet their deadlines.
\<close>

section \<open>Admitted tasks\<close>

text \<open>Every task of the module has yielded for the first time and sleeps until its first release, not before \<open>j\<close>.\<close>

definition launched :: "nat \<Rightarrow> mp2_state \<Rightarrow> bool" where
  "launched j s \<longleftrightarrow> \<not> tl_lock s \<and> dispatcher s \<and> ct s = None \<and>
     (\<forall>a\<in>set (task_list s). linux_task (task_at s a) \<noteq> None \<and> next_ddl (task_at s a) \<noteq> 0 \<and>
       state (task_at s a) = SLEEPING \<and> expires (timer (task_at s a)) = Some (next_ddl (task_at s a)) \<and> j \<le> release s a)"

text \<open>The computing time that is declared, in jiffies, rounded down.\<close>

definition budget :: "mp2_kernel \<Rightarrow> mp2_task_struct \<Rightarrow> nat" where
  "budget k t = unat (proc_time t) * period_jiffies k t div unat (period t)"

lemma budget_bound:
  assumes "period t \<noteq> 0" "w * unat (period t) \<le> unat (proc_time t) * period_jiffies k t"
  shows "w \<le> budget k t"
  using assms by (simp add: budget_def less_eq_div_iff_mult_less_eq unat_gt_0)

lemma share_le:
  fixes b c :: nat
  assumes "b * p \<le> c * t" "0 < t" "0 < p"
  shows "real b / real t \<le> real c / real p"
proof -
  have "real b * real p \<le> real c * real t" using assms(1) by (simp only: of_nat_mult [symmetric] of_nat_le_iff)
  then show ?thesis using assms(2,3) by (simp add: field_simps)
qed

lemma budget_share:
  assumes "0 < period_jiffies k t" "period t \<noteq> 0"
  shows "real (budget k t) / real (period_jiffies k t) \<le> real (unat (proc_time t)) / real (unat (period t))"
  by (rule share_le) (use assms in \<open>simp_all add: budget_def div_times_less_eq_dividend unat_gt_0\<close>)

lemma admitted_share:
  assumes inv: "mp2_inv s" and "length (task_list s) \<le> 154" "\<forall>t\<in>set (tasks s). unat (proc_time t) < 2 ^ 44"
    and "\<forall>t\<in>set (tasks s). 0 < period_jiffies k t" "H \<subseteq> set (task_list s)"
  shows "(\<Sum>a\<in>H. real (budget k (task_at s a)) / real (period_jiffies k (task_at s a))) \<le> 726817 / 2 ^ 20"
proof -
  let ?u = "\<lambda>t. real (unat (proc_time t)) / real (unat (period t))"
  have d: "distinct (task_list s)" using mp2_list_ok [OF inv] by (simp add: list_ok_def)
  have mem: "task_at s a \<in> set (tasks s)" if "a \<in> set (task_list s)" for a using that by (simp add: tasks_def)
  have "(\<Sum>a\<in>H. real (budget k (task_at s a)) / real (period_jiffies k (task_at s a))) \<le> (\<Sum>a\<in>H. ?u (task_at s a))"
  proof (rule sum_mono)
    fix a assume "a \<in> H"
    then have a: "a \<in> set (task_list s)" using assms(5) by blast
    then have "period (task_at s a) \<noteq> 0" using inv_task_ok [OF mp2_list_ok [OF inv]] by (simp add: task_ok_def)
    then show "real (budget k (task_at s a)) / real (period_jiffies k (task_at s a)) \<le> ?u (task_at s a)"
      using assms(4) mem [OF a] by (intro budget_share) simp_all
  qed
  also have "\<dots> \<le> (\<Sum>a\<in>set (task_list s). ?u (task_at s a))"
    by (intro sum_mono2 finite_set assms(5) divide_nonneg_nonneg of_nat_0_le_iff)
  also have "\<dots> = (\<Sum>t\<leftarrow>tasks s. ?u t)" using d by (simp add: tasks_def sum_list_distinct_conv_sum_set comp_def)
  also have "\<dots> = (\<Sum>t\<leftarrow>tasks s. real (unat (proc_time t)) * 2 ^ 20 / real (unat (period t))) / 2 ^ 20"
  proof -
    have "(\<Sum>t\<leftarrow>tasks s. real (unat (proc_time t)) * 2 ^ 20 / real (unat (period t))) = (\<Sum>t\<leftarrow>tasks s. ?u t) * 2 ^ 20"
      by (subst sum_list_mult_const [symmetric]) (simp add: mult.commute)
    then show ?thesis by simp
  qed
  also have "\<dots> \<le> (real (util_sum s) + real (length (tasks s))) / 2 ^ 20"
    using real_util_bound [OF assms(3)] by (intro divide_right_mono) (simp_all add: util_sum_def)
  also have "\<dots> \<le> 726817 / 2 ^ 20"
  proof -
    have "util_sum s < 726663" using inv by (simp add: inv_defs unat_MAX_UTIL)
    moreover have "length (tasks s) \<le> 154" using assms(2) by (simp add: tasks_def)
    ultimately show ?thesis by (intro divide_right_mono) simp_all
  qed
  finally show ?thesis .
qed

lemma launched_at_work:
  assumes "mp2_inv s" "launched j s"
  shows "at_work s (\<lambda>_. 0)"
  using assms by (auto simp: at_work_def launched_def unlocked_def attended_def view_at job_ok_def)

lemma admitted_catches_up:
  assumes inv: "mp2_inv s" and "length (task_list s) \<le> 154" "\<forall>t\<in>set (tasks s). unat (proc_time t) < 2 ^ 44"
    and pos: "\<forall>t\<in>set (tasks s). 0 < period_jiffies k t"
    and mono: "\<forall>t\<in>set (tasks s). \<forall>u\<in>set (tasks s). period t \<le> period u \<longrightarrow> period_jiffies k t \<le> period_jiffies k u"
  shows "\<exists>x. catches_up (set (task_list s)) (\<lambda>a. period_jiffies k (task_at s a)) (\<lambda>a. budget k (task_at s a))
    (\<lambda>a. period (task_at s a)) x"
proof -
  let ?T = "\<lambda>a. period_jiffies k (task_at s a)" and ?c = "\<lambda>a. budget k (task_at s a)"
  let ?H = "\<lambda>i. {a \<in> set (task_list s). period (task_at s a) \<le> period (task_at s i)}"
  have mem: "task_at s a \<in> set (tasks s)" if "a \<in> set (task_list s)" for a using that by (simp add: tasks_def)
  have "\<exists>t. 0 < t \<and> t \<le> ?T i \<and> demand ?T ?c (?H i) t \<le> t" if i: "i \<in> set (task_list s)" for i
  proof (rule utilisation_test)
    show "\<forall>a\<in>?H i. 0 < ?T a \<and> ?T a \<le> ?T i" using pos mono mem i by auto
    show "(\<Sum>a\<in>?H i. real (?c a) / real (?T a)) \<le> 726817 / 2 ^ 20"
      by (rule admitted_share [OF assms(1-4)]) auto
  qed (use i in auto)
  then have "\<forall>i\<in>set (task_list s). \<exists>t. 0 < t \<and> t \<le> ?T i \<and> demand ?T ?c (?H i) t \<le> t" by blast
  from bchoice [OF this] obtain x
    where "\<forall>i\<in>set (task_list s). 0 < x i \<and> x i \<le> ?T i \<and> demand ?T ?c (?H i) (x i) \<le> x i" by blast
  then show ?thesis by (intro exI [of _ x]) (simp add: catches_up_def)
qed

lemma admitted_run:
  assumes "reach mp2_start mp2_step s" "launched j s" "length (task_list s) \<le> 154"
    and "\<forall>t\<in>set (tasks s). unat (proc_time t) < 2 ^ 44 \<and> 0 < period_jiffies k t \<and> j + n + period_jiffies k t < 2 ^ 64"
    and "\<forall>t\<in>set (tasks s). \<forall>u\<in>set (tasks s). period t \<le> period u \<longrightarrow> period_jiffies k t \<le> period_jiffies k u"
    and "\<forall>a i. 0 < work a i" "j + n < 2 ^ 64"
    and "\<forall>a\<in>set (task_list s). \<forall>i. work a i * unat (period (task_at s a)) \<le>
      unat (proc_time (task_at s a)) * period_jiffies k (task_at s a)"
  obtains t rem where "rm_ticks k work quits j n (s, \<lambda>_. 0) = Some (t, rem)" "unlocked t"
    "advanced quits (\<lambda>a. period_jiffies k (task_at s a)) s t"
    "\<And>a. a \<in> set (task_list t) \<Longrightarrow> if rem a = 0 then j + n \<le> release t a
      else release t a < j + n \<and> j + n < release t a + period_jiffies k (task_at s a)"
proof -
  let ?A = "set (task_list s)" and ?T = "\<lambda>a. period_jiffies k (task_at s a)" and ?c = "\<lambda>a. budget k (task_at s a)"
  let ?p = "\<lambda>a. period (task_at s a)"
  have inv: "mp2_inv s" using mp2.reachable_inv [OF assms(1)] .
  obtain x where up: "catches_up ?A ?T ?c ?p x"
    using admitted_catches_up [OF inv assms(3) _ _ assms(5)] assms(4) by blast
  have mem: "task_at s a \<in> set (tasks s)" if "a \<in> ?A" for a using that by (simp add: tasks_def)
  have o: "on_time ?A ?T ?c ?p x j (\<lambda>_. 0) (planned s)"
    using assms(2) by (intro on_time_start [OF up]) (simp add: launched_def planned_def)
  have r: "in_run k ?A ?T ?p s (\<lambda>_. 0)"
    using launched_at_work [OF inv assms(2)] assms(2) by (simp add: in_run_def launched_def)
  have "?p a \<noteq> 0" if "a \<in> ?A" for a using inv_task_ok [OF mp2_list_ok [OF inv] that] by (simp add: task_ok_def)
  then have c: "\<forall>a\<in>?A. \<forall>i. work a i \<le> ?c a" using assms(8) budget_bound by blast
  have T: "\<forall>a\<in>?A. j + n + ?T a < 2 ^ 64" using assms(4) mem by blast
  obtain t rem where t: "rm_ticks k work quits j n (s, \<lambda>_. 0) = Some (t, rem)" "in_run k ?A ?T ?p t rem" "advanced quits ?T s t"
      "on_time ?A ?T ?c ?p x (j + n) rem (planned t)"
    using ticks_run [OF up r o assms(6) c T assms(7), of quits] by blast
  have "if rem a = 0 then j + n \<le> release t a else release t a < j + n \<and> j + n < release t a + ?T a" if "a \<in> set (task_list t)" for a
  proof -
    have A: "a \<in> ?A" and "planned t a = release t a" using advancedD(1) [OF t(3)] that by (auto simp: planned_def)
    moreover have "if rem a = 0 then j + n \<le> planned t a else planned t a < j + n" using t(4) A by (simp add: on_time_def)
    ultimately show ?thesis using on_time_deadline [OF up t(4) A] by (cases "rem a = 0") simp_all
  qed
  moreover have "unlocked t" using t(2) by (simp add: in_run_def at_work_def)
  ultimately show ?thesis using that [OF t(1) _ t(3)] by blast
qed








section \<open>Programs that end\<close>

text \<open>The job that is released at \<open>r\<close> is the last of the task's jobs.\<close>

definition last_job :: "mp2_kernel \<Rightarrow> mp2_state \<Rightarrow> (addr \<Rightarrow> nat) \<Rightarrow> addr \<Rightarrow> nat \<Rightarrow> bool" where
  "last_job k s jobs a r \<longleftrightarrow> r + period_jiffies k (task_at s a) = release s a + jobs a * period_jiffies k (task_at s a)"

text \<open>
  Whole programs. Admitted tasks that each run a given number of jobs, the last of which ends with the deregistration (for
  \<open>MP2/userapp.c\<close> one job more than the periods it is asked for: after its last yield it is released once
  more), all end in time: as soon as the periods of all their jobs have passed, the list is empty, no slab object is left, no task is current, no utility
  is taken and no lock is held, so that the module admits again what it admitted when it was loaded.
\<close>

theorem admitted_programs_complete:
  assumes "reach mp2_start mp2_step s" "launched j s" "length (task_list s) \<le> 154"
    and "\<forall>t\<in>set (tasks s). unat (proc_time t) < 2 ^ 44 \<and> 0 < period_jiffies k t \<and> j + n + period_jiffies k t < 2 ^ 64"
    and "\<forall>t\<in>set (tasks s). \<forall>u\<in>set (tasks s). period t \<le> period u \<longrightarrow> period_jiffies k t \<le> period_jiffies k u"
    and "\<forall>a i. 0 < work a i" "j + n < 2 ^ 64"
    and "\<forall>a\<in>set (task_list s). \<forall>i. work a i * unat (period (task_at s a)) \<le>
      unat (proc_time (task_at s a)) * period_jiffies k (task_at s a)"
    and "\<forall>a\<in>set (task_list s). 0 < jobs a \<and> release s a + jobs a * period_jiffies k (task_at s a) \<le> j + n"
  shows "\<exists>t rem. rm_ticks k work (last_job k s jobs) j n (s, \<lambda>_. 0) = Some (t, rem) \<and> task_list t = [] \<and> slab t = Map.empty \<and> ct t = None \<and> total_util t = 0 \<and> \<not> tl_lock t"
proof -
  let ?T = "\<lambda>a. period_jiffies k (task_at s a)"
  let ?quits = "last_job k s jobs"
  obtain t rem where t: "rm_ticks k work ?quits j n (s, \<lambda>_. 0) = Some (t, rem)" "unlocked t" "advanced ?quits ?T s t"
    "\<And>a. a \<in> set (task_list t) \<Longrightarrow> if rem a = 0 then j + n \<le> release t a else release t a < j + n \<and> j + n < release t a + ?T a"
    using admitted_run [OF assms(1-8), of ?quits] by blast
  have "a \<notin> set (task_list t)" for a
  proof
    assume a: "a \<in> set (task_list t)"
    then have A: "a \<in> set (task_list s)" using advancedD(1) [OF t(3)] by blast
    obtain m where m: "release t a = release s a + m * ?T a" "\<forall>i<m. \<not> ?quits a (release s a + i * ?T a)"
      using advancedD(2) [OF t(3) a] by blast
    have jobs: "0 < jobs a" "release s a + jobs a * ?T a \<le> j + n" using bspec [OF assms(9) A] by simp_all
    have last: "?quits a (release s a + (jobs a - 1) * ?T a)" using jobs(1) by (cases "jobs a") (simp_all add: last_job_def)
    have "m < jobs a"
    proof (rule ccontr)
      assume "\<not> m < jobs a"
      then have "jobs a - 1 < m" using jobs(1) by simp
      then show False using m(2) last by blast
    qed
    then have "Suc m * ?T a \<le> jobs a * ?T a" by (intro mult_le_mono1) simp
    then have "release t a + ?T a \<le> j + n" using m(1) jobs(2) by simp
    moreover have "0 < ?T a" using assms(4) A by (simp add: tasks_def)
    ultimately show False using t(4) [OF a] by (simp split: if_splits)
  qed
  then have list: "task_list t = []" by (cases "task_list t") auto
  have inv: "mp2_inv t" using unlockedD(1) [OF t(2)] .
  have "slab t = Map.empty" "ct t = None" "unat (total_util t) = 0"
    using inv list by (auto simp: inv_defs view_defs)
  moreover from this(3) have "total_util t = 0" by (simp add: unat_eq_0)
  ultimately show ?thesis using t(1) list unlockedD(2) [OF t(2)] by blast
qed

end
