(* ===== verification/Mp2_Experiment.thy ===== *)
theory Mp2_Experiment
  imports Mp2_Schedule_Props
begin

text \<open>
  A whole experiment on the scheduler: the module is loaded, programs register and make their first yield, run until
  each has done its jobs and deregistered, and the module is unloaded.
\<close>

section \<open>The entries of the module\<close>

definition own_entries :: "mp2_state \<Rightarrow> bool" where
  "own_entries s \<longleftrightarrow> proc_entries s = [''mp2'', ''mp2/status'']"

lemma command_entries: "run_command k cmd s = Inr (r, t) \<Longrightarrow> proc_entries t = proc_entries s"
  by (cases cmd)
    (auto simp: run_command_def Task_register_def register_check_def register_admit_def insert_defs Task_yeild_def
      yeild_task_at_def Task_deregister_def deregister_task_at_def drop_current_def lock_defs access_defs result_simps Let_def
      split: if_splits option.splits)

lemma switch_entries: "dispatch_switch h s = Inr t \<Longrightarrow> proc_entries t = proc_entries s"
  by (auto simp: dispatch_switch_def result_simps preempt_Inr run_task_Inr lock_defs split: option.splits if_splits)

lemma step_entries: "mp2_step s t \<Longrightarrow> proc_entries t = proc_entries s"
proof (induction rule: mp2_step.induct)
  case (step_write k s data n t)
  then show ?case by (auto simp: mp2_write_def result_simps command_entries)
next
  case (step_read count s buf t)
  then show ?case by (auto simp: mp2_read_def result_simps lock_defs Let_def split: if_splits)
next
  case (step_timer a s t)
  then show ?case
    by (auto simp: fire_timer_def mp2_timer_callback_def result_simps put_task_def wake_dispatcher_def Let_def split: if_splits)
next
  case (step_dispatch s t)
  then obtain h u where "Task_get_highest (s\<lparr>woken := False\<rparr>) = Inr (h, u)" "dispatch_switch h u = Inr t"
    by (auto simp: dispatch_body_def result_simps)
  then show ?case using switch_entries [of h u t] by (auto simp: Task_get_highest_def lock_defs result_simps split: if_splits)
qed

interpretation entries: inductive_invariant mp2_start mp2_step own_entries
  by unfold_locales
    (auto simp: own_entries_def step_entries mp2_start_def mp2_init_def mp2_static_def Task_init_def)

section \<open>Programs\<close>

text \<open>A program by the slab object its task gets, its pid, its period and its processing time.\<close>

record rm_program =
  p_object :: addr
  p_pid :: u32
  p_period :: u32
  p_time :: u32

definition task_of :: "mp2_kernel \<Rightarrow> rm_program \<Rightarrow> mp2_task_struct" where
  "task_of k q = new_task (pid_task k (p_pid q)) (p_pid q) (ucast (p_period q)) (ucast (p_time q))"

definition jiffies_of :: "mp2_kernel \<Rightarrow> rm_program \<Rightarrow> nat" where
  "jiffies_of k q = unat (msecs_to_jiffies k (p_period q))"

text \<open>The lines the programs write to the status file: all registrations, then all first yields.\<close>

definition registration :: "mp2_kernel \<Rightarrow> u64 \<Rightarrow> rm_program \<Rightarrow> mp2_action" where
  "registration k j q =
     Write (k\<lparr>jiffies := j, slab_object := Some (p_object q)\<rparr>) (register_line (p_pid q) (p_period q) (p_time q) @ [newline])"

definition first_yield :: "mp2_kernel \<Rightarrow> u64 \<Rightarrow> rm_program \<Rightarrow> mp2_action" where
  "first_yield k j q = Write (at_time k j) (yield_line (p_pid q) @ [newline])"

definition start_lines :: "mp2_kernel \<Rightarrow> u64 \<Rightarrow> rm_program list \<Rightarrow> mp2_action list" where
  "start_lines k j qs = map (registration k j) qs @ map (first_yield k j) qs"

definition ready_to_go :: "mp2_state \<Rightarrow> bool" where
  "ready_to_go s \<longleftrightarrow> unlocked s \<and> dispatcher s \<and> ct s = None"

lemma task_of_fields [simp]:
  "pid (task_of k q) = p_pid q" "period (task_of k q) = ucast (p_period q)" "proc_time (task_of k q) = ucast (p_time q)"
  "linux_task (task_of k q) = pid_task k (p_pid q)" "next_ddl (task_of k q) = 0"
  by (simp_all add: task_of_def new_task_def)

section \<open>Registrations\<close>

lemma registration_runs:
  assumes s: "ready_to_go s" and q: "p_object q \<notin> set (task_list s)" "p_pid q \<notin> set (pids s)" "p_period q \<noteq> 0"
    and util: "util_sum s + util_of (task_of k q) < 726663"
  defines "t \<equiv> registered (p_object q) (task_of k q) s"
  shows "run_action (registration k j q) s = Some t" "ready_to_go t" "task_list t = task_list s @ [p_object q]"
    "pids t = pids s @ [p_pid q]" "util_sum t = util_sum s + util_of (task_of k q)"
    "task_at t a = (if a = p_object q then task_of k q else task_at s a)"
proof -
  have un: "unlocked s" using s by (simp add: ready_to_go_def)
  note u = unlockedD [OF un]
  have free: "slab s (p_object q) = None" using u(3) q(1) by (auto simp: list_ok_def)
  have per: "(ucast (p_period q) :: u64) \<noteq> 0" using q(3) u64_of_u32_eq [of "p_period q" 0] by simp
  have "unat (total_util s) = util_sum s" "unat (total_util s) < 2 ^ 20" using u(1) by (simp_all add: inv_defs unat_MAX_UTIL)
  then have "unat (total_util s + task_util (ucast (p_time q)) (ucast (p_period q))) = util_sum s + util_of (task_of k q)"
    using admission_sum_exact [of "total_util s"] by (simp add: util_of_def)
  then have fits: "\<not> MAX_UTIL \<le> total_util s + task_util (ucast (p_time q)) (ucast (p_period q))"
    using util by (simp add: word_le_nat_alt unat_MAX_UTIL)
  show "run_action (registration k j q) s = Some t"
    using q(2) per fits free u
    by (simp add: registration_def t_def task_of_def fresh_object_def mp2_write_def parse_lines run_command_def returned_def
        Task_register_eq)
  have "unlocked t" using unlocked_registered [OF un free q(2) per fits] by (simp add: t_def task_of_def)
  then show "ready_to_go t" using s by (simp add: ready_to_go_def t_def registered_def)
  show "task_list t = task_list s @ [p_object q]" by (simp add: t_def registered_def)
  show "pids t = pids s @ [p_pid q]" using registered_pids [OF u(3) free] by (simp add: t_def)
  show at: "task_at t a = (if a = p_object q then task_of k q else task_at s a)" for a
    by (simp add: t_def registered_def task_at_def)
  have "map (task_at t) (task_list s) = map (task_at s) (task_list s)" using q(1) at by (intro map_cong) auto
  then show "util_sum t = util_sum s + util_of (task_of k q)"
    using at [of "p_object q"] by (simp add: util_sum_def tasks_def t_def registered_def del: map_eq_conv)
qed

lemma registrations_run:
  assumes "ready_to_go s" "distinct (map p_object qs)" "distinct (map p_pid qs)"
    and "\<forall>q\<in>set qs. p_object q \<notin> set (task_list s) \<and> p_pid q \<notin> set (pids s) \<and> p_period q \<noteq> 0"
    and "util_sum s + (\<Sum>q\<leftarrow>qs. util_of (task_of k q)) < 726663"
  shows "\<exists>t. run_schedule (map (registration k j) qs) s = Some t \<and> ready_to_go t \<and> task_list t = task_list s @ map p_object qs \<and>
    (\<forall>a\<in>set (task_list s). task_at t a = task_at s a) \<and> (\<forall>q\<in>set qs. task_at t (p_object q) = task_of k q)"
  using assms
proof (induction qs arbitrary: s)
  case (Cons q qs)
  have q: "p_object q \<notin> set (task_list s)" "p_pid q \<notin> set (pids s)" "p_period q \<noteq> 0"
      "util_sum s + util_of (task_of k q) < 726663"
    using Cons.prems(4,5) by simp_all
  define u where "u = registered (p_object q) (task_of k q) s"
  note r = registration_runs [OF Cons.prems(1) q, folded u_def]
  have "\<forall>r\<in>set qs. p_object r \<notin> set (task_list u) \<and> p_pid r \<notin> set (pids u) \<and> p_period r \<noteq> 0"
    using Cons.prems(2-4) r(3,4) by (auto simp: image_iff)
  moreover have "util_sum u + (\<Sum>q\<leftarrow>qs. util_of (task_of k q)) < 726663" using Cons.prems(5) r(5) by simp
  ultimately obtain t where t: "run_schedule (map (registration k j) qs) u = Some t" "ready_to_go t"
      "task_list t = task_list u @ map p_object qs" "\<forall>a\<in>set (task_list u). task_at t a = task_at u a"
      "\<forall>q\<in>set qs. task_at t (p_object q) = task_of k q"
    using Cons.IH [OF r(2)] Cons.prems(2,3) by auto
  have "task_at t a = task_at s a" if "a \<in> set (task_list s)" for a using t(4) r(3,6) that q(1) by auto
  moreover have "task_at t (p_object q) = task_of k q" using t(4) r(3,6) by simp
  ultimately show ?case using r(1,3) t by (intro exI [of _ t]) simp
qed simp

section \<open>First yields\<close>

lemma first_yield_runs:
  fixes k :: mp2_kernel and j :: u64
  assumes s: "ready_to_go s" and q: "p_object q \<in> set (task_list s)" "pid (task_at s (p_object q)) = p_pid q"
    "linux_task (task_at s (p_object q)) = Some kt" "next_ddl (task_at s (p_object q)) = 0"
  defines "t \<equiv> yielded (msecs_to_jiffies k) j (p_object q) kt s"
  shows "run_action (first_yield k j q) s = Some t" "ready_to_go t" "task_list t = task_list s"
    "task_at t a = (if a = p_object q then slept (msecs_to_jiffies k) j (task_at s (p_object q)) else task_at s a)"
proof -
  have un: "unlocked s" using s by (simp add: ready_to_go_def)
  have "\<not> missed (msecs_to_jiffies k) j (task_at s (p_object q))" using q(4) by (simp add: missed_def)
  note y = yield_yielded [OF un q(1-3) this]
  show "run_action (first_yield k j q) s = Some t" unfolding first_yield_def t_def by (rule write_yield [OF y(1)])
  show "ready_to_go t" using y(2) s by (simp add: ready_to_go_def t_def yielded_def)
  show "task_list t = task_list s"
    "task_at t a = (if a = p_object q then slept (msecs_to_jiffies k) j (task_at s (p_object q)) else task_at s a)"
    by (simp_all add: t_def yielded_def task_at_def)
qed

lemma first_yields_run:
  assumes "ready_to_go s" "distinct (map p_object qs)"
    and "\<forall>q\<in>set qs. p_object q \<in> set (task_list s) \<and> task_at s (p_object q) = task_of k q \<and> pid_task k (p_pid q) \<noteq> None"
  shows "\<exists>t. run_schedule (map (first_yield k j) qs) s = Some t \<and> ready_to_go t \<and> task_list t = task_list s \<and>
    (\<forall>q\<in>set qs. task_at t (p_object q) = slept (msecs_to_jiffies k) j (task_of k q)) \<and>
    (\<forall>a. a \<notin> p_object ` set qs \<longrightarrow> task_at t a = task_at s a)"
  using assms
proof (induction qs arbitrary: s)
  case (Cons q qs)
  obtain kt where q: "p_object q \<in> set (task_list s)" "task_at s (p_object q) = task_of k q" "pid_task k (p_pid q) = Some kt"
    using Cons.prems(3) by auto
  then have q': "pid (task_at s (p_object q)) = p_pid q" "linux_task (task_at s (p_object q)) = Some kt"
      "next_ddl (task_at s (p_object q)) = 0"
    by simp_all
  define u where "u = yielded (msecs_to_jiffies k) j (p_object q) kt s"
  note y = first_yield_runs [OF Cons.prems(1) q(1) q', where k = k and j = j, folded u_def]
  have "\<forall>r\<in>set qs. p_object r \<in> set (task_list u) \<and> task_at u (p_object r) = task_of k r \<and> pid_task k (p_pid r) \<noteq> None"
    using Cons.prems(2,3) y(3,4) by (auto simp: image_iff)
  then obtain t where t: "run_schedule (map (first_yield k j) qs) u = Some t" "ready_to_go t" "task_list t = task_list u"
      "\<forall>q\<in>set qs. task_at t (p_object q) = slept (msecs_to_jiffies k) j (task_of k q)"
      "\<forall>a. a \<notin> p_object ` set qs \<longrightarrow> task_at t a = task_at u a"
    using Cons.IH [OF y(2)] Cons.prems(2) by auto
  have "task_at t (p_object q) = slept (msecs_to_jiffies k) j (task_of k q)"
    using t(5) y(4) q(2) Cons.prems(2) by simp
  then show ?case using y(1,3,4) t by (intro exI [of _ t]) simp
qed simp

section \<open>From loading to unloading\<close>

text \<open>All programs are admitted, and each has made its first yield.\<close>

lemma programs_start:
  assumes "distinct (map p_object qs)" "distinct (map p_pid qs)"
    and "(\<Sum>q\<leftarrow>qs. unat (p_time q) * 2 ^ 20 div unat (p_period q)) < 726663"
    and "\<forall>q\<in>set qs. p_period q \<noteq> 0 \<and> pid_task k (p_pid q) \<noteq> None"
  shows "\<exists>s. run_schedule (start_lines k j qs) loaded = Some s \<and> ready_to_go s \<and> task_list s = map p_object qs \<and>
    (\<forall>q\<in>set qs. task_at s (p_object q) = slept (msecs_to_jiffies k) j (task_of k q))"
proof -
  have start: "ready_to_go loaded" "task_list loaded = []" "pids loaded = []" "util_sum loaded = 0"
    using loaded_unlocked by (simp_all add: ready_to_go_def loaded_def mp2_init_def mp2_static_def Task_init_def view_defs)
  have "util_of (task_of k q) = unat (p_time q) * 2 ^ 20 div unat (p_period q)" for q
    using unsigned_less [of "p_time q", where ?'a = nat] by (simp add: util_of_def unat_task_util_small)
  then have util: "util_sum loaded + (\<Sum>q\<leftarrow>qs. util_of (task_of k q)) < 726663" using assms(3) start(4) by simp
  have new: "\<forall>q\<in>set qs. p_object q \<notin> set (task_list loaded) \<and> p_pid q \<notin> set (pids loaded) \<and> p_period q \<noteq> 0"
    using assms(4) start by simp
  obtain r where r: "run_schedule (map (registration k j) qs) loaded = Some r" "ready_to_go r" "task_list r = map p_object qs"
      "\<forall>q\<in>set qs. task_at r (p_object q) = task_of k q"
    using registrations_run [OF start(1) assms(1,2) new util] start(2) by auto
  have listed: "\<forall>q\<in>set qs. p_object q \<in> set (task_list r) \<and> task_at r (p_object q) = task_of k q \<and> pid_task k (p_pid q) \<noteq> None"
    using r(3,4) assms(4) by auto
  obtain s where s: "run_schedule (map (first_yield k j) qs) r = Some s" "ready_to_go s" "task_list s = map p_object qs"
      "\<forall>q\<in>set qs. task_at s (p_object q) = slept (msecs_to_jiffies k) j (task_of k q)"
    using first_yields_run [OF r(2) assms(1) listed, of j] r(3) by auto
  have "run_schedule (start_lines k j qs) loaded = Some s"
    by (simp add: start_lines_def run_schedule_append r(1) s(1))
  then show ?thesis using s(2-4) by blast
qed

lemma launched_start:
  assumes s: "ready_to_go s" and list: "task_list s = map p_object qs"
    and at: "\<forall>q\<in>set qs. task_at s (p_object q) = slept (msecs_to_jiffies k) (of_nat j) (task_of k q)"
    and k: "\<forall>q\<in>set qs. pid_task k (p_pid q) \<noteq> None \<and> 0 < jiffies_of k q \<and> j + jiffies_of k q < 2 ^ 64"
  shows "launched j s" "\<forall>q\<in>set qs. release s (p_object q) = j + jiffies_of k q \<and>
    period_jiffies k (task_at s (p_object q)) = jiffies_of k q \<and> period (task_at s (p_object q)) = ucast (p_period q) \<and>
    proc_time (task_at s (p_object q)) = ucast (p_time q)"
proof -
  have narrow: "(ucast (ucast w :: u64) :: u32) = w" for w by (rule bit_word_eqI) (auto simp: bit_simps)
  have ddl: "unat (of_nat j + msecs_to_jiffies k (p_period q)) = j + jiffies_of k q" if "q \<in> set qs" for q
  proof -
    have bound: "j + jiffies_of k q < 2 ^ 64" using k that by blast
    then have "unat (of_nat j :: u64) = j" by (simp add: unsigned_of_nat take_bit_nat_eq_self)
    then show ?thesis using bound
      by (subst unat_add_lem [THEN iffD1]) (simp_all add: jiffies_of_def)
  qed
  show r: "\<forall>q\<in>set qs. release s (p_object q) = j + jiffies_of k q \<and>
    period_jiffies k (task_at s (p_object q)) = jiffies_of k q \<and> period (task_at s (p_object q)) = ucast (p_period q) \<and>
    proc_time (task_at s (p_object q)) = ucast (p_time q)"
    using at ddl by (simp add: release_def slept_def next_deadline_def narrow period_jiffies_def jiffies_of_def)
  have nz: "next_ddl (task_at s (p_object q)) \<noteq> 0" if "q \<in> set qs" for q
  proof
    assume "next_ddl (task_at s (p_object q)) = 0"
    then have "release s (p_object q) = 0" by (simp add: release_def)
    moreover have "release s (p_object q) = j + jiffies_of k q" "0 < jiffies_of k q" using r k that by blast+
    ultimately show False by simp
  qed
  have "\<not> tl_lock s" using s unlockedD(2) by (simp add: ready_to_go_def)
  then show "launched j s"
    using s nz r at k unfolding launched_def list ready_to_go_def by (auto simp: slept_def)
qed

text \<open>
  C4: A whole experiment. The module is loaded; any number of programs up to 154, with distinct pids, register with periods and
  processing times whose utilities (in units of \<open>1 / 2 ^ 20\<close>, rounded down) stay below the limit, and make their first yield. Then
  time goes by: timers fire when they are due, the dispatching thread runs when it is woken, the current task computes, and a program
  whose job is done writes its yield, or its deregistration after the last of its jobs. If no job takes more than its program declared, all
  registrations are admitted, no yield is ever late, every program ends within the periods of its jobs, with the list empty and
  the utility given back, and the module can then be unloaded without leaving an object or an entry.
\<close>

theorem experiment_completes:
  assumes "distinct (map p_object qs)" "distinct (map p_pid qs)" "length qs \<le> 154"
    and "(\<Sum>q\<leftarrow>qs. unat (p_time q) * 2 ^ 20 div unat (p_period q)) < 726663"
    and "\<forall>q\<in>set qs. p_period q \<noteq> 0 \<and> pid_task k (p_pid q) \<noteq> None \<and> 0 < jiffies_of k q \<and> j + n + jiffies_of k q < 2 ^ 64"
    and "\<forall>q\<in>set qs. \<forall>r\<in>set qs. p_period q \<le> p_period r \<longrightarrow> jiffies_of k q \<le> jiffies_of k r"
    and "\<forall>a i. 0 < work a i" "j + n < 2 ^ 64"
    and "\<forall>q\<in>set qs. \<forall>i. work (p_object q) i * unat (p_period q) \<le> unat (p_time q) * jiffies_of k q"
    and "\<forall>q\<in>set qs. 0 < jobs (p_object q) \<and> (1 + jobs (p_object q)) * jiffies_of k q \<le> n"
  shows "\<exists>s t rem u. run_schedule (start_lines k (of_nat j) qs) loaded = Some s \<and> task_list s = map p_object qs \<and>
    rm_ticks k work (last_job k s jobs) j n (s, \<lambda>_. 0) = Some (t, rem) \<and> task_list t = [] \<and> total_util t = 0 \<and>
    mp2_exit t = Inr u \<and> slab u = Map.empty \<and> proc_entries u = []"
proof -
  obtain s where s: "run_schedule (start_lines k (of_nat j) qs) loaded = Some s" "ready_to_go s" "task_list s = map p_object qs"
      "\<forall>q\<in>set qs. task_at s (p_object q) = slept (msecs_to_jiffies k) (of_nat j) (task_of k q)"
    using programs_start [OF assms(1,2,4), of k "of_nat j"] assms(5) by blast
  have reach: "reach mp2_start mp2_step s"
    using run_schedule_reach [OF loaded_reach] s(1) by (simp add: loaded_def)
  have "\<forall>q\<in>set qs. pid_task k (p_pid q) \<noteq> None \<and> 0 < jiffies_of k q \<and> j + jiffies_of k q < 2 ^ 64"
    using assms(5) by auto
  note l = launched_start [OF s(2-4) this]
  have at: "\<exists>q\<in>set qs. a = p_object q" if "a \<in> set (task_list s)" for a using that s(3) by auto
  have time: "unat (p_time q) < 2 ^ 44" for q using unsigned_less [of "p_time q", where ?'a = nat] by simp
  have bounds: "\<forall>t\<in>set (tasks s). unat (proc_time t) < 2 ^ 44 \<and> 0 < period_jiffies k t \<and> j + n + period_jiffies k t < 2 ^ 64"
    using l(2) assms(5) time s(3) by (auto simp: tasks_def)
  have mono: "\<forall>t\<in>set (tasks s). \<forall>u\<in>set (tasks s). period t \<le> period u \<longrightarrow> period_jiffies k t \<le> period_jiffies k u"
    using l(2) assms(6) s(3) by (auto simp: tasks_def word_le_nat_alt)
  have declared: "\<forall>a\<in>set (task_list s). \<forall>i. work a i * unat (period (task_at s a)) \<le> unat (proc_time (task_at s a)) * period_jiffies k (task_at s a)"
    using l(2) assms(9) at by fastforce
  have ends: "\<forall>a\<in>set (task_list s). 0 < jobs a \<and> release s a + jobs a * period_jiffies k (task_at s a) \<le> j + n"
    using l(2) assms(10) at by fastforce
  have len: "length (task_list s) \<le> 154" using s(3) assms(3) by simp
  obtain t rem where t: "rm_ticks k work (last_job k s jobs) j n (s, \<lambda>_. 0) = Some (t, rem)" "task_list t = []" "total_util t = 0"
      "\<not> tl_lock t"
    using admitted_programs_complete [OF reach l(1) len bounds mono assms(7,8) declared ends] by blast
  have reach': "reach mp2_start mp2_step t" using rm_ticks_reach [OF reach t(1)] .
  then have "unlocked t" using t(4) mp2.reachable_inv [OF reach'] by (simp add: unlocked_def)
  then obtain u where "mp2_exit t = Inr u" "slab u = (\<lambda>_. None)" "proc_entries u = []"
    using mp2_exit_clean [of t] t(2) entries.reachable_inv [OF reach'] by (auto simp: tasks_def own_entries_def)
  then show ?thesis using s(1,3) t by blast
qed

text \<open>Two programs of periods 100 and 50 milliseconds, with three and five jobs, in less than half a second.\<close>

definition two_programs :: "rm_program list" where
  "two_programs =
     [\<lparr>p_object = 1, p_pid = 7, p_period = 100, p_time = 30\<rparr>, \<lparr>p_object = 2, p_pid = 8, p_period = 50, p_time = 15\<rparr>]"

theorem experiment_completes_witness:
  "\<exists>s t rem u. run_schedule (start_lines (example_kernel 4 0) (of_nat 1000) two_programs) loaded = Some s \<and>
     rm_ticks (example_kernel 4 0) (\<lambda>a _. if a = 1 then 30 else 15) (last_job (example_kernel 4 0) s (\<lambda>a. 1 + 2 * a)) 1000 400 (s, \<lambda>_. 0) =
       Some (t, rem) \<and> task_list t = [] \<and> mp2_exit t = Inr u \<and> proc_entries u = []"
proof -
  let ?k = "example_kernel 4 0"
  have h: "distinct (map p_object two_programs)" "distinct (map p_pid two_programs)" "length two_programs \<le> 154"
    "(\<Sum>q\<leftarrow>two_programs. unat (p_time q) * 2 ^ 20 div unat (p_period q)) < 726663"
    "\<forall>q\<in>set two_programs. p_period q \<noteq> 0 \<and> pid_task ?k (p_pid q) \<noteq> None \<and> 0 < jiffies_of ?k q \<and> 1000 + 400 + jiffies_of ?k q < 2 ^ 64"
    "\<forall>q\<in>set two_programs. \<forall>r\<in>set two_programs. p_period q \<le> p_period r \<longrightarrow> jiffies_of ?k q \<le> jiffies_of ?k r"
    "\<forall>q\<in>set two_programs. \<forall>i. (if p_object q = 1 then 30 else 15) * unat (p_period q) \<le> unat (p_time q) * jiffies_of ?k q"
    "\<forall>q\<in>set two_programs. 0 < 1 + 2 * p_object q \<and> (1 + (1 + 2 * p_object q)) * jiffies_of ?k q \<le> 400"
    by (simp_all add: two_programs_def jiffies_of_def example_kernel_def)
  have w: "\<forall>a i. 0 < (if a = (1 :: addr) then 30 else 15 :: nat)" by simp
  show ?thesis using experiment_completes [OF h(1-6) w _ h(7,8)] by fastforce
qed

end
