(* ===== verification/Mp3_Profiler.thy ===== *)
theory Mp3_Profiler
  imports Registry CString "HOL-Library.Signed_Division"
begin

text \<open>
  The profiler core \<open>MP3/profiler.c\<close> with \<open>MP3/profiler.h\<close> and \<open>MP3/mp3_given.h\<close>: the list of
  profiled processes, the sample buffer shared with user space, and the delayed work that fills
  it.
\<close>

section \<open>Data\<close>

record mp3_task_struct =
  linux_task :: "addr option"
  pid :: u32
  last_jiffies :: u64
  utime :: u64
  stime :: u64
  maj_flt :: u64
  min_flt :: u64

text \<open>The counters of the kernel's own \<open>task_struct\<close>, read and zeroed by \<open>get_cpu_use\<close>.\<close>

record cpu_counters =
  k_min_flt :: u64
  k_maj_flt :: u64
  k_utime :: u64
  k_stime :: u64

definition zero_counters :: cpu_counters where
  "zero_counters = \<lparr>k_min_flt = 0, k_maj_flt = 0, k_utime = 0, k_stime = 0\<rparr>"

text \<open>
  What the kernel supplies to a call: the process of a pid, the clock, whether \<open>kmalloc\<close> gives a
  node, the bytes behind the write buffer and the old content of an uninitialised \<open>pid\<close>.
\<close>

record mp3_kernel =
  pid_task :: "u32 \<Rightarrow> addr option"
  jiffies :: u64
  node_ok :: bool
  beyond :: "char list"
  junk_pid :: u32

text \<open>
  The state: the kernel's counters by process address, the list behind \<open>tl\<close>, the spin lock, the
  sample buffer (\<open>None\<close> when it is not allocated) and its index, the work queue, whether its
  delayed work is queued (\<open>pending\<close>) and whether a queued work has been started and waits for the
  lock (\<open>running\<close>), the flag of the read handler, and what is registered with the kernel.
\<close>

record mp3_state =
  counters :: "addr \<Rightarrow> cpu_counters"
  tl :: "mp3_task_struct list"
  lock :: bool
  vmem_buf :: "(nat \<Rightarrow> u64) option"
  vmem_idx :: u64
  wq :: bool
  pending :: bool
  running :: bool
  read_finished :: bool
  proc_entries :: "string list"
  cdev :: bool

section \<open>Locks and work\<close>

definition spin_lock_mp3 :: "mp3_state \<Rightarrow> mp3_state result" where
  "spin_lock_mp3 s = (if lock s then Inl Deadlock else Inr (s\<lparr>lock := True\<rparr>))"

definition spin_unlock_mp3 :: "mp3_state \<Rightarrow> mp3_state" where
  "spin_unlock_mp3 s = s\<lparr>lock := False\<rparr>"

definition queue_delayed_work :: "mp3_state \<Rightarrow> mp3_state result" where
  "queue_delayed_work s = (if wq s then Inr (s\<lparr>pending := True\<rparr>) else Inl NullDeref)"

definition cancel_delayed_work :: "mp3_state \<Rightarrow> mp3_state" where
  "cancel_delayed_work s = s\<lparr>pending := False\<rparr>"

section \<open>The sample buffer\<close>

definition VMEM_SIZE :: nat where
  "VMEM_SIZE = 128 * 4 * 1024"

definition PID :: u64 where
  "PID = 0"

definition MINOR :: u64 where
  "MINOR = 1"

definition MAJOR :: u64 where
  "MAJOR = 2"

definition UTIL :: u64 where
  "UTIL = 3"

lemmas field_defs = PID_def MINOR_def MAJOR_def UTIL_def

definition vmem_store :: "u64 \<Rightarrow> u64 \<Rightarrow> mp3_state \<Rightarrow> mp3_state result" where
  "vmem_store i v s =
     (case vmem_buf s of
        None \<Rightarrow> Inl NullDeref
      | Some m \<Rightarrow>
          if unat i < VMEM_SIZE then Inr (s\<lparr>vmem_buf := Some (m(unat i := v))\<rparr>) else Inl BufferOverflow)"

text \<open>\<open>(long) util * 100 / 20\<close>: the product wraps at 64 bits, the quotient truncates towards zero.\<close>

definition util_percent :: "u64 \<Rightarrow> u64" where
  "util_percent util = word_of_int (sint (util * 100) sdiv 20)"

definition vmem_buf_push_next ::
    "u32 \<Rightarrow> u64 \<Rightarrow> u64 \<Rightarrow> u64 \<Rightarrow> u64 \<Rightarrow> mp3_state \<Rightarrow> mp3_state result" where
  "vmem_buf_push_next p minor major util sampled s =
     rbind (vmem_store (4 * vmem_idx s + PID) (scast p) s) (\<lambda>s.
     rbind (vmem_store (4 * vmem_idx s + MINOR) minor s) (\<lambda>s.
     rbind (vmem_store (4 * vmem_idx s + MAJOR) major s) (\<lambda>s.
     rbind (vmem_store (4 * vmem_idx s + UTIL) (util_percent util) s) (\<lambda>s.
     let s = s\<lparr>vmem_idx := vmem_idx s + 1\<rparr> in
     Inr (if of_nat VMEM_SIZE \<le> 4 * vmem_idx s then s\<lparr>vmem_idx := 0\<rparr> else s)))))"

section \<open>Counters\<close>

definition find_task_by_pid_mp3 :: "mp3_kernel \<Rightarrow> u32 \<Rightarrow> addr option" where
  "find_task_by_pid_mp3 k nr = pid_task k nr"

text \<open>\<open>None\<close> is the result \<open>-1\<close>, which leaves the four outputs alone.\<close>

definition get_cpu_use :: "mp3_kernel \<Rightarrow> u32 \<Rightarrow> mp3_state \<Rightarrow> (cpu_counters \<times> mp3_state) option" where
  "get_cpu_use k p s =
     (case find_task_by_pid_mp3 k p of
        None \<Rightarrow> None
      | Some a \<Rightarrow> Some (counters s a, s\<lparr>counters := (counters s)(a := zero_counters)\<rparr>))"

section \<open>Sampling\<close>

text \<open>
  The loop over the list; the first value is false when a process was not found, which leaves
  the rest of the list as it was.
\<close>

fun sample_loop ::
    "mp3_kernel \<Rightarrow> mp3_task_struct list \<Rightarrow> mp3_state \<Rightarrow> (bool \<times> mp3_task_struct list \<times> mp3_state) result" where
  "sample_loop k [] s = Inr (True, [], s)"
| "sample_loop k (itr # ts) s =
     (case get_cpu_use k (pid itr) s of
        None \<Rightarrow> Inr (False, itr # ts, s)
      | Some (c, s) \<Rightarrow>
          rbind (vmem_buf_push_next (pid itr) (k_min_flt c) (k_maj_flt c) (k_utime c + k_stime c)
                   (last_jiffies itr) s) (\<lambda>s.
          rbind (sample_loop k ts s) (\<lambda>(done, ts', s).
          Inr (done, itr\<lparr>min_flt := k_min_flt c, maj_flt := k_maj_flt c, utime := k_utime c,
                         stime := k_stime c, last_jiffies := jiffies k\<rparr> # ts', s))))"

text \<open>The failing branch returns without unlocking and without queueing the next run.\<close>

definition wq_handler :: "mp3_kernel \<Rightarrow> mp3_state \<Rightarrow> mp3_state result" where
  "wq_handler k s =
     rbind (spin_lock_mp3 s) (\<lambda>s.
     rbind (sample_loop k (tl s) s) (\<lambda>(done, ts, s).
     let s = s\<lparr>tl := ts\<rparr> in
     if \<not> done then Inr s else queue_delayed_work (spin_unlock_mp3 s)))"

text \<open>
  The work queue's side: a started work runs the handler, which waits for the lock first;
  flushing waits for the started work to end.
\<close>

definition run_work :: "mp3_kernel \<Rightarrow> mp3_state \<Rightarrow> mp3_state result" where
  "run_work k s = wq_handler k (s\<lparr>running := False\<rparr>)"

definition flush_workqueue :: "mp3_kernel \<Rightarrow> mp3_state \<Rightarrow> mp3_state result" where
  "flush_workqueue k s = (if running s then run_work k s else Inr s)"

section \<open>Registration\<close>

definition new_mp3_task :: "mp3_kernel \<Rightarrow> u32 \<Rightarrow> mp3_task_struct" where
  "new_mp3_task k p = \<lparr>linux_task = find_task_by_pid_mp3 k p, pid = p, last_jiffies = jiffies k,
     utime = 0, stime = 0, maj_flt = 0, min_flt = 0\<rparr>"

text \<open>The two halves of \<open>Task_register\<close>: the search without the lock and the critical section.\<close>

definition register_known :: "u32 \<Rightarrow> mp3_state \<Rightarrow> bool" where
  "register_known p s \<longleftrightarrow> (\<exists>itr\<in>set (tl s). pid itr = p)"

definition register_link :: "mp3_task_struct \<Rightarrow> mp3_state \<Rightarrow> mp3_state result" where
  "register_link t s =
     rbind (spin_lock_mp3 s) (\<lambda>s.
     rbind (if tl s = [] then queue_delayed_work s else Inr s) (\<lambda>s.
     Inr (spin_unlock_mp3 (s\<lparr>tl := tl s @ [t]\<rparr>))))"

definition Task_register_mp3 :: "mp3_kernel \<Rightarrow> u32 \<Rightarrow> mp3_state \<Rightarrow> (int \<times> mp3_state) result" where
  "Task_register_mp3 k p s =
     (if register_known p s then Inr (-1, s)
      else if \<not> node_ok k then Inl NullDeref
      else rbind (register_link (new_mp3_task k p) s) (\<lambda>s. Inr (0, s)))"

fun remove_pid :: "u32 \<Rightarrow> mp3_task_struct list \<Rightarrow> mp3_task_struct list option" where
  "remove_pid p [] = None"
| "remove_pid p (itr # ts) = (if pid itr = p then Some ts else map_option ((#) itr) (remove_pid p ts))"

definition Task_deregister_mp3 :: "mp3_kernel \<Rightarrow> u32 \<Rightarrow> mp3_state \<Rightarrow> (int \<times> mp3_state) result" where
  "Task_deregister_mp3 k p s =
     rbind (spin_lock_mp3 s) (\<lambda>s.
     case remove_pid p (tl s) of
       None \<Rightarrow> Inr (-1, spin_unlock_mp3 s)
     | Some ts \<Rightarrow>
         let s = s\<lparr>tl := ts\<rparr> in
         rbind (if ts = [] then flush_workqueue k (cancel_delayed_work s) else Inr s) (\<lambda>s.
         Inr (0, spin_unlock_mp3 s)))"

section \<open>Set-up and tear-down\<close>

definition TaskList_init :: "bool \<Rightarrow> mp3_state \<Rightarrow> mp3_state result" where
  "TaskList_init vmalloc_ok s =
     (if \<not> vmalloc_ok then Inl NullDeref
      else Inr (s\<lparr>tl := [], lock := False, vmem_buf := Some (\<lambda>_. 0), wq := True\<rparr>))"

definition TaskList_destroy :: "mp3_kernel \<Rightarrow> mp3_state \<Rightarrow> mp3_state result" where
  "TaskList_destroy k s =
     rbind (spin_lock_mp3 s) (\<lambda>s.
     rbind (flush_workqueue k (cancel_delayed_work (spin_unlock_mp3 (s\<lparr>tl := []\<rparr>)))) (\<lambda>s.
     Inr (s\<lparr>wq := False, vmem_buf := None\<rparr>)))"

end
