(* ===== verification/Mp3_Main.thy ===== *)
theory Mp3_Main
  imports Mp3_Profiler ProcFile
begin

text \<open>
  The outer half of the profiler module, \<open>MP3/mp3_main.c\<close>: the status file, the character device
  whose \<open>mmap\<close> hands the sample buffer to user space, loading and unloading, and the steps of
  the loaded module.
\<close>

section \<open>The status file\<close>

definition pid_line :: "mp3_task_struct \<Rightarrow> string" where
  "pid_line itr = show_d (pid itr) @ [newline]"

definition mp3_read :: "nat \<Rightarrow> mp3_state \<Rightarrow> (string \<times> mp3_state) result" where
  "mp3_read count s =
     (if read_finished s then Inr ([], s\<lparr>read_finished := False\<rparr>)
      else let s = s\<lparr>read_finished := True\<rparr> in
        rbind (spin_lock_mp3 s) (\<lambda>s.
        rbind (status_lines count (\<lambda>itr. Inr (pid_line itr)) [] (tl s)) (\<lambda>buf.
        Inr (buf, spin_unlock_mp3 s))))"

datatype mp3_command =
    Register u32
  | Unregister u32
  | Ignored

definition parse_command_mp3 :: "mp3_kernel \<Rightarrow> char list \<Rightarrow> mp3_command result" where
  "parse_command_mp3 k data =
     (case data of
        [] \<Rightarrow> Inl NullDeref
      | op # _ \<Rightarrow>
          let buf = Some (cstr (data @ beyond k)) in
          if op = CHR ''R'' then
            let (t1, buf) = strsep (CHR '' '') buf; (t2, buf) = strsep (CHR '' '') buf in
            rbind (scan_local t2 (junk_pid k)) (\<lambda>p. Inr (Register p))
          else if op = CHR ''U'' then
            let (t1, buf) = strsep (CHR '' '') buf; (t2, buf) = strsep (CHR '' '') buf in
            rbind (scan_local t2 (junk_pid k)) (\<lambda>p. Inr (Unregister p))
          else Inr Ignored)"

definition mp3_write :: "mp3_kernel \<Rightarrow> char list \<Rightarrow> mp3_state \<Rightarrow> (nat \<times> mp3_state) result" where
  "mp3_write k data s =
     rbind (parse_command_mp3 k data) (\<lambda>cmd.
     rbind (case cmd of
              Register p \<Rightarrow> Task_register_mp3 k p s
            | Unregister p \<Rightarrow> Task_deregister_mp3 k p s
            | Ignored \<Rightarrow> Inr (0, s)) (\<lambda>(ret, s).
     Inr (length data, s)))"

section \<open>The character device\<close>

definition PAGE_SIZE :: u64 where
  "PAGE_SIZE = 4096"

definition EAGAIN :: int where
  "EAGAIN = 11"

lemma mmap_size_less: "0 < len \<Longrightarrow> unat (if PAGE_SIZE < len then len - PAGE_SIZE else 0) < unat len"
  by (auto simp: PAGE_SIZE_def unat_gt_0 word_gt_0 unat_sub less_imp_le)

text \<open>
  \<open>vmalloc_to_pfn\<close> gives the page frame of an address and \<open>remap_pfn_range\<close> the result of mapping a
  frame at a user address; both are the kernel's. The list collects the mappings made.
\<close>

function mmap_loop ::
    "(u64 \<Rightarrow> u64) \<Rightarrow> (u64 \<Rightarrow> u64 \<Rightarrow> int) \<Rightarrow> u64 \<Rightarrow> u64 \<Rightarrow> u64 \<Rightarrow> (u64 \<times> u64) list \<Rightarrow>
     int \<times> (u64 \<times> u64) list" where
  "mmap_loop vmalloc_to_pfn remap_pfn_range start pos len maps =
     (if 0 < len then
        let page = vmalloc_to_pfn pos in
        if remap_pfn_range start page \<noteq> 0 then (- EAGAIN, maps)
        else mmap_loop vmalloc_to_pfn remap_pfn_range (start + PAGE_SIZE) (pos + PAGE_SIZE)
               (if PAGE_SIZE < len then len - PAGE_SIZE else 0) (maps @ [(start, page)])
      else (0, maps))"
  by pat_completeness auto

termination
  by (relation "measure (\<lambda>(f, g, start, pos, len, maps). unat len)") (use mmap_size_less in auto)

declare mmap_loop.simps [simp del]

record vm_area_struct =
  vm_start :: u64
  vm_end :: u64

definition cdev_mmap_callback ::
    "(u64 \<Rightarrow> u64) \<Rightarrow> (u64 \<Rightarrow> u64 \<Rightarrow> int) \<Rightarrow> u64 \<Rightarrow> vm_area_struct \<Rightarrow> int \<times> (u64 \<times> u64) list" where
  "cdev_mmap_callback vmalloc_to_pfn remap_pfn_range buf vma =
     mmap_loop vmalloc_to_pfn remap_pfn_range (vm_start vma) buf (vm_end vma - vm_start vma) []"

section \<open>Loading and unloading\<close>

definition mp3_static :: mp3_state where
  "mp3_static = \<lparr>counters = (\<lambda>_. zero_counters), tl = [], lock = False, vmem_buf = None, vmem_idx = 0,
     wq = False, pending = False, running = False, read_finished = False, proc_entries = [], cdev = False\<rparr>"

text \<open>\<open>ret\<close> is what \<open>alloc_chrdev_region\<close> returns; a failure leaves the status file behind.\<close>

definition mp3_init :: "int \<Rightarrow> bool \<Rightarrow> mp3_state \<Rightarrow> (int \<times> mp3_state) result" where
  "mp3_init ret vmalloc_ok s =
     (let s = s\<lparr>proc_entries := proc_entries s @ [''mp3'', ''mp3/status'']\<rparr> in
      if ret \<noteq> 0 then Inr (-1, s)
      else rbind (TaskList_init vmalloc_ok (s\<lparr>cdev := True\<rparr>)) (\<lambda>s. Inr (0, s)))"

definition mp3_exit :: "mp3_kernel \<Rightarrow> mp3_state \<Rightarrow> mp3_state result" where
  "mp3_exit k s =
     (let s = s\<lparr>proc_entries := removeAll ''mp3'' (removeAll ''mp3/status'' (proc_entries s))\<rparr> in
      rbind (TaskList_destroy k s) (\<lambda>s. Inr (s\<lparr>cdev := False\<rparr>)))"

section \<open>Steps of the loaded module\<close>

text \<open>
  Processes run (their counters change in any way), the delayed work's timer expires and its
  work is started, and a started work runs when it is its turn for the lock.
\<close>

definition start_work :: "mp3_state \<Rightarrow> mp3_state" where
  "start_work s = s\<lparr>pending := False, running := True\<rparr>"

text \<open>The kernel gives different processes different task structures.\<close>

definition honest :: "mp3_kernel \<Rightarrow> bool" where
  "honest k \<longleftrightarrow> (\<forall>p q a. pid_task k p = Some a \<and> pid_task k q = Some a \<longrightarrow> p = q)"

inductive mp3_step :: "mp3_state \<Rightarrow> mp3_state \<Rightarrow> bool" where
  step_write: "mp3_write k data s = Inr (n, t) \<Longrightarrow> mp3_step s t"
| step_read: "mp3_read count s = Inr (buf, t) \<Longrightarrow> mp3_step s t"
| step_expire: "pending s \<Longrightarrow> \<not> running s \<Longrightarrow> mp3_step s (start_work s)"
| step_work: "running s \<Longrightarrow> honest k \<Longrightarrow> run_work k s = Inr t \<Longrightarrow> mp3_step s t"
| step_processes: "mp3_step s (s\<lparr>counters := c\<rparr>)"

inductive_cases mp3_stepE: "mp3_step s t"

definition mp3_start :: "mp3_state \<Rightarrow> bool" where
  "mp3_start s \<longleftrightarrow> mp3_init 0 True mp3_static = Inr (0, s)"

end
