(* ===== verification/Mp3_Ring.thy ===== *)
theory Mp3_Ring
  imports Mp3_Main
begin

text \<open>
  The sample buffer as a ring: its abstract contents are the history of all samples, of which
  the newest one of every slot is in memory. The lemmas give \<open>vmem_buf_push_next\<close> and the sampling
  loop in closed form over that history.
\<close>

section \<open>Slots\<close>

definition CAP :: nat where
  "CAP = 131072"

lemma VMEM_SIZE_eq: "VMEM_SIZE = 4 * CAP"
  by (simp add: VMEM_SIZE_def CAP_def)

definition row :: "(nat \<Rightarrow> u64) \<Rightarrow> nat \<Rightarrow> u64 list" where
  "row m j = [m (4 * j), m (4 * j + 1), m (4 * j + 2), m (4 * j + 3)]"

definition put :: "nat \<Rightarrow> u64 list \<Rightarrow> (nat \<Rightarrow> u64) \<Rightarrow> nat \<Rightarrow> u64" where
  "put i x m = m(4 * i := x ! 0, 4 * i + 1 := x ! 1, 4 * i + 2 := x ! 2, 4 * i + 3 := x ! 3)"

lemma list4: "length x = 4 \<Longrightarrow> [x ! 0, x ! 1, x ! 2, x ! 3] = x"
  by (auto simp: list_eq_iff_nth_eq nth_Cons' less_Suc_eq numeral_3_eq_3 numeral_2_eq_2 numeral_eq_Suc)

lemma row_put: "length x = 4 \<Longrightarrow> row (put i x m) j = (if j = i then x else row m j)"
  using list4 [of x] by (auto simp: row_def put_def)

text \<open>The number of the newest of \<open>n\<close> samples in slot \<open>j\<close>, and that sample.\<close>

definition newest :: "nat \<Rightarrow> 'a list \<Rightarrow> 'a option" where
  "newest j h = (if j < length h then Some (h ! (j + CAP * ((length h - 1 - j) div CAP))) else None)"

lemma newest_append:
  assumes "j < CAP"
  shows "newest j (h @ [x]) = (if length h mod CAP = j then Some x else newest j h)"
proof -
  let ?n = "length h"
  consider "?n < j" | "j = ?n" | "j < ?n" by linarith
  then show ?thesis
  proof cases
    case 1 then show ?thesis using assms by (auto simp: newest_def)
  next
    case 2 then show ?thesis using assms by (simp add: newest_def)
  next
    case 3
    show ?thesis
    proof (cases "?n mod CAP = j")
      case True
      then have "?n - j = CAP * (?n div CAP)" using minus_mod_eq_mult_div [of ?n CAP] by simp
      then have "CAP * ((?n - j) div CAP) = ?n - j" by (simp add: CAP_def)
      then have "j + CAP * ((?n - j) div CAP) = ?n" using 3 by linarith
      then show ?thesis using True 3 by (simp add: newest_def)
    next
      case False
      have "(?n - j) mod CAP \<noteq> 0"
      proof
        assume "(?n - j) mod CAP = 0"
        then have "CAP dvd ?n - j" by (simp add: mod_eq_0_iff_dvd)
        then obtain q where "?n - j = CAP * q" by (rule dvdE)
        then have "?n = j + CAP * q" using 3 by linarith
        then have "?n mod CAP = j mod CAP" by simp
        then show False using False 3 assms by simp
      qed
      then have "(?n - j) div CAP = (?n - 1 - j) div CAP"
        using 3 div_Suc [of "?n - 1 - j" CAP] by (auto simp: Suc_diff_Suc split: if_splits)
      moreover have "j + CAP * ((?n - 1 - j) div CAP) < ?n"
        using 3 times_div_less_eq_dividend [of CAP "?n - 1 - j"] by linarith
      ultimately show ?thesis using False 3 by (simp add: newest_def nth_append)
    qed
  qed
qed

section \<open>The ring\<close>

definition ring_holds :: "u64 list list \<Rightarrow> (nat \<Rightarrow> u64) \<Rightarrow> u64 \<Rightarrow> bool" where
  "ring_holds h m idx \<longleftrightarrow> unat idx = length h mod CAP \<and>
     (\<forall>j<CAP. row m j = (case newest j h of None \<Rightarrow> [0, 0, 0, 0] | Some x \<Rightarrow> x))"

lemma ring_empty: "ring_holds [] (\<lambda>_. 0) 0"
  by (simp add: ring_holds_def newest_def row_def)

lemma ring_idx: "ring_holds h m idx \<Longrightarrow> unat idx < CAP"
  by (simp add: ring_holds_def CAP_def)

definition next_idx :: "u64 \<Rightarrow> u64" where
  "next_idx i = (if Suc (unat i) = CAP then 0 else i + 1)"

lemma unat_Suc_idx: "unat (i :: u64) < CAP \<Longrightarrow> unat (i + 1) = Suc (unat i)"
  by (simp add: unat_word_ariths CAP_def)

lemma unat_next_idx: "unat i < CAP \<Longrightarrow> unat (next_idx i) = Suc (unat i) mod CAP"
  by (auto simp: next_idx_def CAP_def unat_Suc_idx)

lemma ring_push:
  assumes "ring_holds h m idx" "length x = 4"
  shows "ring_holds (h @ [x]) (put (unat idx) x m) (next_idx idx)"
proof -
  have "row (put (unat idx) x m) j = (case newest j (h @ [x]) of None \<Rightarrow> [0, 0, 0, 0] | Some y \<Rightarrow> y)" if "j < CAP" for j
    using that assms by (auto simp: newest_append row_put ring_holds_def)
  moreover have "unat (next_idx idx) = length (h @ [x]) mod CAP"
    using unat_next_idx [OF ring_idx [OF assms(1)]] assms(1) by (simp add: ring_holds_def mod_Suc_eq)
  ultimately show ?thesis by (simp add: ring_holds_def)
qed


section \<open>One push\<close>

definition sample :: "u32 \<Rightarrow> cpu_counters \<Rightarrow> u64 list" where
  "sample p c = [scast p, k_min_flt c, k_maj_flt c, util_percent (k_utime c + k_stime c)]"

lemma sample_length [simp]: "length (sample p c) = 4"
  by (simp add: sample_def)

lemma unat_field: "unat (i :: u64) < CAP \<Longrightarrow> unat f < 4 \<Longrightarrow> unat (4 * i + f) = 4 * unat i + unat f"
  by (simp add: unat_word_ariths CAP_def)

lemma vmem_store_eq:
  assumes "vmem_buf s = Some m" "unat i < CAP" "unat f < 4"
  shows "vmem_store (4 * i + f) v s = Inr (s\<lparr>vmem_buf := Some (m(4 * unat i + unat f := v))\<rparr>)"
  using assms by (simp add: vmem_store_def unat_field VMEM_SIZE_eq)

lemma wrap_iff: "unat (i :: u64) < CAP \<Longrightarrow> of_nat VMEM_SIZE \<le> 4 * (i + 1) \<longleftrightarrow> Suc (unat i) = CAP"
  by (auto simp: word_le_nat_alt unat_word_ariths VMEM_SIZE_def CAP_def)

lemma field_unat: "unat PID = 0" "unat MINOR = 1" "unat MAJOR = 2" "unat UTIL = 3"
  by (simp_all add: field_defs)

lemma push_eq:
  assumes "vmem_buf s = Some m" "unat (vmem_idx s) < CAP"
  shows "vmem_buf_push_next p (k_min_flt c) (k_maj_flt c) (k_utime c + k_stime c) l s =
    Inr (s\<lparr>vmem_buf := Some (put (unat (vmem_idx s)) (sample p c) m), vmem_idx := next_idx (vmem_idx s)\<rparr>)"
  using assms wrap_iff [OF assms(2)]
  by (simp add: vmem_buf_push_next_def vmem_store_eq field_unat sample_def put_def next_idx_def Let_def)

section \<open>The sampling loop\<close>

text \<open>
  What a run of the loop does to the list and the counters: the processes before the first one
  that is gone are sampled.
\<close>

definition alive :: "mp3_kernel \<Rightarrow> mp3_task_struct \<Rightarrow> bool" where
  "alive k t \<longleftrightarrow> pid_task k (pid t) \<noteq> None"

definition home :: "mp3_kernel \<Rightarrow> mp3_task_struct \<Rightarrow> addr" where
  "home k t = the (pid_task k (pid t))"

definition refreshed :: "mp3_kernel \<Rightarrow> cpu_counters \<Rightarrow> mp3_task_struct \<Rightarrow> mp3_task_struct" where
  "refreshed k c t = t\<lparr>min_flt := k_min_flt c, maj_flt := k_maj_flt c, utime := k_utime c,
     stime := k_stime c, last_jiffies := jiffies k\<rparr>"

lemma refreshed_pid [simp]: "pid (refreshed k c t) = pid t"
  by (simp add: refreshed_def)

lemma same_buf: "vmem_buf s = Some m \<Longrightarrow> s\<lparr>vmem_buf := Some m\<rparr> = s"
  by simp

lemma sample_loop_dead: "\<not> alive k t \<Longrightarrow> sample_loop k (t # ts) s = Inr (False, t # ts, s)"
  by (simp add: alive_def get_cpu_use_def find_task_by_pid_mp3_def)

lemma sample_loop_alive:
  assumes "alive k t" "vmem_buf s = Some m" "unat (vmem_idx s) < CAP"
  defines "c \<equiv> counters s (home k t)"
  defines "s1 \<equiv> s\<lparr>counters := (counters s)(home k t := zero_counters),
    vmem_buf := Some (put (unat (vmem_idx s)) (sample (pid t) c) m), vmem_idx := next_idx (vmem_idx s)\<rparr>"
  shows "sample_loop k (t # ts) s =
    rbind (sample_loop k ts s1) (\<lambda>(d, ts', s). Inr (d, refreshed k c t # ts', s))"
proof -
  obtain a where a: "pid_task k (pid t) = Some a" using assms(1) by (auto simp: alive_def)
  then show ?thesis using assms
    by (simp add: get_cpu_use_def find_task_by_pid_mp3_def home_def refreshed_def push_eq)
qed

declare sample_loop.simps(2) [simp del]

text \<open>
  What a run of the work takes down: the processes from the front of the list up to the first one that has ended, each with the counts of
  its process since they were last zeroed, which taking them down does.
\<close>

fun taken :: "mp3_kernel \<Rightarrow> (addr \<Rightarrow> cpu_counters) \<Rightarrow> mp3_task_struct list \<Rightarrow> u64 list list" where
  "taken k c [] = []"
| "taken k c (t # ts) =
     (case pid_task k (pid t) of
        None \<Rightarrow> []
      | Some a \<Rightarrow> sample (pid t) (c a) # taken k (c(a := zero_counters)) ts)"

lemma taken_dead: "\<not> alive k t \<Longrightarrow> taken k c (t # ts) = []"
  by (simp add: alive_def)

lemma taken_alive:
  "alive k t \<Longrightarrow> taken k c (t # ts) = sample (pid t) (c (home k t)) # taken k (c(home k t := zero_counters)) ts"
  by (auto simp: alive_def home_def)

text \<open>The loop pushes what is taken down, whatever the list.\<close>

lemma sample_loop_any:
  assumes "vmem_buf s = Some m" "ring_holds h m (vmem_idx s)"
  shows "\<exists>d us c m' i. sample_loop k ts s = Inr (d, us, s\<lparr>counters := c, vmem_buf := Some m', vmem_idx := i\<rparr>) \<and>
    ring_holds (h @ taken k (counters s) ts) m' i \<and> map pid us = map pid ts"
  using assms
proof (induction ts arbitrary: s m h)
  case Nil
  then show ?case
    by (intro exI [of _ True] exI [of _ "[]"] exI [of _ "counters s"] exI [of _ m] exI [of _ "vmem_idx s"]) simp
next
  case (Cons t ts)
  show ?case
  proof (cases "alive k t")
    case False
    then show ?thesis using Cons.prems
      by (intro exI [of _ False] exI [of _ "t # ts"] exI [of _ "counters s"] exI [of _ m] exI [of _ "vmem_idx s"])
        (simp add: sample_loop_dead same_buf taken_dead del: taken.simps)
  next
    case True
    let ?c = "counters s (home k t)"
    let ?s1 = "s\<lparr>counters := (counters s)(home k t := zero_counters),
      vmem_buf := Some (put (unat (vmem_idx s)) (sample (pid t) ?c) m), vmem_idx := next_idx (vmem_idx s)\<rparr>"
    have "ring_holds (h @ [sample (pid t) ?c]) (put (unat (vmem_idx s)) (sample (pid t) ?c) m) (vmem_idx ?s1)"
      using ring_push [OF Cons.prems(2), of "sample (pid t) ?c"] by simp
    then have "\<exists>d us c m' i. sample_loop k ts ?s1 = Inr (d, us, ?s1\<lparr>counters := c, vmem_buf := Some m', vmem_idx := i\<rparr>) \<and>
      ring_holds ((h @ [sample (pid t) ?c]) @ taken k (counters ?s1) ts) m' i \<and> map pid us = map pid ts"
      by (intro Cons.IH [of ?s1 "put (unat (vmem_idx s)) (sample (pid t) ?c) m"]) simp_all
    then obtain d us c m' i where
      "sample_loop k ts ?s1 = Inr (d, us, ?s1\<lparr>counters := c, vmem_buf := Some m', vmem_idx := i\<rparr>)"
      "ring_holds ((h @ [sample (pid t) ?c]) @ taken k (counters ?s1) ts) m' i" "map pid us = map pid ts"
      by blast
    then show ?thesis
      using sample_loop_alive [OF True Cons.prems(1) ring_idx [OF Cons.prems(2)]]
      by (intro exI [of _ d] exI [of _ "refreshed k ?c t # us"] exI [of _ c] exI [of _ m'] exI [of _ i])
        (simp add: taken_alive [OF True] del: taken.simps)
  qed
qed

text \<open>
  Distinct processes have distinct task structures, so no process is sampled after its counters were
  zeroed in the same run.
\<close>

lemma sample_loop_eq:
  assumes "vmem_buf s = Some m" "ring_holds h m (vmem_idx s)" "distinct (map (home k) (takeWhile (alive k) ts))"
  defines "now \<equiv> takeWhile (alive k) ts"
  shows "\<exists>m' i. sample_loop k ts s = Inr (now = ts,
      map (\<lambda>t. refreshed k (counters s (home k t)) t) now @ dropWhile (alive k) ts,
      s\<lparr>counters := (\<lambda>a. if a \<in> home k ` set now then zero_counters else counters s a),
        vmem_buf := Some m', vmem_idx := i\<rparr>) \<and>
    ring_holds (h @ map (\<lambda>t. sample (pid t) (counters s (home k t))) now) m' i"
  using assms(1-3) unfolding now_def
proof (induction ts arbitrary: s m h)
  case Nil
  then show ?case by (intro exI [of _ m] exI [of _ "vmem_idx s"]) simp
next
  case (Cons t ts)
  show ?case
  proof (cases "alive k t")
    case False
    then show ?thesis using Cons.prems
      by (intro exI [of _ m] exI [of _ "vmem_idx s"]) (simp add: sample_loop_dead same_buf)
  next
    case True
    let ?c = "counters s (home k t)" and ?now = "takeWhile (alive k) ts"
    let ?s1 = "s\<lparr>counters := (counters s)(home k t := zero_counters),
      vmem_buf := Some (put (unat (vmem_idx s)) (sample (pid t) ?c) m), vmem_idx := next_idx (vmem_idx s)\<rparr>"
    have other: "home k u \<noteq> home k t" if "u \<in> set ?now" for u using Cons.prems(3) True that by simp (metis imageI)
    have "ring_holds (h @ [sample (pid t) ?c]) (put (unat (vmem_idx s)) (sample (pid t) ?c) m) (next_idx (vmem_idx s))"
      using Cons.prems(2) by (rule ring_push) simp
    then obtain m' i where IH: "sample_loop k ts ?s1 = Inr (?now = ts,
        map (\<lambda>u. refreshed k (counters ?s1 (home k u)) u) ?now @ dropWhile (alive k) ts,
        ?s1\<lparr>counters := (\<lambda>a. if a \<in> home k ` set ?now then zero_counters else counters ?s1 a),
          vmem_buf := Some m', vmem_idx := i\<rparr>)"
      "ring_holds ((h @ [sample (pid t) ?c]) @ map (\<lambda>u. sample (pid u) (counters ?s1 (home k u))) ?now) m' i"
      using Cons.IH [of ?s1 "put (unat (vmem_idx s)) (sample (pid t) ?c) m" "h @ [sample (pid t) ?c]"]
        Cons.prems(3) True by auto
    have same: "map (\<lambda>u. refreshed k (counters ?s1 (home k u)) u) ?now =
        map (\<lambda>u. refreshed k (counters s (home k u)) u) ?now"
      "map (\<lambda>u. sample (pid u) (counters ?s1 (home k u))) ?now = map (\<lambda>u. sample (pid u) (counters s (home k u))) ?now"
      using other by auto
    have c: "(\<lambda>a. if a \<in> home k ` set ?now then zero_counters else counters ?s1 a) =
        (\<lambda>a. if a \<in> home k ` set (t # ?now) then zero_counters else counters s a)"
      by auto
    show ?thesis
      using IH True ring_idx [OF Cons.prems(2)] Cons.prems(1)
      unfolding same c
      by (intro exI [of _ m'] exI [of _ i]) (simp add: sample_loop_alive)
  qed
qed

end
