(* ===== verification/Mp3_Safety.thy ===== *)
theory Mp3_Safety
  imports Mp3_Ring
begin

text \<open>
  The operations of the profiler in closed form, the invariant of its reachable states, and the
  contracts it meets: a registry of pids_mp3 and a status file.
\<close>

section \<open>Operations in closed form\<close>

lemma spin_simps [simp]:
  "spin_lock_mp3 s = (if lock s then Inl Deadlock else Inr (s\<lparr>lock := True\<rparr>))"
  "spin_unlock_mp3 s = s\<lparr>lock := False\<rparr>"
  by (simp_all add: spin_lock_mp3_def spin_unlock_mp3_def)

lemma wq_handler_locked: "lock s \<Longrightarrow> wq_handler k s = Inl Deadlock"
  by (simp add: wq_handler_def)

lemma flush_idle: "\<not> running s \<Longrightarrow> flush_workqueue k s = Inr s"
  by (simp add: flush_workqueue_def)

lemma flush_locked: "lock s \<Longrightarrow> running s \<Longrightarrow> flush_workqueue k s = Inl Deadlock"
  by (simp add: flush_workqueue_def run_work_def wq_handler_locked)

lemma Task_register_mp3_eq:
  "Task_register_mp3 k p s =
    (if p \<in> pid ` set (tl s) then Inr (-1, s)
     else if \<not> node_ok k then Inl NullDeref
     else if lock s then Inl Deadlock
     else if tl s = [] \<and> \<not> wq s then Inl NullDeref
     else Inr (0, s\<lparr>tl := tl s @ [new_mp3_task k p], lock := False, pending := pending s \<or> tl s = []\<rparr>))"
  by (auto simp: Task_register_mp3_def register_known_def register_link_def queue_delayed_work_def)

lemma remove_pid_None: "remove_pid p ts = None \<longleftrightarrow> p \<notin> pid ` set ts"
  by (induction ts) auto

lemma remove_pid_Some: "remove_pid p ts = Some us \<Longrightarrow> map pid us = remove1 p (map pid ts)"
  by (induction ts arbitrary: us) (auto split: if_splits)

lemma Task_deregister_mp3_eq:
  "Task_deregister_mp3 k p s =
    (if lock s then Inl Deadlock
     else (case remove_pid p (tl s) of
       None \<Rightarrow> Inr (-1, s\<lparr>lock := False\<rparr>)
     | Some ts \<Rightarrow>
         if ts = [] \<and> running s then Inl Deadlock
         else Inr (0, s\<lparr>tl := ts, lock := False, pending := pending s \<and> ts \<noteq> []\<rparr>)))"
  by (auto simp: Task_deregister_mp3_def cancel_delayed_work_def flush_idle flush_locked Let_def
      split: option.split)

lemma distinct_homes:
  assumes "honest k" "distinct (map pid ts)"
  shows "distinct (map (home k) (takeWhile (alive k) ts))"
proof -
  have "inj_on (home k) (set (takeWhile (alive k) ts))"
  proof (rule inj_onI)
    fix t u assume tu: "t \<in> set (takeWhile (alive k) ts)" "u \<in> set (takeWhile (alive k) ts)" "home k t = home k u"
    then have "alive k t" "alive k u" by (auto dest: set_takeWhileD)
    then have "pid t = pid u" using assms(1) tu(3) by (auto simp: honest_def alive_def home_def)
    moreover have "t \<in> set ts" "u \<in> set ts" using tu by (auto dest: set_takeWhileD)
    ultimately show "t = u" using assms(2) by (auto simp: distinct_map inj_on_def)
  qed
  then show ?thesis using assms(2) by (simp add: distinct_map distinct_takeWhile)
qed

text \<open>The state a run of the handler leaves when the processes before the first dead one are \<open>now\<close>.\<close>

definition present :: "mp3_kernel \<Rightarrow> mp3_state \<Rightarrow> mp3_task_struct list" where
  "present k s = takeWhile (alive k) (tl s)"

definition samples :: "mp3_kernel \<Rightarrow> mp3_state \<Rightarrow> u64 list list" where
  "samples k s = map (\<lambda>t. sample (pid t) (counters s (home k t))) (present k s)"

definition swept :: "mp3_kernel \<Rightarrow> mp3_state \<Rightarrow> mp3_state" where
  "swept k s = s\<lparr>counters := (\<lambda>a. if a \<in> home k ` set (present k s) then zero_counters else counters s a),
     tl := map (\<lambda>t. refreshed k (counters s (home k t)) t) (present k s) @ dropWhile (alive k) (tl s)\<rparr>"

lemma present_all: "present k s = tl s \<longleftrightarrow> (\<forall>t\<in>set (tl s). alive k t)"
  by (simp add: present_def takeWhile_eq_all_conv)

lemma swept_pids: "map pid (tl (swept k s)) = map pid (tl s)"
proof -
  have "map pid (takeWhile (alive k) (tl s)) @ map pid (dropWhile (alive k) (tl s)) = map pid (tl s)"
    unfolding map_append [symmetric] by simp
  then show ?thesis by (simp add: swept_def present_def comp_def)
qed

lemma wq_handler_eq:
  assumes "\<not> lock s" "wq s" "honest k" "distinct (map pid (tl s))"
    and "vmem_buf s = Some m" "ring_holds h m (vmem_idx s)"
  shows "\<exists>m' i. ring_holds (h @ samples k s) m' i \<and>
    wq_handler k s = Inr (if \<forall>t\<in>set (tl s). alive k t
      then (swept k s)\<lparr>vmem_buf := Some m', vmem_idx := i, pending := True\<rparr>
      else (swept k s)\<lparr>vmem_buf := Some m', vmem_idx := i, lock := True\<rparr>)"
proof -
  have "vmem_buf (s\<lparr>lock := True\<rparr>) = Some m" "ring_holds h m (vmem_idx (s\<lparr>lock := True\<rparr>))"
    using assms by simp_all
  note loop = sample_loop_eq [OF this distinct_homes [OF assms(3,4)]]
  have c: "counters (s\<lparr>lock := True\<rparr>) = counters s" by simp
  obtain m' i where loop: "sample_loop k (tl s) (s\<lparr>lock := True\<rparr>) = Inr (present k s = tl s,
      tl (swept k s), s\<lparr>lock := True, counters := counters (swept k s), vmem_buf := Some m', vmem_idx := i\<rparr>)"
    and ring: "ring_holds (h @ samples k s) m' i"
    using loop unfolding c by (auto simp: present_def swept_def samples_def)
  show ?thesis
    using ring assms(1,2) loop
    by (intro exI [of _ m'] exI [of _ i])
      (simp add: wq_handler_def queue_delayed_work_def Let_def present_all, simp add: swept_def)
qed


lemma wq_handler_all:
  assumes "\<not> lock s" "wq s" "honest k" "distinct (map pid (tl s))"
    and "vmem_buf s = Some m" "ring_holds h m (vmem_idx s)" "\<forall>t\<in>set (tl s). alive k t"
  obtains m' i where "ring_holds (h @ samples k s) m' i"
    "wq_handler k s = Inr ((swept k s)\<lparr>vmem_buf := Some m', vmem_idx := i, pending := True\<rparr>)"
  using wq_handler_eq [OF assms(1-6)] unfolding if_P [OF assms(7)] by blast

lemma wq_handler_dead:
  assumes "\<not> lock s" "wq s" "honest k" "distinct (map pid (tl s))"
    and "vmem_buf s = Some m" "ring_holds h m (vmem_idx s)" "\<not> (\<forall>t\<in>set (tl s). alive k t)"
  obtains m' i where "ring_holds (h @ samples k s) m' i"
    "wq_handler k s = Inr ((swept k s)\<lparr>vmem_buf := Some m', vmem_idx := i, lock := True\<rparr>)"
  using wq_handler_eq [OF assms(1-6)] unfolding if_not_P [OF assms(7)] by blast

section \<open>The invariant\<close>

text \<open>
  The buffer is allocated and holds a history; pids_mp3 are unique; work is queued or started, not both,
  exactly while processes are registered. A lock that is held belongs to a handler that gave up: then no work
  is queued any more.
\<close>

definition pids_mp3 :: "mp3_state \<Rightarrow> u32 list" where
  "pids_mp3 s = map pid (tl s)"

definition mp3_inv :: "mp3_state \<Rightarrow> bool" where
  "mp3_inv s \<longleftrightarrow> wq s \<and> (\<exists>m h. vmem_buf s = Some m \<and> ring_holds h m (vmem_idx s)) \<and>
     distinct (pids_mp3 s) \<and> \<not> (pending s \<and> running s) \<and>
     (if lock s then \<not> pending s \<and> \<not> running s \<and> tl s \<noteq> [] else (pending s \<or> running s) = (tl s \<noteq> []))"

lemma mp3_inv_registered:
  "mp3_inv s \<Longrightarrow> \<not> lock s \<Longrightarrow> pid t \<notin> pid ` set (tl s) \<Longrightarrow>
   mp3_inv (s\<lparr>tl := tl s @ [t], lock := False, pending := pending s \<or> tl s = []\<rparr>)"
  by (auto simp: mp3_inv_def pids_mp3_def)

lemma mp3_inv_deregistered:
  "mp3_inv s \<Longrightarrow> \<not> lock s \<Longrightarrow> remove_pid p (tl s) = Some ts \<Longrightarrow> \<not> (ts = [] \<and> running s) \<Longrightarrow>
   mp3_inv (s\<lparr>tl := ts, lock := False, pending := pending s \<and> ts \<noteq> []\<rparr>)"
  using remove_pid_Some [of p "tl s" ts] by (auto simp: mp3_inv_def pids_mp3_def distinct_remove1)

lemma inv_register:
  "mp3_inv s \<Longrightarrow> Task_register_mp3 k p s = Inr (r, t) \<Longrightarrow> mp3_inv t"
  using mp3_inv_registered [of s "new_mp3_task k p"]
  by (auto simp: Task_register_mp3_eq new_mp3_task_def split: if_splits)

lemma unlock_id: "\<not> lock s \<Longrightarrow> s\<lparr>lock := False\<rparr> = s"
  by simp

lemma inv_deregister:
  "mp3_inv s \<Longrightarrow> Task_deregister_mp3 k p s = Inr (r, t) \<Longrightarrow> mp3_inv t"
  using mp3_inv_deregistered [of s p]
  by (auto simp: Task_deregister_mp3_eq unlock_id split: if_splits option.splits)

lemma inv_handled:
  assumes "mp3_inv s" "running s" "honest k" "run_work k s = Inr t"
  shows "mp3_inv t"
proof -
  obtain m h where m: "vmem_buf s = Some m" "ring_holds h m (vmem_idx s)" using assms(1) by (auto simp: mp3_inv_def)
  have s: "\<not> lock s" "wq s" "distinct (map pid (tl s))" "tl s \<noteq> []" "\<not> pending s"
    using assms(1,2) by (auto simp: mp3_inv_def pids_mp3_def split: if_splits)
  have "\<exists>m' i. ring_holds (h @ samples k (s\<lparr>running := False\<rparr>)) m' i \<and>
      wq_handler k (s\<lparr>running := False\<rparr>) = Inr (if \<forall>t\<in>set (tl s). alive k t
        then (swept k (s\<lparr>running := False\<rparr>))\<lparr>vmem_buf := Some m', vmem_idx := i, pending := True\<rparr>
        else (swept k (s\<lparr>running := False\<rparr>))\<lparr>vmem_buf := Some m', vmem_idx := i, lock := True\<rparr>)"
    using wq_handler_eq [of "s\<lparr>running := False\<rparr>" k m h] s m assms(3) by simp
  then obtain m' i where ring: "ring_holds (h @ samples k (s\<lparr>running := False\<rparr>)) m' i"
    and t: "t = (if \<forall>t\<in>set (tl s). alive k t
        then (swept k (s\<lparr>running := False\<rparr>))\<lparr>vmem_buf := Some m', vmem_idx := i, pending := True\<rparr>
        else (swept k (s\<lparr>running := False\<rparr>))\<lparr>vmem_buf := Some m', vmem_idx := i, lock := True\<rparr>)"
    using assms(4) by (auto simp: run_work_def)
  have "pids_mp3 t = pids_mp3 s" using swept_pids [of k "s\<lparr>running := False\<rparr>"] t by (auto simp: pids_mp3_def)
  then have "distinct (pids_mp3 t)" "tl t \<noteq> []" using s(3,4) by (auto simp: pids_mp3_def)
  moreover have "wq t" "vmem_buf t = Some m'" "vmem_idx t = i" "\<not> running t" "pending t \<longleftrightarrow> \<not> lock t"
    using t s by (auto simp: swept_def)
  ultimately show ?thesis using ring by (auto simp: mp3_inv_def)
qed

lemma mp3_start_inv: "mp3_start s \<Longrightarrow> mp3_inv s"
  using ring_empty
  by (auto simp: mp3_start_def mp3_init_def TaskList_init_def mp3_static_def mp3_inv_def pids_mp3_def)

lemma mp3_step_inv:
  assumes "mp3_inv s" "mp3_step s t"
  shows "mp3_inv t"
  using assms(2)
proof (cases rule: mp3_step.cases)
  case (step_write k data n)
  then obtain cmd where cmd: "parse_command_mp3 k data = Inr cmd"
    by (auto simp: mp3_write_def result_simps)
  show ?thesis
  proof (cases cmd)
    case (Register p)
    then obtain r where "Task_register_mp3 k p s = Inr (r, t)"
      using step_write cmd by (auto simp: mp3_write_def result_simps)
    then show ?thesis using assms(1) by (rule inv_register [rotated])
  next
    case (Unregister p)
    then obtain r where "Task_deregister_mp3 k p s = Inr (r, t)"
      using step_write cmd by (auto simp: mp3_write_def result_simps)
    then show ?thesis using assms(1) by (rule inv_deregister [rotated])
  next
    case Ignored
    then show ?thesis using step_write cmd assms(1) by (auto simp: mp3_write_def result_simps)
  qed
next
  case (step_read count buf)
  then show ?thesis using assms(1)
    by (auto simp: mp3_read_def result_simps mp3_inv_def pids_mp3_def Let_def split: if_splits)
next
  case step_expire
  then show ?thesis using assms(1) by (auto simp: start_work_def mp3_inv_def pids_mp3_def split: if_splits)
next
  case (step_work k)
  then show ?thesis using assms(1) inv_handled by blast
next
  case (step_processes c)
  then show ?thesis using assms(1) by (auto simp: mp3_inv_def pids_mp3_def)
qed

interpretation mp3: inductive_invariant mp3_start mp3_step mp3_inv
  by unfold_locales (fact mp3_start_inv, fact mp3_step_inv)

section \<open>The record of the samples\<close>

text \<open>
  The steps of the loaded module with the samples they take: a run of the started work takes down the processes that are listed when it
  starts, the other steps take none.
\<close>

inductive mp3_event :: "mp3_state \<Rightarrow> u64 list list \<Rightarrow> mp3_state \<Rightarrow> bool" where
  event_write: "mp3_write k data s = Inr (n, t) \<Longrightarrow> mp3_event s [] t"
| event_read: "mp3_read count s = Inr (buf, t) \<Longrightarrow> mp3_event s [] t"
| event_expire: "pending s \<Longrightarrow> \<not> running s \<Longrightarrow> mp3_event s [] (start_work s)"
| event_work: "running s \<Longrightarrow> honest k \<Longrightarrow> run_work k s = Inr t \<Longrightarrow> mp3_event s (taken k (counters s) (tl s)) t"
| event_processes: "mp3_event s [] (s\<lparr>counters := c\<rparr>)"

lemma mp3_event_step: "mp3_step s t \<longleftrightarrow> (\<exists>xs. mp3_event s xs t)"
  by (auto elim!: mp3_step.cases mp3_event.cases intro: mp3_step.intros mp3_event.intros)

definition ring_of :: "u64 list list \<Rightarrow> mp3_state \<Rightarrow> bool" where
  "ring_of h s \<longleftrightarrow> (\<exists>m. vmem_buf s = Some m \<and> ring_holds h m (vmem_idx s))"

lemma ring_of_simps [simp]:
  "ring_of h (s\<lparr>counters := c\<rparr>) = ring_of h s"
  "ring_of h (s\<lparr>pending := b\<rparr>) = ring_of h s"
  "ring_of h (s\<lparr>running := b\<rparr>) = ring_of h s"
  "ring_of h (s\<lparr>tl := ts\<rparr>) = ring_of h s"
  "ring_of h (s\<lparr>lock := b\<rparr>) = ring_of h s"
  by (simp_all add: ring_of_def)

lemma ring_of_frame: "vmem_buf t = vmem_buf s \<Longrightarrow> vmem_idx t = vmem_idx s \<Longrightarrow> ring_of h s \<Longrightarrow> ring_of h t"
  by (simp add: ring_of_def)

lemma register_frame:
  "Task_register_mp3 k p s = Inr (r, t) \<Longrightarrow> vmem_buf t = vmem_buf s \<and> vmem_idx t = vmem_idx s"
  by (auto simp: Task_register_mp3_eq split: if_splits)

lemma deregister_frame:
  "Task_deregister_mp3 k p s = Inr (r, t) \<Longrightarrow> vmem_buf t = vmem_buf s \<and> vmem_idx t = vmem_idx s"
  by (auto simp: Task_deregister_mp3_eq split: if_splits option.splits)

lemma write_frame:
  assumes "mp3_write k data s = Inr (n, t)"
  shows "vmem_buf t = vmem_buf s \<and> vmem_idx t = vmem_idx s"
proof -
  obtain cmd where cmd: "parse_command_mp3 k data = Inr cmd" using assms by (auto simp: mp3_write_def result_simps)
  show ?thesis
    using assms cmd by (cases cmd) (auto simp: mp3_write_def result_simps dest: register_frame deregister_frame)
qed

lemma read_frame: "mp3_read count s = Inr (buf, t) \<Longrightarrow> vmem_buf t = vmem_buf s \<and> vmem_idx t = vmem_idx s"
  by (auto simp: mp3_read_def result_simps Let_def split: if_splits)

lemma section_records:
  assumes "ring_of h s" "sample_loop k (tl s) (s\<lparr>lock := True\<rparr>) = Inr (d, us, t)"
  shows "ring_of (h @ taken k (counters s) (tl s)) t"
proof -
  obtain m where m: "vmem_buf (s\<lparr>lock := True\<rparr>) = Some m" "ring_holds h m (vmem_idx (s\<lparr>lock := True\<rparr>))"
    using assms(1) by (auto simp: ring_of_def)
  show ?thesis using sample_loop_any [OF m, of k "tl s"] assms(2) by (auto simp: ring_of_def)
qed

lemma work_records:
  assumes "ring_of h s" "run_work k s = Inr t"
  shows "ring_of (h @ taken k (counters s) (tl s)) t"
proof -
  have "ring_of h (s\<lparr>running := False\<rparr>)" using assms(1) by simp
  from section_records [OF this, of k] show ?thesis
    using assms(2)
    by (auto simp: run_work_def wq_handler_def result_simps Let_def queue_delayed_work_def split: if_splits)
qed

lemma mp3_event_records: "ring_of h s \<Longrightarrow> mp3_event s xs t \<Longrightarrow> ring_of (h @ xs) t"
  by (erule mp3_event.cases) (auto dest: write_frame read_frame work_records intro: ring_of_frame simp: start_work_def)

interpretation mp3_record: recorded_invariant mp3_start mp3_step mp3_event ring_of
proof (unfold_locales, goal_cases)
  case (2 s)
  then show ?case using ring_empty
    by (auto simp: mp3_start_def mp3_init_def TaskList_init_def mp3_static_def ring_of_def)
qed (fact mp3_event_step, fact mp3_event_records)

section \<open>The contracts the module meets\<close>

text \<open>While no started work waits for the lock.\<close>

definition idle :: "mp3_state \<Rightarrow> bool" where
  "idle s \<longleftrightarrow> mp3_inv s \<and> \<not> lock s \<and> \<not> running s"

definition request_mp3 :: "mp3_kernel \<times> u32 \<Rightarrow> mp3_state \<Rightarrow> (int \<times> mp3_state) result" where
  "request_mp3 q = Task_register_mp3 (fst q) (snd q)"

interpretation mp3_reg: pid_registry pids_mp3 idle snd "\<lambda>_ _. True" request_mp3 "Task_deregister_mp3 k" for k
proof (unfold_locales, goal_cases)
  case (1 s) then show ?case by (simp add: idle_def mp3_inv_def)
next
  case (2 s q s')
  then show ?case using inv_register [of s "fst q" "snd q" 0 s']
    by (auto simp: request_mp3_def Task_register_mp3_eq idle_def pids_mp3_def new_mp3_task_def split: if_splits)
next
  case (3 s q r s')
  then show ?case by (auto simp: request_mp3_def Task_register_mp3_eq split: if_splits)
next
  case (4 s p)
  then obtain ts where ts: "remove_pid p (tl s) = Some ts"
    using remove_pid_None [of p "tl s"] by (auto simp: pids_mp3_def)
  then show ?case using 4 mp3_inv_deregistered [of s p ts] remove_pid_Some [OF ts]
    by (auto simp: Task_deregister_mp3_eq idle_def pids_mp3_def)
next
  case (5 s p)
  then have "remove_pid p (tl s) = None" by (auto simp: remove_pid_None pids_mp3_def)
  then show ?case using 5 by (simp add: Task_deregister_mp3_eq idle_def unlock_id)
qed

definition mp3_contents :: "mp3_state \<Rightarrow> string" where
  "mp3_contents s = concat (map pid_line (tl s))"

lemma mp3_read_eq:
  assumes "\<not> lock s" "\<not> read_finished s"
  shows "mp3_read n s = (if fits n (tl s) (mp3_contents s)
     then Inr (mp3_contents s, s\<lparr>read_finished := True, lock := False\<rparr>) else Inl BufferOverflow)"
proof -
  have "\<forall>t\<in>set (tl s). (Inr (pid_line t) :: string result) = Inr (pid_line t)" by simp
  from status_lines_total [OF this, of n "[]"] show ?thesis
    using assms by (simp add: mp3_read_def fits_def mp3_contents_def)
qed

interpretation mp3_file: proc_status_file tl mp3_contents read_finished "\<lambda>s. \<not> lock s" mp3_read
proof (unfold_locales, goal_cases)
  case (3 s n) then show ?case by (simp add: mp3_read_def mp3_contents_def)
qed (simp_all add: mp3_read_eq mp3_contents_def)

end
