(* ===== verification/Mp3_App.thy ===== *)
theory Mp3_App
  imports Mp3_Safety
begin

text \<open>
  The user programs of the profiler: \<open>MP3/monitor.c\<close>, which maps the sample buffer, prints what it
  finds and marks it read, and \<open>MP3/work.c\<close>, the workload that is profiled.
\<close>

section \<open>monitor.c\<close>

definition NPAGES :: nat where
  "NPAGES = 128"

definition BUFD_MAX :: nat where
  "BUFD_MAX = 48000"

definition getpagesize :: nat where
  "getpagesize = 4096"

text \<open>The static variables, with the descriptors that have been closed.\<close>

record monitor_state =
  buf_fd :: int
  buf_len :: nat
  closed_fds :: "int list"

definition monitor_static :: monitor_state where
  "monitor_static = \<lparr>buf_fd = -1, buf_len = 0, closed_fds = []\<rparr>"

text \<open>
  \<open>open\<close> gives the descriptor \<open>fd\<close>, \<open>mmap\<close> the mapped memory or \<open>MAP_FAILED\<close>; a failure is the text that
  is printed.
\<close>

definition buf_init ::
    "string \<Rightarrow> int \<Rightarrow> (nat \<Rightarrow> u64) option \<Rightarrow> monitor_state \<Rightarrow> (string + (nat \<Rightarrow> u64)) \<times> monitor_state" where
  "buf_init fname fd kadr st =
     (let opens = buf_fd st = -1;
          st = (if opens then st\<lparr>buf_len := NPAGES * getpagesize, buf_fd := fd\<rparr> else st) in
      if opens \<and> fd < 0 then (Inl (''file open error. '' @ fname @ [newline]), st)
      else (case kadr of
              None \<Rightarrow> (Inl (''buf file open error.'' @ [newline]), st)
            | Some buf \<Rightarrow> (Inr buf, st)))"

definition buf_exit :: "monitor_state \<Rightarrow> monitor_state" where
  "buf_exit st =
     (if buf_fd st \<noteq> -1 then st\<lparr>closed_fds := closed_fds st @ [buf_fd st], buf_fd := -1\<rparr> else st)"

text \<open>The number of longs of 8 bytes in a mapping of \<open>buf_len\<close> bytes.\<close>

definition MAP_LONGS :: nat where
  "MAP_LONGS = NPAGES * getpagesize div 8"

definition long_at :: "(nat \<Rightarrow> u64) \<Rightarrow> nat \<Rightarrow> u64 result" where
  "long_at buf i = (if i < MAP_LONGS then Inr (buf i) else Inl BufferOverflow)"

text \<open>The first index whose entry is not \<open>-1\<close>, \<open>BUFD_MAX\<close> when there is none.\<close>

function find_start :: "(nat \<Rightarrow> u64) \<Rightarrow> nat \<Rightarrow> nat result" where
  "find_start buf index =
     (if index < BUFD_MAX then
        (case long_at buf index of
           Inl e \<Rightarrow> Inl e
         | Inr v \<Rightarrow> if v \<noteq> - 1 then Inr index else find_start buf (Suc index))
      else Inr index)"
  by pat_completeness auto

termination by (relation "measure (\<lambda>(buf, index). BUFD_MAX - index)") auto

declare find_start.simps [simp del]

text \<open>One \<open>printf\<close> with the erasure of the entry and the step of the index.\<close>

definition consume :: "(nat \<Rightarrow> u64) \<Rightarrow> nat \<Rightarrow> (u64 \<times> (nat \<Rightarrow> u64) \<times> nat) result" where
  "consume buf index =
     rbind (long_at buf index) (\<lambda>v.
     Inr (v, buf(index := - 1), if BUFD_MAX \<le> Suc index then 0 else Suc index))"

definition read_row :: "(nat \<Rightarrow> u64) \<Rightarrow> nat \<Rightarrow> (u64 list \<times> (nat \<Rightarrow> u64) \<times> nat) result" where
  "read_row buf index =
     rbind (consume buf index) (\<lambda>(v0, buf, index).
     rbind (consume buf index) (\<lambda>(v1, buf, index).
     rbind (consume buf index) (\<lambda>(v2, buf, index).
     rbind (consume buf index) (\<lambda>(v3, buf, index).
     Inr ([v0, v1, v2, v3], buf, index)))))"

text \<open>\<open>None\<close> is running out of fuel.\<close>

fun monitor_loop :: "nat \<Rightarrow> (nat \<Rightarrow> u64) \<Rightarrow> nat \<Rightarrow> (u64 list list \<times> (nat \<Rightarrow> u64)) result option" where
  "monitor_loop 0 buf index = None"
| "monitor_loop (Suc fuel) buf index =
     (case long_at buf index of
        Inl e \<Rightarrow> Some (Inl e)
      | Inr v \<Rightarrow>
          if v \<noteq> - 1 then
            (case read_row buf index of
               Inl e \<Rightarrow> Some (Inl e)
             | Inr (out, buf, index) \<Rightarrow>
                 map_option (\<lambda>r. rbind r (\<lambda>(rows, buf). Inr (out # rows, buf)))
                   (monitor_loop fuel buf index))
          else Some (Inr ([], buf)))"

definition row_line :: "u64 list \<Rightarrow> string" where
  "row_line r = show_d (r ! 0) @ '' '' @ show_d (r ! 1) @ '' '' @ show_d (r ! 2) @ '' '' @ show_d (r ! 3) @ [newline]"

definition monitor_text :: "u64 list list \<Rightarrow> string" where
  "monitor_text rows = concat (map row_line rows) @
     ''read '' @ show_int (int (length rows)) @ '' profiled data'' @ [newline]"

text \<open>
  The return value, what is printed, the static variables and, after success, the memory as it
  is left.
\<close>

definition monitor_main ::
    "nat \<Rightarrow> int \<Rightarrow> (nat \<Rightarrow> u64) option \<Rightarrow> (int \<times> string \<times> monitor_state \<times> (nat \<Rightarrow> u64) option) result option" where
  "monitor_main fuel fd kadr =
     (case buf_init ''node'' fd kadr monitor_static of
        (Inl msg, st) \<Rightarrow> Some (Inr (-1, msg, st, None))
      | (Inr buf, st) \<Rightarrow>
          (case find_start buf 0 of
             Inl e \<Rightarrow> Some (Inl e)
           | Inr index \<Rightarrow>
               map_option (\<lambda>r. rbind r (\<lambda>(rows, buf). Inr (0, monitor_text rows, buf_exit st, Some buf)))
                 (monitor_loop fuel buf index)))"

section \<open>work.c\<close>

definition N_ITERATION :: nat where
  "N_ITERATION = 20"

text \<open>\<open>r\<close> is what \<open>rand\<close> returns; the result is the block and the offset that are written.\<close>

definition rand_access :: "int \<Rightarrow> int \<Rightarrow> int \<times> int" where
  "rand_access msize r =
     (let target = r smod (msize * 1024 * 1024);
          target = (if target < 0 then target * -1 else target);
          blk = target sdiv 1024 sdiv 1024 in
      (blk, target - blk * 1024 * 1024))"

text \<open>
  \<open>rnd n\<close> is the result of the call of \<open>rand\<close> with number \<open>n\<close>; \<open>n\<close> is the next number.
\<close>

definition local_access :: "(nat \<Rightarrow> int) \<Rightarrow> nat \<Rightarrow> u32 \<Rightarrow> u32 \<times> nat" where
  "local_access rnd n addr =
     (if rnd n < 0 then (addr + 1, Suc n) else (addr + of_int (rnd (Suc n) smod 300), Suc (Suc n)))"

fun access_loop ::
    "bool \<Rightarrow> int \<Rightarrow> (nat \<Rightarrow> int) \<Rightarrow> nat \<Rightarrow> nat \<Rightarrow> u32 \<Rightarrow> (int \<times> int) list \<times> nat \<times> u32" where
  "access_loop temporal msize rnd 0 n addr = ([], n, addr)"
| "access_loop temporal msize rnd (Suc j) n addr =
     (if \<not> temporal then
        let (ts, n', addr') = access_loop temporal msize rnd j (Suc n) addr in
        (rand_access msize (rnd n) # ts, n', addr')
      else
        let locality = rnd n smod 10 in
        if -2 < locality \<and> locality < 2 then
          let (ts, n', addr') = access_loop temporal msize rnd j (Suc (Suc n)) addr in
          (rand_access msize (rnd (Suc n)) # ts, n', addr')
        else
          let (addr, n) = local_access rnd (Suc n) addr in
          access_loop temporal msize rnd j n addr)"

datatype work_event =
    Print string
  | System string
  | Touch "int \<times> int"
  | Sleep

fun work_iterations ::
    "bool \<Rightarrow> int \<Rightarrow> nat \<Rightarrow> (nat \<Rightarrow> int) \<Rightarrow> string \<Rightarrow> nat \<Rightarrow> nat \<Rightarrow> nat \<Rightarrow> u32 \<Rightarrow> work_event list" where
  "work_iterations temporal msize naccess rnd me k 0 n addr = []"
| "work_iterations temporal msize naccess rnd me k (Suc left) n addr =
     (let (ts, n, addr) = access_loop temporal msize rnd naccess n addr in
      Print (''['' @ me @ ''] '' @ show_int (int k) @ '' iteration'' @ [newline]) # map Touch ts @
        [Sleep] @ work_iterations temporal msize naccess rnd me (Suc k) left n addr)"

definition status_line :: "string \<Rightarrow> u32 \<Rightarrow> string" where
  "status_line op me = op @ '' '' @ show_u me"

definition status_command :: "string \<Rightarrow> u32 \<Rightarrow> string" where
  "status_command op me = ''echo '' @ [CHR 0x27] @ status_line op me @ [CHR 0x27] @ ''>//proc/mp3/status''"

text \<open>
  \<open>failed\<close> is the number of the first block that \<open>malloc\<close> does not give, if any. The loop that
  frees the blocks before it runs \<open>i\<close> down to \<open>-1\<close> before it is printed.
\<close>

definition work_main :: "string list \<Rightarrow> u32 \<Rightarrow> nat option \<Rightarrow> (nat \<Rightarrow> int) \<Rightarrow> int \<times> work_event list" where
  "work_main argv me failed rnd =
     (if length argv < 4 then (-1, [Print ''usage: work <memsize in MB> <locality: R for Random or T for Temporal> <# of memory accesses per iteration>''])
      else
        let msize = sint (atoi (argv ! 1) :: u32) in
        if 1024 < msize \<or> msize < 1 then (-1, [Print (''memsize shall be between 1 and 1024'' @ [newline])])
        else
          let locality = (if take 1 (argv ! 2) = ''R'' then 0 else 1 :: int);
              naccess = sint (atoi (argv ! 3) :: u32) in
          if naccess < 1 then (-1, [Print (''naccess shall be >=1'' @ [newline])])
          else
            let start = [Print (''A work prcess starts (configuration: '' @ show_int msize @ '' '' @ show_int locality @
                           '' '' @ show_int naccess @ '')'' @ [newline]),
                         System (status_command ''R'' me)] in
            (case failed of
               Some i \<Rightarrow>
                 if int i < msize
                 then (-1, start @ [Print (''Out of memory error! (failed at '' @ show_int (-1) @ ''MB)'' @ [newline])])
                 else (0, start @ work_iterations (locality \<noteq> 0) msize (nat naccess) rnd (show_d me) 0 N_ITERATION 0 0 @
                        [System (status_command ''U'' me)])
             | None \<Rightarrow>
                 (0, start @ work_iterations (locality \<noteq> 0) msize (nat naccess) rnd (show_d me) 0 N_ITERATION 0 0 @
                        [System (status_command ''U'' me)])))"


section \<open>The monitor's loop\<close>

lemma sizes: "BUFD_MAX = 48000" "MAP_LONGS = 65536"
  by (simp_all add: BUFD_MAX_def MAP_LONGS_def NPAGES_def getpagesize_def)

definition step_index :: "nat \<Rightarrow> nat" where
  "step_index i = (if BUFD_MAX \<le> Suc i then 0 else Suc i)"

lemma consume_eq: "i \<le> BUFD_MAX \<Longrightarrow> consume buf i = Inr (buf i, buf(i := - 1), step_index i)"
  by (simp add: consume_def long_at_def sizes step_index_def)

lemma step_index_le: "step_index i \<le> BUFD_MAX"
  by (simp add: step_index_def)

text \<open>The entries the loop can still print.\<close>

definition unread :: "(nat \<Rightarrow> u64) \<Rightarrow> nat set" where
  "unread buf = {i. i \<le> BUFD_MAX \<and> buf i \<noteq> - 1}"

lemma finite_unread: "finite (unread buf)"
  unfolding unread_def by simp

lemma unread_mono: "unread (buf(i := - 1)) \<subseteq> unread buf"
  by (auto simp: unread_def)

lemma read_row_less:
  assumes "i \<le> BUFD_MAX" "buf i \<noteq> - 1"
  shows "\<exists>r buf' i'. read_row buf i = Inr (r, buf', i') \<and> i' \<le> BUFD_MAX \<and>
    card (unread buf') < card (unread buf)"
proof -
  let ?b1 = "buf(i := - 1)"
  have "unread ?b1 \<subset> unread buf" using assms by (auto simp: unread_def)
  then have less: "card (unread ?b1) < card (unread buf)" by (simp add: psubset_card_mono finite_unread)
  have le: "card (unread (?b1(j := - 1, k := - 1, l := - 1))) \<le> card (unread ?b1)" for j k l
    using unread_mono by (intro card_mono finite_unread) (meson order_trans)
  have "card (unread (?b1(j := - 1, k := - 1, l := - 1))) < card (unread buf)" for j k l
    using le less by (rule le_less_trans)
  then show ?thesis using assms(1) by (simp add: read_row_def consume_eq step_index_le)
qed

lemma monitor_loop_total:
  "i \<le> BUFD_MAX \<Longrightarrow> card (unread buf) < fuel \<Longrightarrow> \<exists>rows buf'. monitor_loop fuel buf i = Some (Inr (rows, buf'))"
proof (induction fuel arbitrary: buf i)
  case (Suc fuel)
  show ?case
  proof (cases "buf i = - 1")
    case True
    then show ?thesis using Suc.prems(1) by (simp add: long_at_def sizes)
  next
    case False
    obtain r b j where "read_row buf i = Inr (r, b, j)" "j \<le> BUFD_MAX" "card (unread b) < card (unread buf)"
      using read_row_less [of i buf] Suc.prems(1) False by blast
    moreover obtain rows b' where "monitor_loop fuel b j = Some (Inr (rows, b'))"
      using Suc.IH [OF calculation(2)] calculation(3) Suc.prems(2) by (meson less_Suc_eq_le less_le_trans)
    ultimately show ?thesis using False Suc.prems(1) by (simp add: long_at_def sizes)
  qed
qed simp

lemma monitor_loop_length: "monitor_loop fuel buf i = Some (Inr (rows, b)) \<Longrightarrow> length rows < fuel"
  by (induction fuel arbitrary: buf i rows) (auto simp: result_simps split: sum.splits if_splits)

lemma find_start_total: "i \<le> BUFD_MAX \<Longrightarrow> \<exists>j. find_start buf i = Inr j \<and> j \<le> BUFD_MAX"
  by (induction buf i rule: find_start.induct)
    (subst find_start.simps, auto simp: long_at_def sizes)

lemma unread_card: "card (unread buf) \<le> 48001"
proof -
  have "unread buf \<subseteq> {..BUFD_MAX}" by (auto simp: unread_def)
  from card_mono [OF _ this] show ?thesis by (simp add: sizes)
qed

text \<open>On a buffer whose entries are all unread the loop prints it row by row.\<close>

definition wipe :: "nat \<Rightarrow> (nat \<Rightarrow> u64) \<Rightarrow> nat \<Rightarrow> u64" where
  "wipe i buf = buf(4 * i := - 1, 4 * i + 1 := - 1, 4 * i + 2 := - 1, 4 * i + 3 := - 1)"

lemma wipe_at: "wipe i buf j = (if 4 * i \<le> j \<and> j < 4 * Suc i then - 1 else buf j)"
  by (auto simp: wipe_def)

lemma read_row_aligned:
  assumes "i < 12000"
  shows "read_row buf (4 * i) =
    Inr (row buf i, wipe i buf, if Suc i = 12000 then 0 else 4 * Suc i)"
  using assms by (simp add: read_row_def consume_eq step_index_def sizes row_def wipe_def numeral_3_eq_3)

lemma monitor_loop_rows:
  assumes "n \<le> 12000" "\<forall>j<48000. buf j = (if j < 4 * (12000 - n) then - 1 else buf0 j)"
    "\<forall>j<48000. buf0 j \<noteq> - 1" "n < fuel"
  shows "\<exists>b. monitor_loop fuel buf (if n = 0 then 0 else 4 * (12000 - n)) =
    Some (Inr (map (row buf0) [12000 - n..<12000], b)) \<and> (\<forall>j<48000. b j = - 1) \<and> (\<forall>j\<ge>48000. b j = buf j)"
  using assms
proof (induction n arbitrary: buf fuel)
  case 0
  then show ?case by (cases fuel) (auto simp: long_at_def sizes)
next
  case (Suc n)
  let ?i = "12000 - Suc n"
  let ?b = "wipe ?i buf"
  obtain f where f: "fuel = Suc f" using Suc.prems(4) by (cases fuel) auto
  have i: "?i < 12000" "Suc ?i = 12000 - n" "12000 - n = 12000 \<longleftrightarrow> n = 0" using Suc.prems(1) by auto
  have ne: "buf (4 * ?i) \<noteq> - 1" using Suc.prems(2,3) i(1) by simp
  have rows: "row buf ?i = row buf0 ?i" using Suc.prems(2) i(1) by (simp add: row_def)
  have "\<forall>j<48000. ?b j = (if j < 4 * (12000 - n) then - 1 else buf0 j)"
    using Suc.prems(2) i(2) by (auto simp: wipe_at)
  then obtain b where b: "monitor_loop f ?b (if n = 0 then 0 else 4 * (12000 - n)) =
      Some (Inr (map (row buf0) [12000 - n..<12000], b))" "\<forall>j<48000. b j = - 1"
      "\<forall>j\<ge>48000. b j = ?b j"
    using Suc.IH [of ?b f] Suc.prems f by auto
  have "\<forall>j\<ge>48000. ?b j = buf j" using Suc.prems(1) by (auto simp: wipe_at)
  moreover have "[?i..<12000] = ?i # [12000 - n..<12000]" using i by (simp add: upt_conv_Cons)
  ultimately show ?case
    using b ne rows i read_row_aligned [OF i(1), of buf]
    by (intro exI [of _ b], cases "n = 0") (simp_all add: f long_at_def sizes)
qed

text \<open>The program around the loop: the descriptor it opened is closed again.\<close>

definition monitor_done :: "int \<Rightarrow> monitor_state" where
  "monitor_done fd = \<lparr>buf_fd = -1, buf_len = NPAGES * getpagesize, closed_fds = [fd]\<rparr>"

lemma monitor_main_ok:
  assumes "0 \<le> fd" "find_start m 0 = Inr i" "monitor_loop fuel m i = Some (Inr (rows, b))"
  shows "monitor_main fuel fd (Some m) = Some (Inr (0, monitor_text rows, monitor_done fd, Some b))"
  using assms by (simp add: monitor_main_def buf_init_def monitor_static_def buf_exit_def monitor_done_def)

text \<open>
  The search leaves \<open>index\<close> at \<open>BUFD_MAX\<close> when all the entries before it are read, and the loop
  starts there: at an entry that belongs to the mapping but not to the part it reads.
\<close>

lemma find_start_none: "i \<le> BUFD_MAX \<Longrightarrow> \<forall>j<BUFD_MAX. i \<le> j \<longrightarrow> buf j = - 1 \<Longrightarrow> find_start buf i = Inr BUFD_MAX"
proof (induction buf i rule: find_start.induct)
  case (1 buf i)
  show ?case
  proof (cases "i < BUFD_MAX")
    case True
    then have "find_start buf (Suc i) = Inr BUFD_MAX" using 1 by (simp add: long_at_def sizes)
    then show ?thesis using True 1 by (subst find_start.simps) (simp add: long_at_def sizes)
  next
    case False
    then show ?thesis using 1 by (subst find_start.simps) simp
  qed
qed

lemma monitor_loop_rerun:
  assumes "\<forall>j<48000. buf j = - 1" "2 \<le> fuel"
  shows "monitor_loop fuel buf BUFD_MAX =
    (if buf 48000 = - 1 then Some (Inr ([], buf))
     else Some (Inr ([[buf 48000, - 1, - 1, - 1]], buf(48000 := - 1))))"
proof (cases "buf 48000 = - 1")
  case True
  then show ?thesis using assms(2) by (cases fuel) (auto simp: long_at_def sizes)
next
  case False
  obtain f where f: "fuel = Suc (Suc f)" using assms(2) by (metis Suc_le_D numeral_2_eq_2 Suc_le_mono)
  have same: "buf(48000 := - 1, 0 := - 1, 1 := - 1, 2 := - 1) = buf(48000 := - 1)"
    using assms(1) by (auto simp: fun_eq_iff)
  have "read_row buf BUFD_MAX = Inr ([buf 48000, - 1, - 1, - 1], buf(48000 := - 1), 3)"
    using assms(1) same by (simp add: read_row_def consume_eq step_index_def sizes numeral_2_eq_2 numeral_3_eq_3)
  then show ?thesis using False assms(1) by (simp add: f long_at_def sizes)
qed

section \<open>The workload\<close>

definition in_blocks :: "int \<Rightarrow> int \<times> int \<Rightarrow> bool" where
  "in_blocks msize t \<longleftrightarrow> 0 \<le> fst t \<and> fst t < msize \<and> 0 \<le> snd t \<and> snd t < 1024 * 1024"

lemma sdiv_nonneg: "0 \<le> x \<Longrightarrow> 0 < d \<Longrightarrow> x sdiv d = x div (d :: int)"
  by (auto simp: signed_divide_int_def sgn_if)

lemma smod_nonneg: "0 \<le> x \<Longrightarrow> 0 < d \<Longrightarrow> x smod d = x mod (d :: int)"
  by (auto simp: signed_modulo_int_def sgn_if)

lemma div_less_of_less_mult: "0 < d \<Longrightarrow> (x :: int) < m * d \<Longrightarrow> x div d < m"
  using div_mult_mod_eq [of x d] pos_mod_sign [of d x] by (smt (verit) mult_right_less_imp_less)

lemma rand_access_in_blocks:
  assumes "1 \<le> msize" "0 \<le> r"
  shows "in_blocks msize (rand_access msize r)"
proof -
  let ?t = "r mod (msize * 1048576)"
  have "r smod (msize * 1048576) = ?t" using assms by (simp add: smod_nonneg)
  moreover have t: "0 \<le> ?t" "?t < msize * 1048576" using assms by simp_all
  moreover have "?t sdiv 1024 sdiv 1024 = ?t div 1048576"
    using t(1) by (simp add: sdiv_nonneg zdiv_zmult2_eq [of 1024 _ 1024, simplified] pos_imp_zdiv_nonneg_iff)
  ultimately have "rand_access msize r = (?t div 1048576, ?t - ?t div 1048576 * 1048576)"
    by (simp add: rand_access_def mult.assoc Let_def)
  moreover have "?t - ?t div 1048576 * 1048576 = ?t mod 1048576" by (simp add: minus_div_mult_eq_mod)
  moreover have "?t div 1048576 < msize" using t by (intro div_less_of_less_mult) auto
  ultimately show ?thesis using t by (simp add: in_blocks_def pos_imp_zdiv_nonneg_iff)
qed

lemma access_loop_in_blocks:
  assumes "1 \<le> msize" "\<forall>n. 0 \<le> rnd n"
  shows "\<forall>t \<in> set (fst (access_loop temporal msize rnd j n addr)). in_blocks msize t"
  using assms
  by (induction temporal msize rnd j n addr rule: access_loop.induct)
    (auto simp: Let_def rand_access_in_blocks split: prod.splits)

lemma work_iterations_in_blocks:
  assumes "1 \<le> msize" "\<forall>n. 0 \<le> rnd n"
  shows "Touch t \<in> set (work_iterations temporal msize naccess rnd me k left n addr) \<Longrightarrow> in_blocks msize t"
proof (induction left arbitrary: k n addr)
  case (Suc left)
  obtain ts n' addr' where l: "access_loop temporal msize rnd naccess n addr = (ts, n', addr')"
    by (cases "access_loop temporal msize rnd naccess n addr") auto
  then have "\<forall>t\<in>set ts. in_blocks msize t" using access_loop_in_blocks [OF assms, of temporal naccess n addr] by simp
  then show ?case using Suc l by auto
qed simp

lemma parse_status_line:
  assumes "c = CHR ''R'' \<or> c = CHR ''U''"
  shows "parse_command_mp3 k (status_line [c] me @ [newline]) =
    Inr (if c = CHR ''R'' then Register me else Unregister me)"
proof -
  have sp: "CHR '' '' \<notin> set (show_u me)" by (rule u32_codec.print_no_char) (simp add: is_digit_def)
  have "NUL \<notin> set (status_line [c] me)"
    using digits_no_NUL assms by (auto simp: status_line_def) (simp_all add: NUL_def)
  then have s: "cstr ((status_line [c] me @ [newline]) @ beyond k) = c # CHR '' '' # show_u me @ newline # cstr (beyond k)"
    by (subst line_cstr) (simp_all add: status_line_def)
  obtain r where r: "takeWhile (\<lambda>c. c \<noteq> CHR '' '') (show_u me @ newline # cstr (beyond k)) = show_u me @ newline # r"
    using last_field [OF sp, of "cstr (beyond k)"] by (auto simp: newline_def)
  have "c \<noteq> CHR '' ''" using assms by auto
  then show ?thesis
    using assms s r u32_codec.scan_print_line [of me r]
    by (auto simp: parse_command_mp3_def status_line_def scan_local_Some)
qed

end
