(* ===== verification/Mp3_Stream.thy ===== *)
theory Mp3_Stream
  imports Mp3_App
begin

text \<open>
  The profiler and the monitor in turn: a run of the sampling work pushes its samples into a buffer the monitor has
  drained, and the next run of the monitor prints them. The profiler moves on
  through all its slots, of which the monitor reads the first 12000.
\<close>

section \<open>A series of samples\<close>

fun puts :: "nat \<Rightarrow> u64 list list \<Rightarrow> (nat \<Rightarrow> u64) \<Rightarrow> nat \<Rightarrow> u64" where
  "puts v [] b = b"
| "puts v (x # xs) b = puts (Suc v) xs (put v x b)"

text \<open>The memory of a buffer whose readable part is all read.\<close>

definition drained :: "(nat \<Rightarrow> u64) \<Rightarrow> bool" where
  "drained b \<longleftrightarrow> (\<forall>j\<le>BUFD_MAX. b j = - 1)"

lemma next_slot:
  assumes "unat i < CAP" "unat i + Suc n \<le> CAP"
  shows "unat (next_idx i) < CAP" "unat (next_idx i) + n \<le> CAP"
    "length xs = n \<Longrightarrow> puts (unat (next_idx i)) xs b = puts (Suc (unat i)) xs b"
    "(unat (next_idx i) + n) mod CAP = (unat i + Suc n) mod CAP"
proof -
  have n0: "unat (next_idx i) = Suc (unat i) mod CAP" using assms(1) by (rule unat_next_idx)
  then show "unat (next_idx i) < CAP" by (simp add: CAP_def)
  show "unat (next_idx i) + n \<le> CAP" using n0 assms by (cases "Suc (unat i) = CAP") auto
  show "(unat (next_idx i) + n) mod CAP = (unat i + Suc n) mod CAP" unfolding n0 by (simp add: mod_add_left_eq)
  assume len: "length xs = n"
  show "puts (unat (next_idx i)) xs b = puts (Suc (unat i)) xs b"
  proof (cases "Suc (unat i) = CAP")
    case True
    then have "length xs = 0" using len assms(2) by linarith
    then show ?thesis by simp
  next
    case False
    then show ?thesis using n0 assms(1) by simp
  qed
qed

lemma puts_outside: "j < 4 * v \<or> 4 * (v + length xs) \<le> j \<Longrightarrow> puts v xs b j = b j"
  by (induction xs arbitrary: v b) (auto simp: put_def)

lemma puts_row:
  "i < length xs \<Longrightarrow> c < 4 \<Longrightarrow> puts v xs b (4 * (v + i) + c) = xs ! i ! c"
proof (induction xs arbitrary: v b i)
  case (Cons x xs)
  show ?case
  proof (cases i)
    case 0
    have "puts (Suc v) xs (put v x b) (4 * v + c) = put v x b (4 * v + c)"
      using Cons.prems(2) by (intro puts_outside) simp
    moreover have "put v x b (4 * v + c) = x ! c"
      using Cons.prems(2) by (auto simp: put_def less_Suc_eq numeral_eq_Suc)
    ultimately show ?thesis using 0 by simp
  next
    case (Suc k)
    then show ?thesis using Cons.IH [of k "Suc v" "put v x b"] Cons.prems by simp
  qed
qed simp

lemma wipe_puts_after: "v < w \<Longrightarrow> wipe v (puts w xs b) = puts w xs (wipe v b)"
proof (induction xs arbitrary: w b)
  case (Cons x xs)
  have "wipe v (put w x b) = put w x (wipe v b)" using Cons.prems by (auto simp: fun_eq_iff wipe_def put_def)
  with Cons show ?case by simp
qed simp

lemma wipe_put: "wipe v (put v x b) = wipe v b"
  by (auto simp: fun_eq_iff wipe_def put_def)

lemma wipe_drained: "drained b \<Longrightarrow> v < 12000 \<Longrightarrow> wipe v b = b"
  by (auto simp: fun_eq_iff wipe_at drained_def sizes)

section \<open>The monitor on a series\<close>

lemma monitor_loop_stream:
  assumes "drained b"
  shows "v + length xs \<le> 12000 \<Longrightarrow> \<forall>x\<in>set xs. length x = 4 \<and> x ! 0 \<noteq> - 1 \<Longrightarrow> length xs < fuel \<Longrightarrow>
    monitor_loop fuel (puts v xs b) (if v = 12000 then 0 else 4 * v) = Some (Inr (xs, b))"
proof (induction xs arbitrary: v fuel)
  case Nil
  then obtain f where "fuel = Suc f" by (cases fuel) auto
  then show ?case using assms Nil by (auto simp: long_at_def sizes drained_def)
next
  case (Cons x xs)
  obtain f where f: "fuel = Suc f" using Cons.prems(3) by (cases fuel) auto
  have v: "v < 12000" using Cons.prems(1) by simp
  let ?m = "puts v (x # xs) b"
  have at: "?m (4 * v + c) = x ! c" if "c < 4" for c using puts_row [of 0 "x # xs" c v b] that by simp
  have r: "row ?m v = x" using at [of 0] at [of 1] at [of 2] at [of 3] list4 [of x] Cons.prems(2) by (simp add: row_def)
  have w: "wipe v ?m = puts (Suc v) xs b"
    using wipe_puts_after [of v "Suc v" xs] wipe_drained [OF assms v] by (simp add: wipe_put)
  have "monitor_loop f (puts (Suc v) xs b) (if Suc v = 12000 then 0 else 4 * Suc v) = Some (Inr (xs, b))"
    using Cons.IH [of "Suc v" f] Cons.prems f by simp
  then show ?case
    using v read_row_aligned [OF v, of ?m] at [of 0] Cons.prems(2) unfolding r w
    by (simp add: f long_at_def sizes)
qed

lemma find_start_first:
  "i \<le> k \<Longrightarrow> k < BUFD_MAX \<Longrightarrow> \<forall>j. i \<le> j \<and> j < k \<longrightarrow> buf j = - 1 \<Longrightarrow> buf k \<noteq> - 1 \<Longrightarrow> find_start buf i = Inr k"
proof (induction buf i rule: find_start.induct)
  case (1 buf i)
  show ?case
  proof (cases "i = k")
    case True
    then show ?thesis using 1 by (subst find_start.simps) (simp add: long_at_def sizes)
  next
    case False
    then have "find_start buf (Suc i) = Inr k" using 1 by (simp add: long_at_def sizes)
    then show ?thesis using 1 False by (subst find_start.simps) (simp add: long_at_def sizes)
  qed
qed

lemma monitor_drained:
  assumes "drained b" "0 \<le> fd" "0 < fuel"
  shows "monitor_main fuel fd (Some b) = Some (Inr (0, monitor_text [], monitor_done fd, Some b))"
proof -
  have "find_start b 0 = Inr BUFD_MAX" using assms(1) by (intro find_start_none) (auto simp: drained_def)
  moreover have "monitor_loop fuel b BUFD_MAX = Some (Inr ([], b))"
    using assms(1,3) by (cases fuel) (auto simp: long_at_def sizes drained_def)
  ultimately show ?thesis using monitor_main_ok [OF assms(2)] by blast
qed

lemma monitor_stream:
  assumes "drained b" "v + length xs \<le> 12000" "\<forall>x\<in>set xs. length x = 4 \<and> x ! 0 \<noteq> - 1" "0 \<le> fd" "length xs < fuel"
  shows "monitor_main fuel fd (Some (puts v xs b)) = Some (Inr (0, monitor_text xs, monitor_done fd, Some b))"
proof (cases xs)
  case Nil
  then show ?thesis using monitor_drained [OF assms(1,4), of fuel] assms(5) by simp
next
  case (Cons x ys)
  have v: "v < 12000" using Cons assms(2) by simp
  have "puts v xs b (4 * v) \<noteq> - 1" using puts_row [of 0 xs 0 v b] assms(3) Cons by simp
  moreover have "puts v xs b j = - 1" if "j < 4 * v" for j
    using puts_outside [of j v xs b] assms(1) that v by (simp add: drained_def sizes)
  ultimately have "find_start (puts v xs b) 0 = Inr (4 * v)"
    using v by (intro find_start_first) (auto simp: sizes)
  then show ?thesis
    using monitor_loop_stream [OF assms(1,2,3,5)] v monitor_main_ok [OF assms(4)] by simp
qed

text \<open>Samples behind the part that is read leave it drained.\<close>

lemma drained_puts: "drained b \<Longrightarrow> 12000 < v \<Longrightarrow> drained (puts v xs b)"
  by (auto simp: drained_def sizes puts_outside)

lemma scast_mark: "p \<noteq> - 1 \<Longrightarrow> scast (p :: u32) \<noteq> (- 1 :: u64)"
proof
  assume p: "p \<noteq> - 1" and mark: "scast p = (- 1 :: u64)"
  have "ucast (scast p :: u64) = p" by (rule bit_word_eqI) (auto simp: bit_simps)
  moreover have "ucast (- 1 :: u64) = (- 1 :: u32)" by code_simp
  ultimately show False using p mark by metis
qed

section \<open>A run of the work\<close>

text \<open>
  The sampling loop stores the samples of a list of living processes in consecutive slots, as a series
  of pushes does.
\<close>

lemma sample_loop_puts:
  assumes "vmem_buf s = Some b" "unat (vmem_idx s) < CAP" "unat (vmem_idx s) + length ts \<le> CAP"
    "distinct (map (home k) ts)" "\<forall>t\<in>set ts. alive k t"
  shows "\<exists>ts' c i. sample_loop k ts s = Inr (True, ts', s\<lparr>counters := c,
      vmem_buf := Some (puts (unat (vmem_idx s)) (map (\<lambda>t. sample (pid t) (counters s (home k t))) ts) b), vmem_idx := i\<rparr>) \<and>
    unat i = (unat (vmem_idx s) + length ts) mod CAP"
  using assms
proof (induction ts arbitrary: s b)
  case Nil
  then show ?case by (intro exI [of _ "[]"] exI [of _ "counters s"] exI [of _ "vmem_idx s"]) simp
next
  case (Cons t ts)
  let ?i = "vmem_idx s" and ?c = "counters s (home k t)"
  let ?s1 = "s\<lparr>counters := (counters s)(home k t := zero_counters),
    vmem_buf := Some (put (unat ?i) (sample (pid t) ?c) b), vmem_idx := next_idx ?i\<rparr>"
  let ?xs = "map (\<lambda>t. sample (pid t) (counters s (home k t))) ts"
  have "unat ?i + Suc (length ts) \<le> CAP" using Cons.prems(3) by simp
  note slot = next_slot [OF Cons.prems(2) this]
  have other: "home k u \<noteq> home k t" if "u \<in> set ts" for u using Cons.prems(4) that by simp (metis imageI)
  then have same: "map (\<lambda>t. sample (pid t) (counters ?s1 (home k t))) ts = ?xs" by auto
  obtain ts' c j where "sample_loop k ts ?s1 = Inr (True, ts', ?s1\<lparr>counters := c,
      vmem_buf := Some (puts (unat (next_idx ?i)) (map (\<lambda>t. sample (pid t) (counters ?s1 (home k t))) ts)
        (put (unat ?i) (sample (pid t) ?c) b)), vmem_idx := j\<rparr>)"
    "unat j = (unat (next_idx ?i) + length ts) mod CAP"
    using Cons.IH [of ?s1 "put (unat ?i) (sample (pid t) ?c) b"] Cons.prems slot(1,2) by auto
  then show ?case using Cons.prems slot(3) [of ?xs] slot(4) unfolding same
    by (auto simp: sample_loop_alive)
qed

lemma run_work_puts:
  assumes "\<not> lock s" "wq s" "honest k" "distinct (pids_mp3 s)" "\<forall>t\<in>set (tl s). alive k t"
    "vmem_buf s = Some b" "unat (vmem_idx s) < CAP" "unat (vmem_idx s) + length (tl s) \<le> CAP"
  shows "\<exists>t. run_work k s = Inr t \<and> pending t \<and> \<not> lock t \<and>
    vmem_buf t = Some (puts (unat (vmem_idx s)) (map (\<lambda>t. sample (pid t) (counters s (home k t))) (tl s)) b) \<and>
    unat (vmem_idx t) = (unat (vmem_idx s) + length (tl s)) mod CAP"
proof -
  have "takeWhile (alive k) (tl s) = tl s" using assms(5) by (simp add: takeWhile_eq_all_conv)
  then have "distinct (map (home k) (tl s))"
    using distinct_homes [OF assms(3), of "tl s"] assms(4) by (simp only: pids_mp3_def)
  then show ?thesis
    using sample_loop_puts [of "s\<lparr>running := False, lock := True\<rparr>" b "tl s" k] assms
    by (auto simp: run_work_def wq_handler_def queue_delayed_work_def Let_def)
qed

text \<open>A run of the work on a drained buffer, and the monitor after it.\<close>

lemma run_work_stream:
  assumes "\<not> lock s" "wq s" "honest k" "distinct (pids_mp3 s)" "\<forall>t\<in>set (tl s). alive k t \<and> pid t \<noteq> - 1"
    "vmem_buf s = Some b" "drained b" "unat (vmem_idx s) < CAP" "unat (vmem_idx s) + length (tl s) \<le> CAP"
    "0 \<le> fd" "length (tl s) < fuel"
  shows "\<exists>t m. run_work k s = Inr t \<and> vmem_buf t = Some m \<and>
    unat (vmem_idx t) = (unat (vmem_idx s) + length (tl s)) mod CAP \<and>
    (unat (vmem_idx s) + length (tl s) \<le> 12000 \<longrightarrow> monitor_main fuel fd (Some m) =
      Some (Inr (0, monitor_text (map (\<lambda>t. sample (pid t) (counters s (home k t))) (tl s)), monitor_done fd, Some b))) \<and>
    (12000 < unat (vmem_idx s) \<longrightarrow>
      monitor_main fuel fd (Some m) = Some (Inr (0, monitor_text [], monitor_done fd, Some m)))"
proof -
  let ?xs = "map (\<lambda>t. sample (pid t) (counters s (home k t))) (tl s)"
  have "\<forall>t\<in>set (tl s). alive k t" using assms(5) by simp
  from run_work_puts [OF assms(1-4) this assms(6,8,9)] obtain t where t: "run_work k s = Inr t"
      "vmem_buf t = Some (puts (unat (vmem_idx s)) ?xs b)"
      "unat (vmem_idx t) = (unat (vmem_idx s) + length (tl s)) mod CAP"
    by blast
  have "\<forall>x\<in>set ?xs. length x = 4 \<and> x ! 0 \<noteq> - 1"
    using assms(5) scast_mark by (auto simp: sample_def)
  then have "unat (vmem_idx s) + length (tl s) \<le> 12000 \<Longrightarrow>
      monitor_main fuel fd (Some (puts (unat (vmem_idx s)) ?xs b)) = Some (Inr (0, monitor_text ?xs, monitor_done fd, Some b))"
    using monitor_stream [OF assms(7), of "unat (vmem_idx s)" ?xs fd fuel] assms(10,11) by simp
  then show ?thesis
    using t monitor_drained [OF drained_puts [OF assms(7)] assms(10)] assms(11) by (intro exI [of _ t]) auto
qed

end
