(* ===== verification/Mp3_Shared.thy ===== *)
theory Mp3_Shared
  imports Mp3_Stream
begin

text \<open>
  The buffer while profiler and monitor run at the same time, on two processors. No lock covers both, so they
  are cut at every access to the shared memory: the profiler between the four stores of a
  sample, the monitor between testing, printing and erasing an entry.
\<close>

section \<open>The profiler's side\<close>

text \<open>The statements of \<open>vmem_buf_push_next\<close>; the last one moves the index on, which the monitor never reads.\<close>

datatype store_pc = Store_pid | Store_minor | Store_major | Store_util | Advance

fun push_step :: "store_pc \<Rightarrow> u32 \<Rightarrow> u64 \<Rightarrow> u64 \<Rightarrow> u64 \<Rightarrow> mp3_state \<Rightarrow> mp3_state result" where
  "push_step Store_pid p minor major util s = vmem_store (4 * vmem_idx s + PID) (scast p) s"
| "push_step Store_minor p minor major util s = vmem_store (4 * vmem_idx s + MINOR) minor s"
| "push_step Store_major p minor major util s = vmem_store (4 * vmem_idx s + MAJOR) major s"
| "push_step Store_util p minor major util s = vmem_store (4 * vmem_idx s + UTIL) (util_percent util) s"
| "push_step Advance p minor major util s =
     (let s = s\<lparr>vmem_idx := vmem_idx s + 1\<rparr> in
      Inr (if of_nat VMEM_SIZE \<le> 4 * vmem_idx s then s\<lparr>vmem_idx := 0\<rparr> else s))"

text \<open>The statement that follows; after the last one comes the next sample.\<close>

fun next_store :: "store_pc \<Rightarrow> store_pc" where
  "next_store Store_pid = Store_minor"
| "next_store Store_minor = Store_major"
| "next_store Store_major = Store_util"
| "next_store Store_util = Advance"
| "next_store Advance = Store_pid"

lemma push_in_steps:
  "vmem_buf_push_next p minor major util sampled s =
     rbind (push_step Store_pid p minor major util s) (\<lambda>s.
     rbind (push_step Store_minor p minor major util s) (\<lambda>s.
     rbind (push_step Store_major p minor major util s) (\<lambda>s.
     rbind (push_step Store_util p minor major util s) (push_step Advance p minor major util))))"
proof -
  have "push_step Advance p minor major util = (\<lambda>s. let s = s\<lparr>vmem_idx := vmem_idx s + 1\<rparr> in
      Inr (if of_nat VMEM_SIZE \<le> 4 * vmem_idx s then s\<lparr>vmem_idx := 0\<rparr> else s))"
    by (rule ext) (simp only: push_step.simps)
  then show ?thesis by (simp only: vmem_buf_push_next_def push_step.simps)
qed

section \<open>The monitor's side\<close>

text \<open>
  \<open>Print c i\<close> and \<open>Erase c i\<close> are the two statements on column \<open>c\<close> of a row, at index \<open>i\<close>; what is printed is
  the list of values.
\<close>

datatype monitor_pc = Search nat | Test nat | Print nat nat | Erase nat nat | Stop

fun monitor_step ::
    "monitor_pc \<Rightarrow> u64 list \<Rightarrow> (nat \<Rightarrow> u64) \<Rightarrow> (monitor_pc \<times> u64 list \<times> (nat \<Rightarrow> u64)) result" where
  "monitor_step (Search index) out buf =
     (if index < BUFD_MAX
      then rbind (long_at buf index) (\<lambda>v. Inr (if v \<noteq> - 1 then Test index else Search (Suc index), out, buf))
      else Inr (Test index, out, buf))"
| "monitor_step (Test index) out buf =
     rbind (long_at buf index) (\<lambda>v. Inr (if v \<noteq> - 1 then Print 0 index else Stop, out, buf))"
| "monitor_step (Print c index) out buf =
     rbind (long_at buf index) (\<lambda>v. Inr (Erase c index, out @ [v], buf))"
| "monitor_step (Erase c index) out buf =
     (if index < MAP_LONGS
      then (let index' = (if BUFD_MAX \<le> Suc index then 0 else Suc index) in
            Inr (if c = 3 then Test index' else Print (Suc c) index', out, buf(index := - 1)))
      else Inl BufferOverflow)"
| "monitor_step Stop out buf = Inr (Stop, out, buf)"

section \<open>Both\<close>

record shared =
  prof :: mp3_state
  todo :: "(u32 \<times> cpu_counters) list"
  stores :: store_pc
  mon :: monitor_pc
  printed :: "u64 list"

datatype actor = Profiler | Monitor

fun shared_turn :: "actor \<Rightarrow> shared \<Rightarrow> shared result" where
  "shared_turn Profiler x =
     (case todo x of
        [] \<Rightarrow> Inr x
      | (p, c) # ps \<Rightarrow>
          rbind (push_step (stores x) p (k_min_flt c) (k_maj_flt c) (k_utime c + k_stime c) (prof x)) (\<lambda>s.
          Inr (x\<lparr>prof := s, stores := next_store (stores x), todo := if stores x = Advance then ps else todo x\<rparr>)))"
| "shared_turn Monitor x =
     (case vmem_buf (prof x) of
        None \<Rightarrow> Inl NullDeref
      | Some buf \<Rightarrow>
          rbind (monitor_step (mon x) (printed x) buf) (\<lambda>(pc, out, buf).
          Inr (x\<lparr>mon := pc, printed := out, prof := (prof x)\<lparr>vmem_buf := Some buf\<rparr>\<rparr>)))"

fun shared_turns :: "actor list \<Rightarrow> shared \<Rightarrow> shared result" where
  "shared_turns [] x = Inr x"
| "shared_turns (a # as) x = rbind (shared_turn a x) (shared_turns as)"

lemma shared_turns_append: "shared_turns (as @ bs) x = rbind (shared_turns as x) (shared_turns bs)"
proof (induction as arbitrary: x)
  case (Cons a as)
  then show ?case by (cases "shared_turn a x") simp_all
qed simp

section \<open>One side alone\<close>

fun push_all :: "(u32 \<times> cpu_counters) list \<Rightarrow> mp3_state \<Rightarrow> mp3_state result" where
  "push_all [] s = Inr s"
| "push_all ((p, c) # ps) s =
     rbind (vmem_buf_push_next p (k_min_flt c) (k_maj_flt c) (k_utime c + k_stime c) 0 s) (push_all ps)"

lemma profiler_alone:
  "stores x = Store_pid \<Longrightarrow>
   shared_turns (replicate (5 * length (todo x)) Profiler) x =
     rbind (push_all (todo x) (prof x)) (\<lambda>s. Inr (x\<lparr>prof := s, todo := []\<rparr>))"
proof (induction "todo x" arbitrary: x)
  case Nil
  then show ?case by (cases x) simp
next
  case (Cons q ps)
  obtain p c where q: "q = (p, c)" by (cases q)
  have todo: "todo x = (p, c) # ps" using Cons.hyps(2) q by simp
  have five: "5 * length (todo x) = Suc (Suc (Suc (Suc (Suc (5 * length ps)))))" by (simp add: todo)
  have IH: "shared_turns (replicate (5 * length ps) Profiler) (x\<lparr>prof := s, stores := Store_pid, todo := ps\<rparr>) =
      rbind (push_all ps s) (\<lambda>t. Inr (x\<lparr>prof := t, todo := []\<rparr>))" for s
    using Cons.hyps(1) [of "x\<lparr>prof := s, stores := Store_pid, todo := ps\<rparr>"] Cons.prems by (cases x) simp
  show ?case
    unfolding five using Cons.prems todo IH by (simp add: push_in_steps rbind_assoc Let_def)
qed

text \<open>The monitor's program counter, its output and the memory, with everything else of a state.\<close>

abbreviation at_monitor :: "shared \<Rightarrow> monitor_pc \<Rightarrow> u64 list \<Rightarrow> (nat \<Rightarrow> u64) \<Rightarrow> shared" where
  "at_monitor x pc out buf \<equiv> x\<lparr>mon := pc, printed := out, prof := (prof x)\<lparr>vmem_buf := Some buf\<rparr>\<rparr>"

definition monitor_runs :: "monitor_pc \<Rightarrow> u64 list \<Rightarrow> (nat \<Rightarrow> u64) \<Rightarrow> monitor_pc \<Rightarrow> u64 list \<Rightarrow> (nat \<Rightarrow> u64) \<Rightarrow> bool" where
  "monitor_runs pc out buf pc' out' buf' \<longleftrightarrow>
     (\<exists>n. \<forall>x. shared_turns (replicate n Monitor) (at_monitor x pc out buf) = Inr (at_monitor x pc' out' buf'))"

lemma runs_refl: "monitor_runs pc out buf pc out buf"
  unfolding monitor_runs_def by (intro exI [of _ 0]) simp

lemma runs_step:
  assumes "monitor_step pc out buf = Inr (pc1, out1, buf1)" "monitor_runs pc1 out1 buf1 pc' out' buf'"
  shows "monitor_runs pc out buf pc' out' buf'"
proof -
  obtain n where "\<forall>x. shared_turns (replicate n Monitor) (at_monitor x pc1 out1 buf1) = Inr (at_monitor x pc' out' buf')"
    using assms(2) by (auto simp: monitor_runs_def)
  then show ?thesis using assms(1) unfolding monitor_runs_def by (intro exI [of _ "Suc n"]) simp
qed

lemma runs_trans:
  assumes "monitor_runs pc out buf pc1 out1 buf1" "monitor_runs pc1 out1 buf1 pc' out' buf'"
  shows "monitor_runs pc out buf pc' out' buf'"
proof -
  obtain n k where "\<forall>x. shared_turns (replicate n Monitor) (at_monitor x pc out buf) = Inr (at_monitor x pc1 out1 buf1)"
    "\<forall>x. shared_turns (replicate k Monitor) (at_monitor x pc1 out1 buf1) = Inr (at_monitor x pc' out' buf')"
    using assms by (auto simp: monitor_runs_def)
  then show ?thesis unfolding monitor_runs_def
    by (intro exI [of _ "n + k"]) (simp add: replicate_add shared_turns_append)
qed

lemma search_runs: "find_start buf i = Inr k \<Longrightarrow> monitor_runs (Search i) out buf (Test k) out buf"
proof (induction buf i rule: find_start.induct)
  case (1 buf i)
  show ?case
  proof (cases "i < BUFD_MAX")
    case True
    then have at: "long_at buf i = Inr (buf i)" by (simp add: long_at_def sizes)
    show ?thesis
    proof (cases "buf i = - 1")
      case True
      then have "find_start buf (Suc i) = Inr k" using 1(2) at \<open>i < BUFD_MAX\<close> by (subst (asm) find_start.simps) simp
      from 1(1) [OF \<open>i < BUFD_MAX\<close> at _ this] True show ?thesis
        using at \<open>i < BUFD_MAX\<close> by (intro runs_step [of "Search i"]) simp_all
    next
      case False
      then have "i = k" using 1(2) at True by (subst (asm) find_start.simps) simp
      then show ?thesis using False at True by (intro runs_step [OF _ runs_refl]) simp
    qed
  next
    case False
    then have "i = k" using 1(2) by (subst (asm) find_start.simps) simp
    then show ?thesis using False by (intro runs_step [OF _ runs_refl]) simp
  qed
qed

lemma consume_runs:
  assumes "consume buf i = Inr (v, b, j)" "monitor_runs (if c = 3 then Test j else Print (Suc c) j) (out @ [v]) b pc' out' buf'"
  shows "monitor_runs (Print c i) out buf pc' out' buf'"
proof -
  have i: "long_at buf i = Inr (buf i)" "i < MAP_LONGS" "v = buf i" "b = buf(i := - 1)" "j = (if BUFD_MAX \<le> Suc i then 0 else Suc i)"
    using assms(1) by (auto simp: consume_def result_simps long_at_def split: if_splits)
  have 1: "monitor_step (Print c i) out buf = Inr (Erase c i, out @ [v], buf)" using i by simp
  have 2: "monitor_step (Erase c i) (out @ [v]) buf = Inr (if c = 3 then Test j else Print (Suc c) j, out @ [v], b)"
    using i by (simp add: Let_def)
  show ?thesis by (rule runs_step [OF 1 runs_step [OF 2 assms(2)]])
qed

lemma row_runs:
  assumes "read_row buf i = Inr (r, b, j)" "monitor_runs (Test j) (out @ r) b pc' out' buf'"
  shows "monitor_runs (Print 0 i) out buf pc' out' buf'"
proof -
  obtain v0 b0 i0 v1 b1 i1 v2 b2 i2 v3 where c: "consume buf i = Inr (v0, b0, i0)" "consume b0 i0 = Inr (v1, b1, i1)"
      "consume b1 i1 = Inr (v2, b2, i2)" "consume b2 i2 = Inr (v3, b, j)" "r = [v0, v1, v2, v3]"
    using assms(1) by (auto simp: read_row_def result_simps)
  have "monitor_runs (Print 3 i2) (out @ [v0, v1, v2]) b2 pc' out' buf'"
    by (rule consume_runs [OF c(4)]) (use assms(2) c(5) in simp)
  then have "monitor_runs (Print 2 i1) (out @ [v0, v1]) b1 pc' out' buf'"
    by (intro consume_runs [OF c(3)]) (simp add: numeral_3_eq_3)
  then have "monitor_runs (Print 1 i0) (out @ [v0]) b0 pc' out' buf'"
    by (intro consume_runs [OF c(2)]) (simp add: numeral_2_eq_2)
  then show ?thesis by (intro consume_runs [OF c(1)]) simp
qed

lemma loop_runs:
  "monitor_loop fuel buf i = Some (Inr (rows, b)) \<Longrightarrow> monitor_runs (Test i) out buf Stop (out @ concat rows) b"
proof (induction fuel arbitrary: buf i rows out)
  case (Suc fuel)
  obtain v where v: "long_at buf i = Inr v" using Suc.prems by (auto split: sum.splits)
  show ?case
  proof (cases "v = - 1")
    case True
    then show ?thesis using Suc.prems v by (auto intro!: runs_step [OF _ runs_refl])
  next
    case False
    then obtain r b1 j rs where r: "read_row buf i = Inr (r, b1, j)" "monitor_loop fuel b1 j = Some (Inr (rs, b))" "rows = r # rs"
      using Suc.prems v by (auto simp: result_simps split: sum.splits)
    have "monitor_runs (Print 0 i) out buf Stop (out @ concat rows) b"
      using row_runs [OF r(1)] Suc.IH [OF r(2), of "out @ r"] r(3) by simp
    then show ?thesis using False v by (intro runs_step [of "Test i"]) simp_all
  qed
qed simp

section \<open>Every order of turns\<close>

text \<open>
  For a set \<open>V\<close> of values that contains the mark, what is in memory and the samples still to come: the memory
  and the output stay within \<open>V\<close>, and both indices stay within the buffer.
\<close>

fun place :: "monitor_pc \<Rightarrow> nat" where
  "place (Search i) = i"
| "place (Test i) = i"
| "place (Print c i) = i"
| "place (Erase c i) = i"
| "place Stop = 0"

definition shared_inv :: "u64 set \<Rightarrow> shared \<Rightarrow> bool" where
  "shared_inv V x \<longleftrightarrow> (\<exists>b. vmem_buf (prof x) = Some b \<and> (\<forall>j. b j \<in> V)) \<and> unat (vmem_idx (prof x)) < CAP \<and>
     place (mon x) \<le> BUFD_MAX \<and> set (printed x) \<subseteq> V \<and> (\<forall>(p, c)\<in>set (todo x). set (sample p c) \<subseteq> V)"

lemma monitor_step_in:
  assumes "- 1 \<in> V" "\<forall>j. buf j \<in> V" "set out \<subseteq> V" "place pc \<le> BUFD_MAX"
  shows "\<exists>pc' out' buf'. monitor_step pc out buf = Inr (pc', out', buf') \<and> (\<forall>j. buf' j \<in> V) \<and> set out' \<subseteq> V \<and> place pc' \<le> BUFD_MAX"
proof -
  have at: "long_at buf i = Inr (buf i)" if "i \<le> BUFD_MAX" for i using that by (simp add: long_at_def sizes)
  have erase: "\<forall>j. (buf(i := - 1)) j \<in> V" for i using assms(1,2) by simp
  show ?thesis using assms at erase by (cases pc) (auto simp: sizes Let_def)
qed

lemma push_step_in:
  assumes "vmem_buf s = Some b" "\<forall>j. b j \<in> V" "unat (vmem_idx s) < CAP" "set (sample p c) \<subseteq> V"
  shows "\<exists>t b'. push_step pc p (k_min_flt c) (k_maj_flt c) (k_utime c + k_stime c) s = Inr t \<and>
    vmem_buf t = Some b' \<and> (\<forall>j. b' j \<in> V) \<and> unat (vmem_idx t) < CAP"
proof (cases "pc = Advance")
  case True
  let ?i = "vmem_idx s"
  have "push_step Advance p (k_min_flt c) (k_maj_flt c) (k_utime c + k_stime c) s = Inr (s\<lparr>vmem_idx := next_idx ?i\<rparr>)"
    using wrap_iff [OF assms(3)] by (simp add: Let_def next_idx_def)
  moreover have "unat (next_idx ?i) < CAP" using unat_next_idx [OF assms(3)] by (simp add: CAP_def)
  ultimately show ?thesis using True assms by simp
next
  case False
  have put: "\<forall>j. (b(i := v)) j \<in> V" if "v \<in> set (sample p c)" for i v using that assms(2,4) by auto
  show ?thesis using False assms(1,3) put
    by (cases pc) (simp_all add: vmem_store_eq field_unat sample_def del: fun_upd_apply)
qed

lemma shared_turn_inv:
  assumes "- 1 \<in> V" "shared_inv V x"
  shows "\<exists>y. shared_turn a x = Inr y \<and> shared_inv V y"
proof -
  obtain b where b: "vmem_buf (prof x) = Some b" "\<forall>j. b j \<in> V" using assms(2) by (auto simp: shared_inv_def)
  note x = assms(2) [unfolded shared_inv_def]
  show ?thesis
  proof (cases a)
    case Profiler
    show ?thesis
    proof (cases "todo x")
      case Nil
      then show ?thesis using Profiler assms(2) by simp
    next
      case (Cons q ps)
      obtain p c where q: "q = (p, c)" by (cases q)
      have "set (sample p c) \<subseteq> V" "unat (vmem_idx (prof x)) < CAP" using x Cons q by auto
      then obtain t b' where t: "push_step (stores x) p (k_min_flt c) (k_maj_flt c) (k_utime c + k_stime c) (prof x) = Inr t"
          "vmem_buf t = Some b'" "(\<forall>j. b' j \<in> V)" "unat (vmem_idx t) < CAP"
        using push_step_in [OF b] by blast
      have "shared_turn a x = Inr (x\<lparr>prof := t, stores := next_store (stores x),
          todo := if stores x = Advance then ps else todo x\<rparr>)"
        unfolding Profiler shared_turn.simps Cons q list.case prod.case t(1) rbind.simps ..
      then show ?thesis using x t(2-4) Cons
        by (intro exI [of _ "x\<lparr>prof := t, stores := next_store (stores x), todo := if stores x = Advance then ps else todo x\<rparr>"])
          (simp add: shared_inv_def)
    qed
  next
    case Monitor
    obtain pc out buf where m: "monitor_step (mon x) (printed x) b = Inr (pc, out, buf)" "\<forall>j. buf j \<in> V" "set out \<subseteq> V"
        "place pc \<le> BUFD_MAX"
      using monitor_step_in [OF assms(1) b(2)] x by blast
    have "shared_turn a x = Inr (at_monitor x pc out buf)"
      unfolding Monitor shared_turn.simps b(1) option.case m(1) rbind.simps prod.case ..
    then show ?thesis using x m(2-4) by (intro exI [of _ "at_monitor x pc out buf"]) (simp add: shared_inv_def)
  qed
qed

lemma shared_turns_inv:
  "- 1 \<in> V \<Longrightarrow> shared_inv V x \<Longrightarrow> \<exists>y. shared_turns as x = Inr y \<and> shared_inv V y"
proof (induction as arbitrary: x)
  case (Cons a as)
  obtain y where "shared_turn a x = Inr y" "shared_inv V y" using shared_turn_inv [OF Cons.prems] by blast
  then show ?case using Cons.IH [OF Cons.prems(1)] by simp
qed simp

section \<open>A torn sample\<close>

lemma torn_first:
  assumes "drained b" "v < 12000" "x \<noteq> - 1"
  shows "find_start (b(4 * v := x)) 0 = Inr (4 * v)"
    "monitor_loop 2 (b(4 * v := x)) (4 * v) = Some (Inr ([[x, - 1, - 1, - 1]], b))"
proof -
  show "find_start (b(4 * v := x)) 0 = Inr (4 * v)"
    using assms by (intro find_start_first) (auto simp: drained_def sizes)
  have r: "row (b(4 * v := x)) v = [x, - 1, - 1, - 1]" using assms(1,2) by (simp add: row_def drained_def sizes)
  have "wipe v (b(4 * v := x)) = wipe v b" by (auto simp: fun_eq_iff wipe_at)
  then have w: "wipe v (b(4 * v := x)) = b" using wipe_drained [OF assms(1,2)] by simp
  have "b (if Suc v = 12000 then 0 else 4 * Suc v) = - 1" using assms(1,2) by (simp add: drained_def sizes)
  then show "monitor_loop 2 (b(4 * v := x)) (4 * v) = Some (Inr ([[x, - 1, - 1, - 1]], b))"
    using assms(2,3) read_row_aligned [OF assms(2), of "b(4 * v := x)"] unfolding r w numeral_2_eq_2
    by (simp add: long_at_def sizes)
qed

lemma torn_second:
  fixes x y z :: u64
  assumes "drained b" "v < 11999" "x \<noteq> - 1"
  defines "m \<equiv> b(4 * v + 1 := x, 4 * v + 2 := y, 4 * v + 3 := z)"
  shows "find_start m 0 = Inr (4 * v + 1)" "monitor_loop 2 m (4 * v + 1) = Some (Inr ([[x, y, z, - 1]], b))"
proof -
  show "find_start m 0 = Inr (4 * v + 1)"
    unfolding m_def using assms(1-3) by (intro find_start_first) (auto simp: drained_def sizes)
  have at: "b j = - 1" if "j \<le> 4 * v + 5" for j using assms(1,2) that by (simp add: drained_def sizes)
  have "consume m (4 * v + 1) = Inr (x, m(4 * v + 1 := - 1), 4 * v + 2)"
    "consume (m(4 * v + 1 := - 1)) (4 * v + 2) = Inr (y, b(4 * v + 3 := z), 4 * v + 3)"
    "consume (b(4 * v + 3 := z)) (4 * v + 3) = Inr (z, b, 4 * v + 4)"
    "consume b (4 * v + 4) = Inr (- 1, b, 4 * v + 5)"
    using assms(2) at by (auto simp: consume_eq step_index_def sizes m_def fun_eq_iff)
  then have "read_row m (4 * v + 1) = Inr ([x, y, z, - 1], b, 4 * v + 5)"
    by (simp only: read_row_def rbind.simps prod.case)
  then show "monitor_loop 2 m (4 * v + 1) = Some (Inr ([[x, y, z, - 1]], b))"
    using assms(2,3) at unfolding numeral_2_eq_2 by (simp add: long_at_def sizes m_def)
qed

text \<open>The profiler's first store of a sample, and the rest of it.\<close>

lemma first_store:
  assumes "vmem_buf (prof x) = Some b" "unat (vmem_idx (prof x)) < CAP" "stores x = Store_pid" "todo x = (p, c) # ps"
  shows "shared_turn Profiler x =
    Inr (x\<lparr>prof := (prof x)\<lparr>vmem_buf := Some (b(4 * unat (vmem_idx (prof x)) := scast p))\<rparr>, stores := Store_minor\<rparr>)"
  using assms by (simp add: vmem_store_eq field_unat)

lemma other_stores:
  assumes "vmem_buf (prof x) = Some b" "unat (vmem_idx (prof x)) < CAP" "stores x = Store_minor" "todo x = (p, c) # ps"
  defines "v \<equiv> unat (vmem_idx (prof x))"
  shows "shared_turns (replicate 4 Profiler) x =
    Inr (x\<lparr>prof := (prof x)\<lparr>vmem_buf := Some (b(4 * v + 1 := k_min_flt c, 4 * v + 2 := k_maj_flt c,
        4 * v + 3 := util_percent (k_utime c + k_stime c))), vmem_idx := next_idx (vmem_idx (prof x))\<rparr>,
      stores := Store_pid, todo := ps\<rparr>)"
  using assms wrap_iff [OF assms(2)]
  by (simp add: numeral_eq_Suc vmem_store_eq field_unat next_idx_def Let_def v_def)

lemma torn_run:
  assumes "vmem_buf (prof x) = Some b" "drained b" "unat (vmem_idx (prof x)) < 11999"
    "stores x = Store_pid" "todo x = (p, c) # ps" "p \<noteq> - 1" "mon x = Search 0" "printed x = []"
  shows "\<exists>n y. shared_turns (Profiler # replicate n Monitor) x = Inr y \<and> mon y = Stop \<and> printed y = [scast p, - 1, - 1, - 1] \<and>
    vmem_buf (prof y) = Some b \<and> vmem_idx (prof y) = vmem_idx (prof x) \<and> stores y = Store_minor \<and> todo y = todo x"
proof -
  let ?v = "unat (vmem_idx (prof x))" and ?x = "scast p :: u64"
  have cap: "?v < CAP" using assms(3) by (simp add: CAP_def)
  let ?y = "x\<lparr>prof := (prof x)\<lparr>vmem_buf := Some (b(4 * ?v := ?x))\<rparr>, stores := Store_minor\<rparr>"
  have v: "?v < 12000" using assms(3) by simp
  have "monitor_runs (Test (4 * ?v)) [] (b(4 * ?v := ?x)) Stop ([] @ concat [[?x, - 1, - 1, - 1]]) b"
    using torn_first(2) [OF assms(2) v scast_mark [OF assms(6)]] by (rule loop_runs)
  then have "monitor_runs (Search 0) [] (b(4 * ?v := ?x)) Stop [?x, - 1, - 1, - 1] b"
    using search_runs [OF torn_first(1) [OF assms(2) v scast_mark [OF assms(6)]]] by (auto intro: runs_trans)
  then obtain n where "shared_turns (replicate n Monitor) (at_monitor ?y (Search 0) [] (b(4 * ?v := ?x))) =
      Inr (at_monitor ?y Stop [?x, - 1, - 1, - 1] b)"
    unfolding monitor_runs_def by blast
  moreover have "at_monitor ?y (Search 0) [] (b(4 * ?v := ?x)) = ?y" using assms(7,8) by (cases x) simp
  ultimately have "shared_turns (Profiler # replicate n Monitor) x = Inr (at_monitor ?y Stop [?x, - 1, - 1, - 1] b)"
    using first_store [OF assms(1) cap assms(4,5)] by (simp only: shared_turns.simps rbind.simps)
  then show ?thesis by (intro exI [of _ n] exI [of _ "at_monitor ?y Stop [?x, - 1, - 1, - 1] b"]) simp
qed

end
