(* ===== verification/Mp3_Props.thy ===== *)
theory Mp3_Props
  imports Mp3_Shared
begin

text \<open>
  The properties of the profiler module and of its user programs, each with a witness on a
  concrete state where it has hypotheses.
\<close>

section \<open>Example states\<close>

text \<open>A kernel in which pids_mp3 1 and 2 live, at addresses 1 and 2, and pid 3 does not.\<close>

definition example_mp3 :: mp3_kernel where
  "example_mp3 = \<lparr>pid_task = [1 \<mapsto> 1, 2 \<mapsto> 2], jiffies = 500, node_ok = True, beyond = [], junk_pid = 0\<rparr>"

definition fresh_mp3 :: mp3_state where
  "fresh_mp3 = mp3_static\<lparr>vmem_buf := Some (\<lambda>_. 0), wq := True, proc_entries := [''mp3'', ''mp3/status''], cdev := True\<rparr>"

definition with_pid :: "u32 \<Rightarrow> mp3_state" where
  "with_pid p = fresh_mp3\<lparr>tl := [new_mp3_task example_mp3 p], pending := True\<rparr>"

lemma example_honest: "honest example_mp3"
  by (auto simp: honest_def example_mp3_def split: if_splits)

lemma fresh_reach: "reach mp3_start mp3_step fresh_mp3"
  by (rule reach_start) (simp add: mp3_start_def mp3_init_def TaskList_init_def fresh_mp3_def mp3_static_def)

lemma parse_register: "parse_command_mp3 k (status_line ''R'' p @ [newline]) = Inr (Register p)"
  using parse_status_line [of "CHR ''R''"] by simp

lemma parse_unregister: "parse_command_mp3 k (status_line ''U'' p @ [newline]) = Inr (Unregister p)"
  using parse_status_line [of "CHR ''U''"] by simp

lemma with_pid_reach: "reach mp3_start mp3_step (with_pid p)"
proof (rule reach_step [OF fresh_reach step_write])
  show "mp3_write example_mp3 (status_line ''R'' p @ [newline]) fresh_mp3 =
      Inr (length (status_line ''R'' p @ [newline]), with_pid p)"
    by (simp add: mp3_write_def parse_register Task_register_mp3_eq fresh_mp3_def mp3_static_def with_pid_def)
      (simp add: example_mp3_def)
qed

lemma started_reach: "reach mp3_start mp3_step (start_work (with_pid p))"
  by (rule reach_step [OF with_pid_reach step_expire])
    (simp_all add: with_pid_def fresh_mp3_def mp3_static_def)

section \<open>The buffer and the delayed work\<close>

text \<open>Loaded, pid 1 registered, its process has run, the timer has expired; and that process has faulted and used 15 ticks.\<close>

definition busy_counters :: cpu_counters where
  "busy_counters = \<lparr>k_min_flt = 3, k_maj_flt = 2, k_utime = 10, k_stime = 5\<rparr>"

definition busy_mp3 :: mp3_state where
  "busy_mp3 = start_work ((with_pid 1)\<lparr>counters := (\<lambda>_. busy_counters)\<rparr>)"

lemma busy_recorded: "recorded mp3_start mp3_event [] busy_mp3"
proof -
  let ?line = "status_line ''R'' 1 @ [newline]"
  have fresh: "recorded mp3_start mp3_event [] fresh_mp3"
    by (rule recorded_start) (simp add: mp3_start_def mp3_init_def TaskList_init_def fresh_mp3_def mp3_static_def)
  have "mp3_write example_mp3 ?line fresh_mp3 = Inr (length ?line, with_pid 1)"
    by (simp add: mp3_write_def parse_register Task_register_mp3_eq fresh_mp3_def mp3_static_def with_pid_def)
      (simp add: example_mp3_def)
  from recorded_step [OF recorded_step [OF fresh event_write [OF this]] event_processes]
  have "recorded mp3_start mp3_event [] ((with_pid 1)\<lparr>counters := (\<lambda>_. busy_counters)\<rparr>)" by simp
  from recorded_step [OF this event_expire] show ?thesis
    by (simp add: busy_mp3_def with_pid_def fresh_mp3_def mp3_static_def)
qed

lemma busy_taken: "taken example_mp3 (counters busy_mp3) (tl busy_mp3) = [[1, 3, 2, 75]]"
  by (simp add: busy_mp3_def busy_counters_def start_work_def with_pid_def new_mp3_task_def example_mp3_def sample_def
      util_percent_def)

lemma busy_run: "\<exists>t. run_work example_mp3 busy_mp3 = Inr t \<and> recorded mp3_start mp3_event [[1, 3, 2, 75]] t"
proof -
  have "\<not> lock busy_mp3" "wq busy_mp3" "running busy_mp3" "vmem_buf busy_mp3 = Some (\<lambda>_. 0)" "vmem_idx busy_mp3 = 0"
    "tl busy_mp3 = [new_mp3_task example_mp3 1]"
    by (simp_all add: busy_mp3_def start_work_def with_pid_def fresh_mp3_def mp3_static_def)
  then have "\<exists>m' i. ring_holds ([] @ samples example_mp3 (busy_mp3\<lparr>running := False\<rparr>)) m' i \<and>
      wq_handler example_mp3 (busy_mp3\<lparr>running := False\<rparr>) = Inr (if \<forall>t\<in>set (tl (busy_mp3\<lparr>running := False\<rparr>)). alive example_mp3 t
        then (swept example_mp3 (busy_mp3\<lparr>running := False\<rparr>))\<lparr>vmem_buf := Some m', vmem_idx := i, pending := True\<rparr>
        else (swept example_mp3 (busy_mp3\<lparr>running := False\<rparr>))\<lparr>vmem_buf := Some m', vmem_idx := i, lock := True\<rparr>)"
    using ring_empty by (intro wq_handler_eq [where m = "\<lambda>_. 0"] example_honest) simp_all
  then obtain t where t: "run_work example_mp3 busy_mp3 = Inr t" unfolding run_work_def by blast
  from recorded_step [OF busy_recorded event_work [OF \<open>running busy_mp3\<close> example_honest t]]
  show ?thesis using t by (simp add: busy_taken)
qed

text \<open>
  C24: In every state the module reaches, its calls taken one after the other, the buffer is the ring of all samples taken
  since it was loaded. A run of the started work takes one sample for each process from the front of the list up to the first that
  has ended: its pid, its minor and major faults and its scaled processor time since it was last sampled; the list \<open>h\<close> of these
  samples is recorded along the run, and every reachable state has such a record. The index is the number of
  samples modulo 131072, each slot holds the newest sample that fell on it (four zeros before), and the next push
  stays inside the buffer. Pids are unique. As long as no handler gave up, sampling work is queued or started exactly while a
  process is registered.
\<close>

theorem mp3_reachable_ring:
  assumes "reach mp3_start mp3_step s"
  shows "(\<exists>h. recorded mp3_start mp3_event h s) \<and>
    (\<forall>h. recorded mp3_start mp3_event h s \<longrightarrow> (\<exists>m. vmem_buf s = Some m \<and> unat (vmem_idx s) = length h mod CAP \<and>
      (\<forall>j<CAP. row m j = (case newest j h of None \<Rightarrow> [0, 0, 0, 0] | Some x \<Rightarrow> x)))) \<and>
    4 * unat (vmem_idx s) + 3 < VMEM_SIZE \<and> distinct (pids_mp3 s) \<and>
    (\<not> lock s \<longrightarrow> (pending s \<or> running s) = (tl s \<noteq> []))"
proof -
  have inv: "mp3_inv s" using assms by (rule mp3.reachable_inv)
  obtain h where h: "recorded mp3_start mp3_event h s" using mp3_record.reach_recorded [OF assms] by blast
  have ring: "ring_of g s" if "recorded mp3_start mp3_event g s" for g using that by (rule mp3_record.recorded_inv)
  then have "unat (vmem_idx s) < CAP" using h ring_idx by (auto simp: ring_of_def)
  then have "4 * unat (vmem_idx s) + 3 < VMEM_SIZE" by (simp add: VMEM_SIZE_eq)
  then show ?thesis using inv h ring by (auto simp: mp3_inv_def ring_of_def ring_holds_def)
qed

theorem mp3_reachable_ring_witness:
  "\<exists>t m. run_work example_mp3 busy_mp3 = Inr t \<and> vmem_buf t = Some m \<and> vmem_idx t = 1 \<and>
     row m 0 = [1, 3, 2, 75] \<and> row m 1 = [0, 0, 0, 0]"
proof -
  obtain t where t: "run_work example_mp3 busy_mp3 = Inr t" "recorded mp3_start mp3_event [[1, 3, 2, 75]] t"
    using busy_run by blast
  obtain m where m: "vmem_buf t = Some m" "unat (vmem_idx t) = length [[1, 3, 2, 75 :: u64]] mod CAP"
      "\<forall>j<CAP. row m j = (case newest j [[1, 3, 2, 75]] of None \<Rightarrow> [0, 0, 0, 0] | Some x \<Rightarrow> x)"
    using mp3_reachable_ring [OF mp3_record.recorded_reach [OF t(2)]] t(2) by blast
  have "vmem_idx t = 1" using m(2) by (intro word_unat_eq_iff [THEN iffD2]) (simp add: CAP_def)
  moreover have "row m 0 = [1, 3, 2, 75]" "row m 1 = [0, 0, 0, 0]"
    using m(3) [rule_format, of 0] m(3) [rule_format, of 1] by (simp_all add: CAP_def newest_def)
  ultimately show ?thesis using t(1) m(1) by blast
qed

text \<open>
  C26: When every registered process is alive, a run of the started work pushes exactly one
  sample per process, in list order, made of the counters since the last sampling, zeroes those
  counters, stamps the nodes with the new counts and the time, releases the lock and queues the
  next run.
\<close>

theorem handler_samples_exact:
  assumes "reach mp3_start mp3_step s" "running s" "honest k" "\<forall>t\<in>set (tl s). alive k t"
    and "vmem_buf s = Some m" "ring_holds h m (vmem_idx s)"
  shows "\<exists>m' i. run_work k s = Inr (s\<lparr>
      counters := (\<lambda>a. if a \<in> home k ` set (tl s) then zero_counters else counters s a),
      tl := map (\<lambda>t. refreshed k (counters s (home k t)) t) (tl s),
      vmem_buf := Some m', vmem_idx := i, pending := True, running := False\<rparr>) \<and>
    ring_holds (h @ map (\<lambda>t. sample (pid t) (counters s (home k t))) (tl s)) m' i"
proof -
  have inv: "mp3_inv s" using assms(1) by (rule mp3.reachable_inv)
  let ?s = "s\<lparr>running := False\<rparr>"
  have s: "\<not> lock s" "wq s" "distinct (map pid (tl s))"
    using inv assms(2) by (auto simp: mp3_inv_def pids_mp3_def split: if_splits)
  have p: "present k ?s = tl s" using assms(4) present_all [of k ?s] by simp
  have c: "counters ?s = counters s" by simp
  have d: "dropWhile (alive k) (tl ?s) = []" using assms(4) by (simp add: dropWhile_eq_Nil_conv)
  have samples: "samples k ?s = map (\<lambda>t. sample (pid t) (counters s (home k t))) (tl s)"
    unfolding samples_def p c ..
  have swept: "swept k ?s = s\<lparr>running := False,
      counters := (\<lambda>a. if a \<in> home k ` set (tl s) then zero_counters else counters s a),
      tl := map (\<lambda>t. refreshed k (counters s (home k t)) t) (tl s)\<rparr>"
    unfolding swept_def p c d by simp
  have "\<not> lock ?s" "wq ?s" "distinct (map pid (tl ?s))" "vmem_buf ?s = Some m" "ring_holds h m (vmem_idx ?s)"
    "\<forall>t\<in>set (tl ?s). alive k t"
    using s assms(4-6) by simp_all
  then obtain m' i where "ring_holds (h @ samples k ?s) m' i"
    "wq_handler k ?s = Inr ((swept k ?s)\<lparr>vmem_buf := Some m', vmem_idx := i, pending := True\<rparr>)"
    using wq_handler_all assms(3) by blast
  then show ?thesis unfolding samples swept
    by (intro exI [of _ m'] exI [of _ i]) (simp add: run_work_def)
qed

theorem handler_samples_exact_witness:
  "\<exists>m' i t. run_work example_mp3 (start_work (with_pid 1)) = Inr t \<and> pending t \<and>
     ring_holds [[1, 0, 0, 0]] m' i \<and> vmem_buf t = Some m'"
proof -
  have "\<exists>m' i. run_work example_mp3 (start_work (with_pid 1)) = Inr (start_work (with_pid 1)\<lparr>
      counters := (\<lambda>a. if a \<in> home example_mp3 ` set (tl (start_work (with_pid 1))) then zero_counters
        else counters (start_work (with_pid 1)) a),
      tl := map (\<lambda>t. refreshed example_mp3 (counters (start_work (with_pid 1)) (home example_mp3 t)) t)
        (tl (start_work (with_pid 1))),
      vmem_buf := Some m', vmem_idx := i, pending := True, running := False\<rparr>) \<and>
    ring_holds ([] @ map (\<lambda>t. sample (pid t) (counters (start_work (with_pid 1)) (home example_mp3 t)))
      (tl (start_work (with_pid 1)))) m' i"
    by (rule handler_samples_exact [OF started_reach _ example_honest])
      (use ring_empty in \<open>simp_all add: start_work_def with_pid_def fresh_mp3_def mp3_static_def alive_def
        new_mp3_task_def example_mp3_def\<close>)
  then show ?thesis
    by (fastforce simp: start_work_def with_pid_def fresh_mp3_def mp3_static_def new_mp3_task_def sample_def
        zero_counters_def util_percent_def)
qed

section \<open>Where the module gets stuck\<close>

text \<open>
  If a registered process has ended without unregistering, the next run of the work finds no
  counters for it and returns with the spin lock held and without queueing the next run: from
  then on registering a new pid, deregistering, reading the status file and unloading the
  module wait for ever.
\<close>

theorem dead_process_wedges:
  assumes "reach mp3_start mp3_step s" "running s" "honest k" "t \<in> set (tl s)" "\<not> alive k t"
  shows "\<exists>s'. run_work k s = Inr s' \<and> \<not> pending s' \<and> \<not> running s' \<and> pids_mp3 s' = pids_mp3 s \<and>
    (\<forall>k' p. p \<notin> set (pids_mp3 s) \<and> node_ok k' \<longrightarrow> Task_register_mp3 k' p s' = Inl Deadlock) \<and>
    (\<forall>k' p. Task_deregister_mp3 k' p s' = Inl Deadlock) \<and>
    (\<forall>n. \<not> read_finished s \<longrightarrow> mp3_read n s' = Inl Deadlock) \<and>
    (\<forall>k'. mp3_exit k' s' = Inl Deadlock)"
proof -
  have inv: "mp3_inv s" using assms(1) by (rule mp3.reachable_inv)
  let ?s = "s\<lparr>running := False\<rparr>"
  obtain m h where m: "vmem_buf s = Some m" "ring_holds h m (vmem_idx s)" using inv by (auto simp: mp3_inv_def)
  have s: "\<not> lock s" "wq s" "distinct (map pid (tl s))" "\<not> pending s"
    using inv assms(2) by (auto simp: mp3_inv_def pids_mp3_def split: if_splits)
  have "\<not> lock ?s" "wq ?s" "distinct (map pid (tl ?s))" "vmem_buf ?s = Some m" "ring_holds h m (vmem_idx ?s)"
    "\<not> (\<forall>t\<in>set (tl ?s). alive k t)"
    using s m assms(4,5) by auto
  then obtain m' i where "wq_handler k ?s = Inr ((swept k ?s)\<lparr>vmem_buf := Some m', vmem_idx := i, lock := True\<rparr>)"
    using wq_handler_dead assms(3) by blast
  then have run: "run_work k s = Inr ((swept k ?s)\<lparr>vmem_buf := Some m', vmem_idx := i, lock := True\<rparr>)"
    by (simp only: run_work_def)
  let ?t = "(swept k ?s)\<lparr>vmem_buf := Some m', vmem_idx := i, lock := True\<rparr>"
  have p: "pids_mp3 ?t = pids_mp3 s" using swept_pids [of k ?s] by (simp add: pids_mp3_def)
  have f: "\<not> pending ?t" "\<not> running ?t" "read_finished ?t = read_finished s" using s by (simp_all add: swept_def)
  have "Task_register_mp3 k' q ?t = Inl Deadlock" if "q \<notin> set (pids_mp3 s)" "node_ok k'" for k' q
  proof -
    have "q \<notin> pid ` set (tl ?t)" using that(1) p by (simp add: pids_mp3_def flip: set_map)
    then show ?thesis using that(2) by (simp add: Task_register_mp3_eq)
  qed
  then show ?thesis using run p f
    by (intro exI [of _ ?t]) (simp add: Task_deregister_mp3_eq mp3_read_def mp3_exit_def TaskList_destroy_def)
qed

theorem dead_process_wedges_witness:
  "\<exists>s'. run_work example_mp3 (start_work (with_pid 3)) = Inr s' \<and> mp3_exit example_mp3 s' = Inl Deadlock"
proof -
  have "new_mp3_task example_mp3 3 \<in> set (tl (start_work (with_pid 3)))"
    "\<not> alive example_mp3 (new_mp3_task example_mp3 3)" "running (start_work (with_pid 3))"
    by (simp_all add: start_work_def with_pid_def alive_def new_mp3_task_def example_mp3_def)
  then show ?thesis using dead_process_wedges [OF started_reach _ example_honest] by blast
qed

text \<open>
  The search for a duplicate runs without the lock: two registrations of one new pid that
  both search before either links its node both succeed, and the pid is listed twice. One
  deregistration then leaves the second node behind.
\<close>

theorem registration_race:
  assumes "idle s" "p \<notin> set (pids_mp3 s)"
  shows "\<not> register_known p s \<and>
    (\<exists>s1 s2. register_link (new_mp3_task k p) s = Inr s1 \<and> register_link (new_mp3_task k p) s1 = Inr s2 \<and>
       pids_mp3 s2 = pids_mp3 s @ [p, p] \<and>
       (\<exists>s3. Task_deregister_mp3 k p s2 = Inr (0, s3) \<and> p \<in> set (pids_mp3 s3)))"
proof -
  have s: "\<not> lock s" "wq s" "\<not> running s" using assms(1) by (auto simp: idle_def mp3_inv_def)
  let ?t = "new_mp3_task k p"
  let ?s1 = "s\<lparr>tl := tl s @ [?t], lock := False, pending := pending s \<or> tl s = []\<rparr>"
  let ?s2 = "s\<lparr>tl := tl s @ [?t, ?t], lock := False, pending := pending s \<or> tl s = []\<rparr>"
  have links: "register_link ?t s = Inr ?s1" "register_link ?t ?s1 = Inr ?s2"
    using s by (auto simp: register_link_def queue_delayed_work_def)
  have known: "\<not> register_known p s" using assms(2) by (auto simp: register_known_def pids_mp3_def)
  have p2: "pids_mp3 ?s2 = pids_mp3 s @ [p, p]" by (simp add: pids_mp3_def new_mp3_task_def)
  then obtain ts where ts: "remove_pid p (tl ?s2) = Some ts"
    using remove_pid_None [of p "tl ?s2"] by (auto simp: pids_mp3_def new_mp3_task_def)
  have "map pid ts = remove1 p (pids_mp3 ?s2)" using remove_pid_Some [OF ts] by (simp add: pids_mp3_def)
  then have left: "map pid ts = pids_mp3 s @ [p]" unfolding p2 using assms(2) by (simp add: remove1_append)
  then have "ts \<noteq> []" by auto
  then have "Task_deregister_mp3 k p ?s2 = Inr (0, ?s2\<lparr>tl := ts, lock := False, pending := pending ?s2 \<and> ts \<noteq> []\<rparr>)"
    using ts s by (simp add: Task_deregister_mp3_eq)
  moreover have "p \<in> set (pids_mp3 (?s2\<lparr>tl := ts, lock := False, pending := pending ?s2 \<and> ts \<noteq> []\<rparr>))"
    using left by (simp add: pids_mp3_def flip: set_map)
  ultimately show ?thesis using known links p2 by blast
qed

theorem registration_race_witness:
  "\<exists>s1 s2. register_link (new_mp3_task example_mp3 1) fresh_mp3 = Inr s1 \<and>
     register_link (new_mp3_task example_mp3 1) s1 = Inr s2 \<and> pids_mp3 s2 = [1, 1]"
proof -
  have "idle fresh_mp3" "pids_mp3 fresh_mp3 = []"
    using mp3.reachable_inv [OF fresh_reach]
    by (simp_all add: idle_def fresh_mp3_def mp3_static_def pids_mp3_def)
  with registration_race [of fresh_mp3 1 example_mp3] show ?thesis by auto
qed

section \<open>Sessions, unloading, mapping\<close>

text \<open>
  Some processes register and then deregister, in any order, while no started work waits for the
  lock: the list is back to what it was, and when it was empty no sampling work is left queued.
\<close>

theorem profiler_session:
  assumes "idle s" "call_all request_mp3 qs s = Inr (0, s')" "distinct ps" "set ps = snd ` set qs"
  shows "\<exists>t. call_all (Task_deregister_mp3 k) ps s' = Inr (0, t) \<and> pids_mp3 t = pids_mp3 s \<and>
    (tl s = [] \<longrightarrow> \<not> pending t \<and> \<not> running t)"
proof -
  have "promised (\<lambda>_ _. True) request_mp3 qs s" for s
    by (induction qs arbitrary: s) (auto split: sum.split)
  then obtain t where t: "call_all (Task_deregister_mp3 k) ps s' = Inr (0, t)" "idle t" "pids_mp3 t = pids_mp3 s"
    using mp3_reg.session_balanced [OF assms(1) _ assms(2-4), of k] by blast
  then have "\<not> pending t \<and> \<not> running t" if "tl s = []"
    using that by (auto simp: idle_def mp3_inv_def pids_mp3_def)
  then show ?thesis using t by blast
qed

theorem profiler_session_witness:
  "\<exists>s' t. call_all request_mp3 [(example_mp3, 1), (example_mp3, 2)] fresh_mp3 = Inr (0, s') \<and>
     call_all (Task_deregister_mp3 example_mp3) [1, 2] s' = Inr (0, t) \<and> pids_mp3 t = []"
proof -
  have fresh: "idle fresh_mp3" "pids_mp3 fresh_mp3 = []"
    using mp3.reachable_inv [OF fresh_reach]
    by (simp_all add: idle_def fresh_mp3_def mp3_static_def pids_mp3_def)
  have "\<exists>s'. call_all request_mp3 [(example_mp3, 1), (example_mp3, 2)] fresh_mp3 = Inr (0, s')"
    by (simp add: request_mp3_def Task_register_mp3_eq fresh_mp3_def mp3_static_def new_mp3_task_def)
      (simp add: example_mp3_def)
  then obtain s' where s': "call_all request_mp3 [(example_mp3, 1), (example_mp3, 2)] fresh_mp3 = Inr (0, s')"
    by blast
  have "distinct [1, 2 :: u32]" "set [1, 2 :: u32] = snd ` set [(example_mp3, 1), (example_mp3, 2 :: u32)]"
    by simp_all
  from profiler_session [OF fresh(1) s' this, of example_mp3] s' fresh(2) show ?thesis by auto
qed

text \<open>
  Work that has been started and waits for the lock. Deregistering the last process then deadlocks:
  the handler needs the spin lock that the caller keeps while it flushes the queue. Unloading frees the list, the
  buffer and the status file, and leaves nothing queued if no work was started; a started work
  runs while the queue is flushed, and queues its next run on the work queue that is destroyed right after.
\<close>

theorem started_work_races:
  assumes "reach mp3_start mp3_step s" "\<not> lock s"
  shows "(running s \<and> tl s = [u] \<longrightarrow> Task_deregister_mp3 k (pid u) s = Inl Deadlock) \<and>
    (\<exists>t. mp3_exit k s = Inr t \<and> tl t = [] \<and> vmem_buf t = None \<and> \<not> wq t \<and> \<not> cdev t \<and>
      ''mp3/status'' \<notin> set (proc_entries t) \<and> (pending t \<longleftrightarrow> running s))"
proof -
  have "wq s" "\<not> (pending s \<and> running s)" using mp3.reachable_inv [OF assms(1)] by (auto simp: mp3_inv_def)
  then have "\<exists>t. mp3_exit k s = Inr t \<and> tl t = [] \<and> vmem_buf t = None \<and> \<not> wq t \<and> \<not> cdev t \<and>
      ''mp3/status'' \<notin> set (proc_entries t) \<and> (pending t \<longleftrightarrow> running s)"
    using assms(2)
    by (cases "running s")
      (simp_all add: mp3_exit_def TaskList_destroy_def flush_workqueue_def run_work_def wq_handler_def
        cancel_delayed_work_def queue_delayed_work_def)
  then show ?thesis using assms(2) by (simp add: Task_deregister_mp3_eq)
qed

theorem started_work_races_witness:
  "Task_deregister_mp3 example_mp3 1 (start_work (with_pid 1)) = Inl Deadlock \<and>
   (\<exists>t. mp3_exit example_mp3 (start_work (with_pid 1)) = Inr t \<and> \<not> wq t \<and> pending t)"
  using started_work_races [OF started_reach, of 1 "new_mp3_task example_mp3 1" example_mp3]
  by (auto simp: start_work_def with_pid_def fresh_mp3_def mp3_static_def new_mp3_task_def)

definition pages :: "u64 \<Rightarrow> nat" where
  "pages sz = (unat sz + 4095) div 4096"

lemma pages_Suc: "0 < sz \<Longrightarrow> pages sz = Suc (pages (if PAGE_SIZE < sz then sz - PAGE_SIZE else 0))"
  by (auto simp: pages_def PAGE_SIZE_def word_less_nat_alt unat_sub word_le_nat_alt not_less)

lemma mmap_loop_pages:
  assumes "remap = (\<lambda>_ _. 0)"
  shows "mmap_loop pfn remap start pos sz maps = (0, maps @
    map (\<lambda>i. (start + of_nat i * PAGE_SIZE, pfn (pos + of_nat i * PAGE_SIZE))) [0..<pages sz])"
  using assms
proof (induction pfn remap start pos sz maps rule: mmap_loop.induct)
  case (1 pfn remap start pos sz maps)
  show ?case
  proof (cases "0 < sz")
    case True
    let ?f = "\<lambda>i. (start + of_nat i * PAGE_SIZE, pfn (pos + of_nat i * PAGE_SIZE))"
    have "map ?f [0..<pages sz] = ?f 0 # map (?f \<circ> Suc) [0..<pages (if PAGE_SIZE < sz then sz - PAGE_SIZE else 0)]"
      unfolding pages_Suc [OF True] by (simp add: upt_conv_Cons map_Suc_upt [symmetric] del: upt_Suc)
    then show ?thesis using True 1
      by (subst mmap_loop.simps, cases "PAGE_SIZE < sz") (simp_all add: Let_def comp_def algebra_simps)
  next
    case False
    then have "pages sz = 0" by (simp add: pages_def word_gt_0)
    then show ?thesis using False by (subst mmap_loop.simps) simp
  qed
qed

text \<open>
  When every page can be mapped, the \<open>mmap\<close> callback maps exactly the pages that cover the
  requested area, in order, each to the frame of the buffer address with the same offset, and
  returns 0. The length of the buffer is not looked at: an area longer than its 4 MiB also gets the frame
  behind its end.
\<close>

theorem mmap_exact:
  assumes "\<forall>a b. remap_pfn_range a b = 0"
  shows "cdev_mmap_callback pfn remap_pfn_range buf vma = (0,
      map (\<lambda>i. (vm_start vma + of_nat i * PAGE_SIZE, pfn (buf + of_nat i * PAGE_SIZE)))
        [0..<(unat (vm_end vma - vm_start vma) + 4095) div 4096]) \<and>
    (8 * VMEM_SIZE < unat (vm_end vma - vm_start vma) \<longrightarrow>
      (vm_start vma + 1024 * PAGE_SIZE, pfn (buf + of_nat (8 * VMEM_SIZE))) \<in>
        set (snd (cdev_mmap_callback pfn remap_pfn_range buf vma)))"
proof -
  let ?n = "(unat (vm_end vma - vm_start vma) + 4095) div 4096"
  let ?f = "\<lambda>i. (vm_start vma + of_nat i * PAGE_SIZE, pfn (buf + of_nat i * PAGE_SIZE))"
  have "remap_pfn_range = (\<lambda>_ _. 0)" using assms by (auto simp: fun_eq_iff)
  then have eq: "cdev_mmap_callback pfn remap_pfn_range buf vma = (0, map ?f [0..<?n])"
    by (simp add: cdev_mmap_callback_def mmap_loop_pages pages_def)
  have "?f 1024 \<in> set (map ?f [0..<?n])" if "8 * VMEM_SIZE < unat (vm_end vma - vm_start vma)"
  proof -
    have "1024 < ?n" using that by (simp add: VMEM_SIZE_def)
    then show ?thesis unfolding set_map by (intro imageI) simp
  qed
  then show ?thesis unfolding eq by (simp add: VMEM_SIZE_def PAGE_SIZE_def)
qed

theorem mmap_exact_witness:
  "cdev_mmap_callback id (\<lambda>_ _. 0) 0 \<lparr>vm_start = 0x10000, vm_end = 0x12001\<rparr> =
    (0, [(0x10000, 0), (0x11000, 0x1000), (0x12000, 0x2000)])"
  using mmap_exact [of "\<lambda>_ _. 0" id 0 "\<lparr>vm_start = 0x10000, vm_end = 0x12001\<rparr>"]
  by (simp add: PAGE_SIZE_def upt_rec)

section \<open>The monitor and the workload\<close>

text \<open>
  C40: The monitor ends on every buffer contents: it never reads outside its mapping, and 48002
  rounds of fuel are always enough, so that it prints at most 48001 rows.
\<close>

theorem monitor_terminates:
  assumes "0 \<le> fd" "48002 \<le> fuel"
  shows "\<exists>rows buf'. monitor_main fuel fd (Some buf) = Some (Inr (0, monitor_text rows, monitor_done fd, Some buf')) \<and>
    length rows < fuel"
proof -
  obtain i where i: "find_start buf 0 = Inr i" "i \<le> BUFD_MAX" using find_start_total [of 0 buf] by auto
  have "card (unread buf) < fuel" using unread_card [of buf] assms(2) by linarith
  then obtain rows buf' where "monitor_loop fuel buf i = Some (Inr (rows, buf'))" "length rows < fuel"
    using monitor_loop_total [OF i(2)] monitor_loop_length by blast
  then show ?thesis using i assms(1)
    by (intro exI [of _ rows] exI [of _ buf']) (simp add: monitor_main_ok)
qed

theorem monitor_terminates_witness:
  "\<exists>rows buf'. monitor_main 48002 3 (Some (\<lambda>i. of_nat i)) = Some (Inr (0, monitor_text rows, monitor_done 3, Some buf')) \<and>
     length rows < 48002"
  using monitor_terminates [of 3 48002 "\<lambda>i. of_nat i"] by simp

lemma newest_in: "newest j h = Some x \<Longrightarrow> x \<in> set h"
proof -
  assume a: "newest j h = Some x"
  then have j: "j < length h" "x = h ! (j + CAP * ((length h - 1 - j) div CAP))"
    by (auto simp: newest_def split: if_splits)
  have "j + CAP * ((length h - 1 - j) div CAP) < length h"
    using j(1) times_div_less_eq_dividend [of CAP "length h - 1 - j"] by linarith
  then show ?thesis using j(2) by simp
qed

lemma row_entries:
  assumes "\<And>j. j < 12000 \<Longrightarrow> - 1 \<notin> set (row m j)"
  shows "\<forall>i<48000. m i \<noteq> - 1"
proof (intro allI impI)
  fix i :: nat assume "i < 48000"
  then have "i div 4 < 12000" by (simp add: less_mult_imp_div_less)
  moreover have "m i \<in> set (row m (i div 4))"
  proof -
    have "i mod 4 \<in> {0, 1, 2, 3}" by auto
    moreover have "i = 4 * (i div 4) + i mod 4" by simp
    ultimately show ?thesis unfolding row_def by (elim insertE emptyE) (metis add.right_neutral list.set_intros)+
  qed
  ultimately show "m i \<noteq> - 1" using assms by metis
qed

lemma ring_loop:
  assumes "ring_holds h m idx" "\<forall>x\<in>set h. length x = 4 \<and> - 1 \<notin> set x" "12001 \<le> fuel"
  shows "\<exists>b. monitor_loop fuel m 0 = Some (Inr (map (row m) [0..<12000], b)) \<and> find_start m 0 = Inr 0 \<and>
    (\<forall>j<48000. b j = - 1) \<and> b 48000 = m 48000 \<and> m 48000 \<noteq> - 1"
proof -
  have rows: "row m j = (case newest j h of None \<Rightarrow> [0, 0, 0, 0] | Some x \<Rightarrow> x)" if "j < 131072" for j
    using assms(1) that by (simp add: ring_holds_def CAP_def)
  have unread: "- 1 \<notin> set (row m j)" if "j < 131072" for j
    using rows [OF that] assms(2) newest_in [of j h] by (auto split: option.splits)
  then have ne: "\<forall>i<48000. m i \<noteq> - 1" by (intro row_entries) auto
  then obtain b where b: "monitor_loop fuel m 0 = Some (Inr (map (row m) [0..<12000], b))"
      "\<forall>j<48000. b j = - 1" "\<forall>j\<ge>48000. b j = m j"
    using monitor_loop_rows [of 12000 m m fuel] assms(3) by auto
  have "find_start m 0 = Inr 0" using ne by (subst find_start.simps) (simp add: long_at_def sizes)
  moreover have "m 48000 \<noteq> - 1" using unread [of 12000] by (auto simp: row_def)
  ultimately show ?thesis using b by simp
qed

text \<open>
  The monitor on a buffer the profiler has filled since it was loaded, while nothing is sampled. The
  first run prints one row for each of the first 12000 of the 131072 slots, in slot order: the newest sample of the
  slot, or four zeros where none was taken, because the profiler clears the buffer to 0 while the monitor
  takes \<open>-1\<close> as empty. The second run prints one row that is no sample: the search for
  an unread entry stops at index 48000, one behind the part that is read, whose value is printed with three
  marks \<open>-1\<close>. From the third run on the buffer is drained and nothing is left to print.
\<close>

theorem monitor_rerun:
  assumes "ring_holds h m idx" "\<forall>x\<in>set h. length x = 4 \<and> - 1 \<notin> set x" "0 \<le> fd" "12001 \<le> fuel"
  shows "\<exists>b c. monitor_main fuel fd (Some m) = Some (Inr (0,
      monitor_text (map (\<lambda>j. case newest j h of None \<Rightarrow> [0, 0, 0, 0] | Some x \<Rightarrow> x) [0..<12000]), monitor_done fd, Some b)) \<and>
    monitor_main fuel fd (Some b) = Some (Inr (0, monitor_text [[m 48000, - 1, - 1, - 1]], monitor_done fd, Some c)) \<and>
    monitor_main fuel fd (Some c) = Some (Inr (0, monitor_text [], monitor_done fd, Some c)) \<and> drained c"
proof -
  obtain b where b: "monitor_loop fuel m 0 = Some (Inr (map (row m) [0..<12000], b))" "find_start m 0 = Inr 0"
      "\<forall>j<48000. b j = - 1" "b 48000 = m 48000" "m 48000 \<noteq> - 1"
    using ring_loop [OF assms(1,2,4)] by blast
  have rows: "map (row m) [0..<12000] =
      map (\<lambda>j. case newest j h of None \<Rightarrow> [0, 0, 0, 0] | Some x \<Rightarrow> x) [0..<12000]"
    using assms(1) by (intro map_cong) (auto simp: ring_holds_def CAP_def)
  let ?c = "b(48000 := - 1)"
  have start: "find_start b 0 = Inr BUFD_MAX" using find_start_none [of 0 b] b(3) by (simp add: sizes)
  have c: "drained ?c" using b(3) by (simp add: drained_def sizes)
  then have last: "monitor_main fuel fd (Some ?c) = Some (Inr (0, monitor_text [], monitor_done fd, Some ?c))"
    using monitor_drained assms(3,4) by simp
  have loop: "monitor_loop fuel b BUFD_MAX = Some (Inr ([[m 48000, - 1, - 1, - 1]], ?c))"
    using monitor_loop_rerun [of b fuel] b assms(4) by simp
  show ?thesis
    using monitor_main_ok [OF assms(3) b(2,1)] monitor_main_ok [OF assms(3) start loop] last c unfolding rows
    by (intro exI [of _ b] exI [of _ ?c] conjI)
qed

theorem monitor_rerun_witness:
  "\<exists>b c. monitor_main 12001 3 (Some (\<lambda>_. 0)) =
      Some (Inr (0, monitor_text (map (\<lambda>_. [0, 0, 0, 0]) [0..<12000]), monitor_done 3, Some b)) \<and>
    monitor_main 12001 3 (Some b) = Some (Inr (0, monitor_text [[0, - 1, - 1, - 1]], monitor_done 3, Some c)) \<and>
    monitor_main 12001 3 (Some c) = Some (Inr (0, monitor_text [], monitor_done 3, Some c))"
proof -
  have h: "\<forall>x\<in>set ([] :: u64 list list). length x = 4 \<and> - 1 \<notin> set x" by simp
  have none: "newest j ([] :: u64 list list) = None" for j by (simp add: newest_def)
  have "(0 :: int) \<le> 3" "(12001 :: nat) \<le> 12001" by simp_all
  from monitor_rerun [OF ring_empty h this] show ?thesis unfolding none option.case by blast
qed

text \<open>
  A monitor that cannot open the device, or cannot map it, returns -1 and touches no memory; in
  the second case it ends without closing the descriptor.
\<close>

theorem monitor_failures:
  "monitor_main fuel (-1) kadr = Some (Inr (-1, ''file open error. node'' @ [newline],
     \<lparr>buf_fd = -1, buf_len = NPAGES * getpagesize, closed_fds = []\<rparr>, None)) \<and>
   (0 \<le> fd \<longrightarrow> monitor_main fuel fd None = Some (Inr (-1, ''buf file open error.'' @ [newline],
     \<lparr>buf_fd = fd, buf_len = NPAGES * getpagesize, closed_fds = []\<rparr>, None)))"
  by (simp add: monitor_main_def buf_init_def monitor_static_def)

theorem monitor_failures_witness:
  "monitor_main 1 3 None = Some (Inr (-1, ''buf file open error.'' @ [newline],
     \<lparr>buf_fd = 3, buf_len = 524288, closed_fds = []\<rparr>, None))"
  using monitor_failures [of 1 None 3] by (simp add: NPAGES_def getpagesize_def)

text \<open>
  Whatever \<open>rand\<close> returns, every access of the workload lies inside one of the \<open>msize\<close> blocks
  of 1 MiB it allocated.
\<close>

theorem work_in_blocks:
  assumes "\<forall>n. 0 \<le> rnd n" "Touch t \<in> set (snd (work_main argv me failed rnd))"
  shows "in_blocks (sint (atoi (argv ! 1) :: u32)) t"
  using assms(2) work_iterations_in_blocks [OF _ assms(1), of "sint (atoi (argv ! 1) :: u32)" t]
  by (auto simp: work_main_def Let_def not_less split: if_splits option.splits)

definition work_args :: "string list" where
  "work_args = [''work'', ''2'', ''R'', ''1'']"

lemma atoi_digits: "atoi ''2'' = 2" "atoi ''1'' = 1"
  by (simp_all add: atoi_def is_space_def is_digit_def)

theorem work_in_blocks_witness:
  "in_blocks 2 (1, 5)"
proof -
  have "Touch (1, 5) \<in> set (snd (work_main work_args 7 None (\<lambda>_. 1048581)))"
    by (simp add: work_main_def work_args_def atoi_digits N_ITERATION_def numeral_eq_Suc rand_access_def
        smod_nonneg sdiv_nonneg Let_def)
  from work_in_blocks [OF _ this] show ?thesis by (simp add: work_args_def atoi_digits)
qed

text \<open>
  When \<open>malloc\<close> fails for a block, the workload ends with \<open>-1\<close> after it has registered with the
  profiler and without unregistering: of the shell commands only the registration is run.
\<close>

theorem work_failure_stays_registered:
  assumes "4 \<le> length argv" "sint (atoi (argv ! 1) :: u32) \<in> {1..1024}" "1 \<le> sint (atoi (argv ! 3) :: u32)"
    and "int i < sint (atoi (argv ! 1) :: u32)"
  shows "\<exists>events. work_main argv me (Some i) rnd = (-1, events) \<and>
    [e \<leftarrow> events. \<exists>c. e = System c] = [System (status_command ''R'' me)] \<and>
    parse_command_mp3 k (status_line ''R'' me @ [newline]) = Inr (Register me)"
  using assms parse_register [of k me] by (simp add: work_main_def Let_def)

theorem work_failure_stays_registered_witness:
  "fst (work_main work_args 7 (Some 1) (\<lambda>_. 0)) = -1"
  using work_failure_stays_registered [of work_args 1 7 "\<lambda>_. 0" example_mp3]
  by (auto simp: work_args_def atoi_digits)

end
