(* ===== verification/Mp3_Session.thy ===== *)
theory Mp3_Session
  imports Mp3_Stream
begin

text \<open>
  A whole experiment with the profiler: processes register with the line the workload \<open>MP3/work.c\<close>
  echoes, the delayed work samples them while they run, they unregister, and the monitor prints what
  was sampled.
\<close>

section \<open>Actions\<close>

text \<open>
  A line written to the status file, or a tick: the processes have run, which changes their counters, the
  delayed work's timer expires and the work is run.
\<close>

datatype mp3_action =
    Write_status mp3_kernel "char list"
  | Tick mp3_kernel "addr \<Rightarrow> cpu_counters"

fun run_mp3 :: "mp3_action \<Rightarrow> mp3_state \<Rightarrow> mp3_state option" where
  "run_mp3 (Write_status k data) s = (case mp3_write k data s of Inl e \<Rightarrow> None | Inr (n, t) \<Rightarrow> Some t)"
| "run_mp3 (Tick k c) s =
     (if pending s \<and> \<not> running s
      then (case run_work k (start_work (s\<lparr>counters := c\<rparr>)) of Inl e \<Rightarrow> None | Inr t \<Rightarrow> Some t) else None)"

fun run_mp3_all :: "mp3_action list \<Rightarrow> mp3_state \<Rightarrow> mp3_state option" where
  "run_mp3_all [] s = Some s"
| "run_mp3_all (x # xs) s = Option.bind (run_mp3 x s) (run_mp3_all xs)"

lemma run_mp3_all_append: "run_mp3_all (xs @ ys) s = Option.bind (run_mp3_all xs s) (run_mp3_all ys)"
  by (induction xs arbitrary: s) (auto split: bind_split simp: bind_assoc)

definition register_action :: "mp3_kernel \<Rightarrow> u32 \<Rightarrow> mp3_action" where
  "register_action k p = Write_status k (status_line ''R'' p @ [newline])"

definition unregister_action :: "mp3_kernel \<Rightarrow> u32 \<Rightarrow> mp3_action" where
  "unregister_action k p = Write_status k (status_line ''U'' p @ [newline])"

definition profile_session :: "mp3_kernel \<Rightarrow> u32 list \<Rightarrow> (mp3_kernel \<times> (addr \<Rightarrow> cpu_counters)) list \<Rightarrow> mp3_action list" where
  "profile_session k ps ticks = map (register_action k) ps @ map (\<lambda>(kk, c). Tick kk c) ticks @ map (unregister_action k) ps"

text \<open>What a tick samples from the registered pids.\<close>

definition tick_samples :: "u32 list \<Rightarrow> mp3_kernel \<times> (addr \<Rightarrow> cpu_counters) \<Rightarrow> u64 list list" where
  "tick_samples ps x = map (\<lambda>p. sample p (snd x (the (pid_task (fst x) p)))) ps"

section \<open>Between two actions\<close>

text \<open>The module is at rest with the pids \<open>ps\<close> registered and the samples \<open>h\<close> taken.\<close>

definition profiles :: "u64 list list \<Rightarrow> u32 list \<Rightarrow> mp3_state \<Rightarrow> bool" where
  "profiles h ps s \<longleftrightarrow> \<not> lock s \<and> wq s \<and> \<not> running s \<and> pids_mp3 s = ps \<and> distinct ps \<and> pending s = (ps \<noteq> []) \<and>
     (\<exists>m. vmem_buf s = Some m \<and> ring_holds h m (vmem_idx s))"

lemma profiles_register:
  assumes "profiles h ps s" "p \<notin> set ps" "node_ok k"
  shows "\<exists>t. run_mp3 (register_action k p) s = Some t \<and> profiles h (ps @ [p]) t"
proof -
  have "p \<notin> pid ` set (tl s)" using assms(1,2) by (auto simp: profiles_def pids_mp3_def)
  then show ?thesis using assms
    by (auto simp: register_action_def mp3_write_def parse_status_line Task_register_mp3_eq profiles_def pids_mp3_def
        new_mp3_task_def)
qed

lemma profiles_tick:
  assumes "profiles h ps s" "ps \<noteq> []" "honest k" "\<forall>p\<in>set ps. pid_task k p \<noteq> None"
  shows "\<exists>t. run_mp3 (Tick k c) s = Some t \<and> profiles (h @ tick_samples ps (k, c)) ps t"
proof -
  note s = assms(1) [unfolded profiles_def]
  obtain m where m: "vmem_buf s = Some m" "ring_holds h m (vmem_idx s)" using s by blast
  let ?s = "(start_work (s\<lparr>counters := c\<rparr>))\<lparr>running := False\<rparr>"
  have f: "\<not> lock ?s" "wq ?s" "distinct (map pid (tl ?s))" "vmem_buf ?s = Some m" "ring_holds h m (vmem_idx ?s)"
    using s m by (auto simp: start_work_def pids_mp3_def)
  have al: "\<forall>t\<in>set (tl ?s). alive k t"
    using s assms(4) by (auto simp: start_work_def alive_def pids_mp3_def)
  obtain m' i where w: "ring_holds (h @ samples k ?s) m' i"
      "wq_handler k ?s = Inr ((swept k ?s)\<lparr>vmem_buf := Some m', vmem_idx := i, pending := True\<rparr>)"
    using wq_handler_all [OF f(1,2) assms(3) f(3-5) al] .
  let ?t = "(swept k ?s)\<lparr>vmem_buf := Some m', vmem_idx := i, pending := True\<rparr>"
  have "present k ?s = tl s" using al present_all [of k ?s] by (simp add: start_work_def)
  then have "samples k ?s = map (\<lambda>t. sample (pid t) (c (home k t))) (tl s)"
    by (simp add: samples_def start_work_def)
  also have "\<dots> = tick_samples ps (k, c)" using s by (auto simp: tick_samples_def pids_mp3_def home_def)
  finally have h: "ring_holds (h @ tick_samples ps (k, c)) m' i" using w(1) by simp
  have "pids_mp3 ?t = ps" using swept_pids [of k ?s] s by (simp add: pids_mp3_def start_work_def)
  moreover have "\<not> lock ?t" "wq ?t" "\<not> running ?t" using f(1,2) by (simp_all add: swept_def)
  ultimately have "profiles (h @ tick_samples ps (k, c)) ps ?t" using s assms(2) h by (simp add: profiles_def)
  moreover have "run_mp3 (Tick k c) s = Some ?t" using s assms(2) w(2) by (simp add: run_work_def)
  ultimately show ?thesis by blast
qed

lemma profiles_unregister:
  assumes "profiles h ps s" "p \<in> set ps"
  shows "\<exists>t. run_mp3 (unregister_action k p) s = Some t \<and> profiles h (remove1 p ps) t"
proof -
  note s = assms(1) [unfolded profiles_def]
  obtain us where us: "remove_pid p (tl s) = Some us"
    using remove_pid_None [of p "tl s"] assms(2) s by (cases "remove_pid p (tl s)") (auto simp: pids_mp3_def)
  have p: "map pid us = remove1 p ps" using remove_pid_Some [OF us] s by (simp add: pids_mp3_def)
  then have "us = [] \<longleftrightarrow> remove1 p ps = []" by (metis map_is_Nil_conv)
  then show ?thesis using s us p
    by (auto simp: unregister_action_def mp3_write_def parse_status_line Task_deregister_mp3_eq profiles_def pids_mp3_def
        distinct_remove1)
qed

section \<open>The phases\<close>

lemma all_register:
  "profiles h qs s \<Longrightarrow> distinct (qs @ ps) \<Longrightarrow> node_ok k \<Longrightarrow>
   \<exists>t. run_mp3_all (map (register_action k) ps) s = Some t \<and> profiles h (qs @ ps) t"
proof (induction ps arbitrary: qs s)
  case (Cons p ps)
  then obtain u where u: "run_mp3 (register_action k p) s = Some u" "profiles h (qs @ [p]) u"
    using profiles_register [of h qs s p k] by auto
  with Cons.IH [OF u(2)] Cons.prems show ?case by simp
qed simp

lemma all_ticks:
  "profiles h ps s \<Longrightarrow> ps \<noteq> [] \<Longrightarrow> \<forall>x\<in>set ticks. honest (fst x) \<and> (\<forall>p\<in>set ps. pid_task (fst x) p \<noteq> None) \<Longrightarrow>
   \<exists>t. run_mp3_all (map (\<lambda>(kk, c). Tick kk c) ticks) s = Some t \<and> profiles (h @ concat (map (tick_samples ps) ticks)) ps t"
proof (induction ticks arbitrary: h s)
  case (Cons x ticks)
  obtain kk c where x: "x = (kk, c)" by (cases x)
  then obtain u where u: "run_mp3 (Tick kk c) s = Some u" "profiles (h @ tick_samples ps x) ps u"
    using profiles_tick [OF Cons.prems(1,2), of kk c] Cons.prems(3) by auto
  with Cons.IH [OF u(2) Cons.prems(2)] Cons.prems(3) x show ?case by simp
qed simp

lemma all_unregister:
  "profiles h ps s \<Longrightarrow> \<exists>t. run_mp3_all (map (unregister_action k) ps) s = Some t \<and> profiles h [] t"
proof (induction ps arbitrary: s)
  case (Cons p ps)
  obtain u where u: "run_mp3 (unregister_action k p) s = Some u" "profiles h ps u"
    using profiles_unregister [OF Cons.prems, of p k] by auto
  with Cons.IH [OF u(2)] show ?case by simp
qed simp

lemma session_profiles:
  assumes "profiles [] [] s" "distinct ps" "ps \<noteq> []" "node_ok k"
    and "\<forall>x\<in>set ticks. honest (fst x) \<and> (\<forall>p\<in>set ps. pid_task (fst x) p \<noteq> None)"
  shows "\<exists>t. run_mp3_all (profile_session k ps ticks) s = Some t \<and>
    profiles (concat (map (tick_samples ps) ticks)) [] t"
proof -
  obtain s1 where 1: "run_mp3_all (map (register_action k) ps) s = Some s1" "profiles [] ps s1"
    using all_register [OF assms(1) _ assms(4), of ps] assms(2) by auto
  obtain s2 where 2: "run_mp3_all (map (\<lambda>(kk, c). Tick kk c) ticks) s1 = Some s2"
      "profiles (concat (map (tick_samples ps) ticks)) ps s2"
    using all_ticks [OF 1(2) assms(3,5)] by auto
  obtain s3 where "run_mp3_all (map (unregister_action k) ps) s2 = Some s3"
      "profiles (concat (map (tick_samples ps) ticks)) [] s3"
    using all_unregister [OF 2(2)] by blast
  with 1 2 show ?thesis by (simp add: profile_session_def run_mp3_all_append)
qed

section \<open>What the monitor prints\<close>

text \<open>A history that fits the part the monitor reads is printed as it is, with a zero row for each slot after it.\<close>

lemma newest_short:
  assumes "length h \<le> n" "n \<le> CAP"
  shows "map (\<lambda>j. case newest j h of None \<Rightarrow> z | Some x \<Rightarrow> x) [0..<n] = h @ replicate (n - length h) z"
proof (rule nth_equalityI)
  fix j assume "j < length (map (\<lambda>j. case newest j h of None \<Rightarrow> z | Some x \<Rightarrow> x) [0..<n])"
  then have j: "j < n" by simp
  show "map (\<lambda>j. case newest j h of None \<Rightarrow> z | Some x \<Rightarrow> x) [0..<n] ! j = (h @ replicate (n - length h) z) ! j"
  proof (cases "j < length h")
    case True
    then have "(length h - 1 - j) div CAP = 0" using assms by simp
    then show ?thesis using True j by (simp add: newest_def nth_append)
  next
    case False
    then show ?thesis using j by (simp add: newest_def nth_append)
  qed
qed (use assms(1) in simp)

end
