(* ===== verification/Mp3_Shared_Props.thy ===== *)
theory Mp3_Shared_Props
  imports Mp3_Props Mp3_Session
begin

text \<open>
  The properties of profiler and monitor together: one after the other, and at the same time on
  the shared buffer.
\<close>

section \<open>A whole experiment\<close>

text \<open>
  C27: A profiling experiment from the loaded module to the printed table: processes register with the lines the workload
  echoes, are sampled by any number of runs of the delayed work while all of them live, and unregister. Every action returns, at the end no
  process is registered and no work is queued, and the monitor prints the samples of all runs, run by run and in the order of
  registration, each with the counters since the last sampling, followed by a row of zeros for every slot up to 12000
  that was not used; it does so whenever there are no more than 12000 samples and none of them has a field with the mark \<open>-1\<close>.
\<close>

theorem profiling_session:
  assumes "mp3_start s" "distinct ps" "ps \<noteq> []" "node_ok k"
    and "\<forall>x\<in>set ticks. honest (fst x) \<and> (\<forall>p\<in>set ps. pid_task (fst x) p \<noteq> None)"
    and "h = concat (map (tick_samples ps) ticks)" "length h \<le> 12000" "\<forall>x\<in>set h. - 1 \<notin> set x"
    and "0 \<le> fd" "12001 \<le> fuel"
  shows "\<exists>t m b. run_mp3_all (profile_session k ps ticks) s = Some t \<and> tl t = [] \<and> \<not> pending t \<and> \<not> running t \<and>
    vmem_buf t = Some m \<and> monitor_main fuel fd (Some m) =
      Some (Inr (0, monitor_text (h @ replicate (12000 - length h) [0, 0, 0, 0]), monitor_done fd, Some b))"
proof -
  have "profiles [] [] s"
    using assms(1) ring_empty by (auto simp: mp3_start_def mp3_init_def TaskList_init_def mp3_static_def profiles_def pids_mp3_def)
  from session_profiles [OF this assms(2-5)] obtain t where t: "run_mp3_all (profile_session k ps ticks) s = Some t"
      "profiles h [] t" using assms(6) by blast
  then obtain m where m: "vmem_buf t = Some m" "ring_holds h m (vmem_idx t)" by (auto simp: profiles_def)
  have "\<forall>x\<in>set h. length x = 4 \<and> - 1 \<notin> set x"
    using assms(6,8) by (auto simp: tick_samples_def)
  then obtain b where b: "monitor_loop fuel m 0 = Some (Inr (map (row m) [0..<12000], b))" "find_start m 0 = Inr 0"
    using ring_loop [OF m(2) _ assms(10)] by blast
  have "map (row m) [0..<12000] = map (\<lambda>j. case newest j h of None \<Rightarrow> [0, 0, 0, 0] | Some x \<Rightarrow> x) [0..<12000]"
    using m(2) by (intro map_cong) (auto simp: ring_holds_def CAP_def)
  also have "\<dots> = h @ replicate (12000 - length h) [0, 0, 0, 0]"
    by (rule newest_short [OF assms(7)]) (simp add: CAP_def)
  finally have "monitor_main fuel fd (Some m) =
      Some (Inr (0, monitor_text (h @ replicate (12000 - length h) [0, 0, 0, 0]), monitor_done fd, Some b))"
    using monitor_main_ok [OF assms(9) b(2,1)] by simp
  then show ?thesis using t m(1) by (intro exI [of _ t] exI [of _ m] exI [of _ b]) (simp add: profiles_def pids_mp3_def)
qed

theorem profiling_session_witness:
  "\<exists>t m b. run_mp3_all (profile_session example_mp3 [1, 2]
      [(example_mp3, \<lambda>_. \<lparr>k_min_flt = 3, k_maj_flt = 0, k_utime = 2, k_stime = 2\<rparr>)]) fresh_mp3 = Some t \<and> vmem_buf t = Some m \<and>
    monitor_main 12001 3 (Some m) = Some (Inr (0,
      monitor_text ([[1, 3, 0, 20], [2, 3, 0, 20]] @ replicate 11998 [0, 0, 0, 0]), monitor_done 3, Some b))"
proof -
  let ?ticks = "[(example_mp3, \<lambda>_. \<lparr>k_min_flt = 3, k_maj_flt = 0, k_utime = 2, k_stime = 2\<rparr>)]"
  have start: "mp3_start fresh_mp3"
    by (simp add: mp3_start_def mp3_init_def TaskList_init_def fresh_mp3_def mp3_static_def)
  have u: "util_percent 4 = 20" by (simp add: util_percent_def)
  have h: "[[1, 3, 0, 20], [2, 3, 0, 20]] = concat (map (tick_samples [1, 2]) ?ticks)"
    using u by (simp add: tick_samples_def sample_def)
  have live: "\<forall>x\<in>set ?ticks. honest (fst x) \<and> (\<forall>p\<in>set [1, 2]. pid_task (fst x) p \<noteq> None)" "node_ok example_mp3"
    using example_honest by (simp_all add: example_mp3_def)
  have "length [[1, 3, 0, 20 :: u64], [2, 3, 0, 20]] \<le> 12000" "\<forall>x\<in>set [[1, 3, 0, 20 :: u64], [2, 3, 0, 20]]. - 1 \<notin> set x"
    by simp_all
  from profiling_session [OF start _ _ live(2,1) h this, of 3 12001]
  show ?thesis by (simp del: replicate.simps append.simps) blast
qed

section \<open>One after the other\<close>

text \<open>
  A run of the sampling work on a buffer that the monitor has drained, followed by a run of the monitor. When
  every registered process is alive and the samples fall into the first 12000 slots, the monitor prints
  exactly one line per registered process, in list order, with its counters since the last
  sampling, and leaves the buffer as it was. Samples behind slot 12000 are never printed.
\<close>

theorem monitor_streams:
  assumes "\<not> lock s" "wq s" "honest k" "distinct (pids_mp3 s)" "\<forall>t\<in>set (tl s). alive k t \<and> pid t \<noteq> - 1"
    and "vmem_buf s = Some b" "drained b" "unat (vmem_idx s) < CAP" "unat (vmem_idx s) + length (tl s) \<le> CAP"
    and "0 \<le> fd" "length (tl s) < fuel"
  shows "\<exists>t m. run_work k s = Inr t \<and> vmem_buf t = Some m \<and>
    unat (vmem_idx t) = (unat (vmem_idx s) + length (tl s)) mod CAP \<and>
    (unat (vmem_idx s) + length (tl s) \<le> 12000 \<longrightarrow> monitor_main fuel fd (Some m) =
      Some (Inr (0, monitor_text (map (\<lambda>t. sample (pid t) (counters s (home k t))) (tl s)), monitor_done fd, Some b))) \<and>
    (12000 < unat (vmem_idx s) \<longrightarrow>
      monitor_main fuel fd (Some m) = Some (Inr (0, monitor_text [], monitor_done fd, Some m)))"
  by (rule run_work_stream [OF assms])

definition drained_state :: mp3_state where
  "drained_state = (start_work (with_pid 1))\<lparr>vmem_buf := Some (\<lambda>_. - 1), vmem_idx := 7\<rparr>"

lemma drained_state_simps:
  "\<not> lock drained_state" "wq drained_state" "tl drained_state = [new_mp3_task example_mp3 1]"
  "vmem_buf drained_state = Some (\<lambda>_. - 1)" "vmem_idx drained_state = 7" "counters drained_state = (\<lambda>_. zero_counters)"
  by (simp_all add: drained_state_def start_work_def with_pid_def fresh_mp3_def mp3_static_def)

theorem monitor_streams_witness:
  "\<exists>t m. run_work example_mp3 drained_state = Inr t \<and> vmem_buf t = Some m \<and>
    monitor_main 2 3 (Some m) = Some (Inr (0, monitor_text [[1, 0, 0, 0]], monitor_done 3, Some (\<lambda>_. - 1)))"
proof -
  have d: "drained (\<lambda>_. - 1)" by (simp add: drained_def)
  have t: "\<forall>t\<in>set (tl drained_state). alive example_mp3 t \<and> pid t \<noteq> - 1" "distinct (pids_mp3 drained_state)"
    by (simp_all add: drained_state_simps pids_mp3_def alive_def new_mp3_task_def example_mp3_def)
  have i: "unat (vmem_idx drained_state) < CAP" "unat (vmem_idx drained_state) + length (tl drained_state) \<le> CAP"
    "length (tl drained_state) < 2" "(0 :: int) \<le> 3"
    by (simp_all add: drained_state_simps CAP_def)
  from monitor_streams [OF drained_state_simps(1,2) example_honest t(2,1) drained_state_simps(4) d i(1,2,4,3)]
  show ?thesis
    by (elim exE conjE) (simp add: drained_state_simps new_mp3_task_def sample_def zero_counters_def util_percent_def)
qed

section \<open>At the same time\<close>

text \<open>
  Profiler and monitor at the same time. For every order in which the stores of the
  profiler and the steps of the monitor reach the buffer, neither of them leaves the buffer, and every value
  in memory and every value printed is the mark \<open>-1\<close>, one the buffer held before, or a value of one of
  the samples pushed.
\<close>

theorem shared_buffer_values:
  assumes "vmem_buf (prof x) = Some b" "unat (vmem_idx (prof x)) < CAP" "mon x = Search 0" "printed x = []"
  shows "\<exists>y m. shared_turns turns x = Inr y \<and> vmem_buf (prof y) = Some m \<and> unat (vmem_idx (prof y)) < CAP \<and>
    set (printed y) \<union> range m \<subseteq> {- 1} \<union> range b \<union> (\<Union>(p, c)\<in>set (todo x). set (sample p c))"
proof -
  let ?V = "{- 1} \<union> range b \<union> (\<Union>(p, c)\<in>set (todo x). set (sample p c))"
  have "shared_inv ?V x" using assms by (auto simp: shared_inv_def)
  moreover have "- 1 \<in> ?V" by simp
  ultimately obtain y where y: "shared_turns turns x = Inr y" "shared_inv ?V y"
    using shared_turns_inv by blast
  obtain m where m: "vmem_buf (prof y) = Some m" "\<forall>j. m j \<in> ?V" "unat (vmem_idx (prof y)) < CAP" "set (printed y) \<subseteq> ?V"
    using y(2) unfolding shared_inv_def by blast
  have "range m \<subseteq> ?V" unfolding image_subset_iff using m(2) by simp
  then show ?thesis using y(1) m by (intro exI [of _ y] exI [of _ m] conjI Un_least)
qed

definition sampling :: shared where
  "sampling = \<lparr>prof = drained_state, todo = [(1, \<lparr>k_min_flt = 5, k_maj_flt = 2, k_utime = 3, k_stime = 1\<rparr>)],
     stores = Store_pid, mon = Search 0, printed = []\<rparr>"

theorem shared_buffer_values_witness:
  "\<exists>y. shared_turns [Profiler, Monitor, Profiler, Monitor] sampling = Inr y \<and> set (printed y) \<subseteq> {- 1, 1, 5, 2, 20}"
proof -
  have h: "vmem_buf (prof sampling) = Some (\<lambda>_. - 1)" "unat (vmem_idx (prof sampling)) < CAP" "mon sampling = Search 0"
    "printed sampling = []"
    by (simp_all add: sampling_def drained_state_simps CAP_def)
  have u: "util_percent 4 = 20" by code_simp
  from shared_buffer_values [OF h, of "[Profiler, Monitor, Profiler, Monitor]"] show ?thesis
    by (elim exE conjE) (auto simp: sampling_def sample_def u)
qed

text \<open>
  C28: A torn sample. When the monitor runs between the first store of a sample and the others, it prints the pid
  with three marks \<open>-1\<close> and erases it; the profiler then completes the sample behind it, and the next run of
  the monitor prints a line whose first number, where the pid belongs, is the count of minor faults.
\<close>

theorem torn_sample:
  assumes "vmem_buf (prof x) = Some b" "drained b" "unat (vmem_idx (prof x)) < 11999"
    and "stores x = Store_pid" "todo x = (p, c) # ps" "mon x = Search 0" "printed x = []"
    and "p \<noteq> - 1" "k_min_flt c \<noteq> - 1" "0 \<le> fd"
  shows "\<exists>n y z m. shared_turns (Profiler # replicate n Monitor) x = Inr y \<and> mon y = Stop \<and>
    printed y = [scast p, - 1, - 1, - 1] \<and> shared_turns (replicate 4 Profiler) y = Inr z \<and>
    todo z = ps \<and> vmem_buf (prof z) = Some m \<and> monitor_main 2 fd (Some m) = Some (Inr (0,
      monitor_text [[k_min_flt c, k_maj_flt c, util_percent (k_utime c + k_stime c), - 1]], monitor_done fd, Some b))"
proof -
  let ?v = "unat (vmem_idx (prof x))"
  obtain n y where y: "shared_turns (Profiler # replicate n Monitor) x = Inr y" "mon y = Stop"
      "printed y = [scast p, - 1, - 1, - 1]" "vmem_buf (prof y) = Some b" "vmem_idx (prof y) = vmem_idx (prof x)"
      "stores y = Store_minor" "todo y = (p, c) # ps"
    using torn_run [OF assms(1-5,8,6,7)] assms(5) by auto
  have "unat (vmem_idx (prof y)) < CAP" using assms(3) y(5) by (simp add: CAP_def)
  then obtain z where z: "shared_turns (replicate 4 Profiler) y = Inr z" "todo z = ps"
      "vmem_buf (prof z) = Some (b(4 * ?v + 1 := k_min_flt c, 4 * ?v + 2 := k_maj_flt c,
        4 * ?v + 3 := util_percent (k_utime c + k_stime c)))"
    using other_stores [OF y(4) _ y(6,7)] y(5) by simp
  show ?thesis
    using y(1-3) z monitor_main_ok [OF assms(10) torn_second [OF assms(2,3,9)]] by blast
qed

theorem torn_sample_witness:
  "\<exists>n y z m. shared_turns (Profiler # replicate n Monitor) sampling = Inr y \<and> printed y = [1, - 1, - 1, - 1] \<and>
    shared_turns (replicate 4 Profiler) y = Inr z \<and> vmem_buf (prof z) = Some m \<and>
    monitor_main 2 3 (Some m) = Some (Inr (0, monitor_text [[5, 2, 20, - 1]], monitor_done 3, Some (\<lambda>_. - 1)))"
proof -
  let ?c = "\<lparr>k_min_flt = 5, k_maj_flt = 2, k_utime = 3, k_stime = 1\<rparr> :: cpu_counters"
  have h: "vmem_buf (prof sampling) = Some (\<lambda>_. - 1)" "drained (\<lambda>_. - 1)" "unat (vmem_idx (prof sampling)) < 11999"
    "stores sampling = Store_pid" "todo sampling = [(1, ?c)]" "mon sampling = Search 0" "printed sampling = []"
    "(1 :: u32) \<noteq> - 1" "k_min_flt ?c \<noteq> - 1" "(0 :: int) \<le> 3"
    by (simp_all add: sampling_def drained_state_simps drained_def)
  have e: "k_min_flt ?c = 5" "k_maj_flt ?c = 2" "util_percent (k_utime ?c + k_stime ?c) = 20"
    "(scast (1 :: u32) :: u64) = 1"
    by code_simp+
  from torn_sample [OF h] show ?thesis unfolding e by blast
qed

text \<open>
  Nothing is lost by the cut into steps: the profiler's steps alone push the samples as the sampling loop
  does, and the monitor's steps alone print and leave what \<open>main\<close> does.
\<close>

theorem sides_alone:
  assumes "stores x = Store_pid" "mon x = Search 0" "printed x = []" "vmem_buf (prof x) = Some buf"
    and "find_start buf 0 = Inr i" "monitor_loop fuel buf i = Some (Inr (rows, b))"
  shows "shared_turns (replicate (5 * length (todo x)) Profiler) x =
      rbind (push_all (todo x) (prof x)) (\<lambda>s. Inr (x\<lparr>prof := s, todo := []\<rparr>)) \<and>
    (\<exists>n. shared_turns (replicate n Monitor) x =
      Inr (x\<lparr>mon := Stop, printed := concat rows, prof := (prof x)\<lparr>vmem_buf := Some b\<rparr>\<rparr>))"
proof -
  have "monitor_runs (Search 0) [] buf Stop ([] @ concat rows) b"
    by (rule runs_trans [OF search_runs [OF assms(5)] loop_runs [OF assms(6)]])
  then obtain n where "shared_turns (replicate n Monitor) (at_monitor x (Search 0) [] buf) = Inr (at_monitor x Stop (concat rows) b)"
    unfolding monitor_runs_def by auto
  moreover have "at_monitor x (Search 0) [] buf = x" using assms(2-4) by (cases x) simp
  ultimately show ?thesis using profiler_alone [OF assms(1)] by auto
qed

theorem sides_alone_witness:
  "\<exists>n. shared_turns (replicate n Monitor) sampling =
    Inr (sampling\<lparr>mon := Stop, printed := [], prof := drained_state\<lparr>vmem_buf := Some (\<lambda>_. - 1)\<rparr>\<rparr>)"
proof -
  have h: "stores sampling = Store_pid" "mon sampling = Search 0" "printed sampling = []"
    "vmem_buf (prof sampling) = Some (\<lambda>_. - 1)"
    by (simp_all add: sampling_def drained_state_simps)
  have "find_start (\<lambda>_. - 1) 0 = Inr BUFD_MAX" by (intro find_start_none) auto
  moreover have "monitor_loop 1 (\<lambda>_. - 1) BUFD_MAX = Some (Inr ([], \<lambda>_. - 1))" by (simp add: long_at_def sizes)
  ultimately show ?thesis using sides_alone [OF h] by (fastforce simp: sampling_def)
qed

end
