(* ===== verification/Mp3_Races.thy ===== *)
theory Mp3_Races
  imports Mp3_Safety
begin

text \<open>
  The operations of \<open>MP3/profiler.c\<close> as callers that take turns with each other and with the
  delayed work. \<open>Task_register\<close> looks through the list without the spin lock, one node at a time; the other
  sections hold it and are one step each. The work gives the lock back before it queues its next run,
  which is a step of its own.
\<close>

section \<open>Nodes\<close>

text \<open>
  The nodes of the list have addresses, in list order; the address of a node that was removed is free
  again, and reading it is a fault.
\<close>

definition node_at :: "addr list \<Rightarrow> mp3_task_struct list \<Rightarrow> addr \<Rightarrow> mp3_task_struct result" where
  "node_at as ts a = (case map_of (zip as ts) a of None \<Rightarrow> Inl UseAfterFree | Some t \<Rightarrow> Inr t)"

fun drop_node :: "u32 \<Rightarrow> addr list \<Rightarrow> mp3_task_struct list \<Rightarrow> addr list" where
  "drop_node p (a # as) (t # ts) = (if pid t = p then as else a # drop_node p as ts)"
| "drop_node p as ts = as"

section \<open>Callers\<close>

datatype mp3_caller =
    Start_walk u32
  | Check_node u32 addr
  | Next_node u32 addr
  | Link_node u32
  | Remove_node u32
  | Gone int

text \<open>\<open>requeueing\<close>: a run of the work has given the lock back and not yet queued the next one.\<close>

record mp3_world =
  nodes :: "addr list"
  requeueing :: bool
  profiler :: mp3_state

definition walk_to :: "u32 \<Rightarrow> addr option \<Rightarrow> mp3_caller" where
  "walk_to p a = (case a of None \<Rightarrow> Link_node p | Some a \<Rightarrow> Check_node p a)"

text \<open>
  Flushing the queue waits for a run that is between its unlock and its queueing; the run does not
  need the lock any more.
\<close>

definition flush_requeue :: "mp3_world \<Rightarrow> mp3_world result" where
  "flush_requeue w =
     (if requeueing w
      then rbind (queue_delayed_work (profiler w)) (\<lambda>s. Inr (w\<lparr>profiler := s, requeueing := False\<rparr>))
      else Inr w)"

fun mp3_caller_step :: "mp3_kernel \<Rightarrow> addr \<Rightarrow> mp3_caller \<Rightarrow> mp3_world \<Rightarrow> (mp3_caller \<times> mp3_world) result" where
  "mp3_caller_step k new (Start_walk p) w = Inr (walk_to p (first_node (nodes w)), w)"
| "mp3_caller_step k new (Check_node p a) w =
     rbind (node_at (nodes w) (tl (profiler w)) a) (\<lambda>t. Inr (if pid t = p then Gone (-1) else Next_node p a, w))"
| "mp3_caller_step k new (Next_node p a) w =
     rbind (node_at (nodes w) (tl (profiler w)) a) (\<lambda>t. Inr (walk_to p (next_node (nodes w) a), w))"
| "mp3_caller_step k new (Link_node p) w =
     (if \<not> node_ok k then Inl NullDeref
      else rbind (register_link (new_mp3_task k p) (profiler w)) (\<lambda>s.
        Inr (Gone 0, w\<lparr>nodes := nodes w @ [new], profiler := s\<rparr>)))"
| "mp3_caller_step k new (Remove_node p) w =
     rbind (Task_deregister_mp3 k p (profiler w)) (\<lambda>(r, s).
     let w = w\<lparr>nodes := drop_node p (nodes w) (tl (profiler w)), profiler := s\<rparr> in
     rbind (if r = 0 \<and> tl s = [] then flush_requeue w else Inr w) (\<lambda>w. Inr (Gone r, w)))"
| "mp3_caller_step k new (Gone r) w = Inr (Gone r, w)"

text \<open>The handler up to its unlock; the first value is false when it gave up.\<close>

definition wq_section :: "mp3_kernel \<Rightarrow> mp3_state \<Rightarrow> (bool \<times> mp3_state) result" where
  "wq_section k s =
     rbind (spin_lock_mp3 s) (\<lambda>s.
     rbind (sample_loop k (tl s) s) (\<lambda>(done, ts, s).
     let s = s\<lparr>tl := ts\<rparr> in
     Inr (done, if done then spin_unlock_mp3 s else s)))"

lemma wq_handler_sections:
  "wq_handler k s = rbind (wq_section k s) (\<lambda>(done, s). if done then queue_delayed_work s else Inr s)"
  by (auto simp: wq_handler_def wq_section_def rbind_assoc Let_def intro!: rbind_cong)

text \<open>
  A caller starts, a caller takes a turn, the timer expires, the started work runs its section, it queues its next run, the
  processes run (their counters change in any way).
\<close>

type_synonym mp3_par = "mp3_caller list \<times> mp3_world"

inductive mp3_par_step :: "mp3_par \<Rightarrow> mp3_par \<Rightarrow> bool" where
  par_register: "mp3_par_step (cs, w) (cs @ [Start_walk p], w)"
| par_deregister: "mp3_par_step (cs, w) (cs @ [Remove_node p], w)"
| par_turn: "i < length cs \<Longrightarrow> new \<notin> set (nodes w) \<Longrightarrow> mp3_caller_step k new (cs ! i) w = Inr (c, v) \<Longrightarrow>
    mp3_par_step (cs, w) (cs[i := c], v)"
| par_expire: "pending (profiler w) \<Longrightarrow> \<not> running (profiler w) \<Longrightarrow> \<not> requeueing w \<Longrightarrow>
    mp3_par_step (cs, w) (cs, w\<lparr>profiler := start_work (profiler w)\<rparr>)"
| par_work: "running (profiler w) \<Longrightarrow> wq_section k ((profiler w)\<lparr>running := False\<rparr>) = Inr (done, s) \<Longrightarrow>
    mp3_par_step (cs, w) (cs, w\<lparr>profiler := s, requeueing := done\<rparr>)"
| par_requeue: "requeueing w \<Longrightarrow> queue_delayed_work (profiler w) = Inr s \<Longrightarrow>
    mp3_par_step (cs, w) (cs, w\<lparr>profiler := s, requeueing := False\<rparr>)"
| par_processes: "mp3_par_step (cs, w) (cs, w\<lparr>profiler := (profiler w)\<lparr>counters := c\<rparr>\<rparr>)"

definition mp3_par_start :: "mp3_par \<Rightarrow> bool" where
  "mp3_par_start c \<longleftrightarrow> fst c = [] \<and> nodes (snd c) = [] \<and> \<not> requeueing (snd c) \<and> mp3_start (profiler (snd c))"

section \<open>The invariant\<close>

text \<open>
  As for the operations one at a time, but for unique pids: the buffer is a ring of samples, the work is started,
  on its way to queue its next run or queued as long as a process is listed, and a lock that is held belongs to a run
  that gave up.
\<close>

definition world_inv :: "mp3_world \<Rightarrow> bool" where
  "world_inv w \<longleftrightarrow> distinct (nodes w) \<and> length (nodes w) = length (tl (profiler w)) \<and> wq (profiler w) \<and>
     (\<exists>m h. vmem_buf (profiler w) = Some m \<and> ring_holds h m (vmem_idx (profiler w))) \<and>
     \<not> (running (profiler w) \<and> requeueing w) \<and>
     (if lock (profiler w) then \<not> requeueing w \<and> tl (profiler w) \<noteq> []
      else tl (profiler w) \<noteq> [] \<longrightarrow> pending (profiler w) \<or> running (profiler w) \<or> requeueing w)"

lemma node_at_member:
  assumes "length as = length ts" "a \<in> set as"
  shows "\<exists>t. node_at as ts a = Inr t"
proof -
  have "a \<in> fst ` set (zip as ts)" using assms by (metis map_fst_zip set_map)
  then have "map_of (zip as ts) a \<noteq> None" by (simp add: map_of_eq_None_iff)
  then show ?thesis by (auto simp: node_at_def)
qed

lemma node_at_freed: "length as = length ts \<Longrightarrow> a \<notin> set as \<Longrightarrow> node_at as ts a = Inl UseAfterFree"
  by (simp add: node_at_def map_of_zip_is_None [THEN iffD2])

lemma drop_node_length: "length as = length ts \<Longrightarrow> remove_pid p ts = Some us \<Longrightarrow> length (drop_node p as ts) = length us"
  by (induction p as ts arbitrary: us rule: drop_node.induct) (auto split: if_splits)

lemma drop_node_none: "remove_pid p ts = None \<Longrightarrow> drop_node p as ts = as"
  by (induction p as ts rule: drop_node.induct) (auto split: if_splits)

lemma drop_node_set: "set (drop_node p as ts) \<subseteq> set as"
  by (induction p as ts rule: drop_node.induct) auto

lemma drop_node_distinct: "distinct as \<Longrightarrow> distinct (drop_node p as ts)"
  using drop_node_set by (induction p as ts rule: drop_node.induct) fastforce+

lemma caller_step_inv:
  assumes inv: "world_inv w" and "new \<notin> set (nodes w)" "mp3_caller_step k new c w = Inr (d, v)"
  shows "world_inv v"
proof (cases c)
  case (Link_node p)
  then show ?thesis
    using assms by (auto simp: world_inv_def register_link_def queue_delayed_work_def result_simps split: if_splits)
next
  case (Remove_node p)
  obtain r s where d: "Task_deregister_mp3 k p (profiler w) = Inr (r, s)"
      "(if r = 0 \<and> tl s = [] then flush_requeue (w\<lparr>nodes := drop_node p (nodes w) (tl (profiler w)), profiler := s\<rparr>)
        else Inr (w\<lparr>nodes := drop_node p (nodes w) (tl (profiler w)), profiler := s\<rparr>)) = Inr v"
    using assms(3) Remove_node by (auto simp: result_simps Let_def split: if_splits)
  then have l: "\<not> lock (profiler w)" by (auto simp: Task_deregister_mp3_eq split: if_splits)
  have eq: "length (nodes w) = length (tl (profiler w))" "distinct (nodes w)" using inv by (simp_all add: world_inv_def)
  show ?thesis
  proof (cases "remove_pid p (tl (profiler w))")
    case None
    then have "v = w" using d l drop_node_none [OF None, of "nodes w"] by (cases w) (auto simp: Task_deregister_mp3_eq)
    then show ?thesis using inv by simp
  next
    case (Some us)
    then have s: "r = 0" "\<not> (us = [] \<and> running (profiler w))"
        "s = (profiler w)\<lparr>tl := us, lock := False, pending := pending (profiler w) \<and> us \<noteq> []\<rparr>"
      using d(1) l by (auto simp: Task_deregister_mp3_eq split: if_splits)
    have n: "length (drop_node p (nodes w) (tl (profiler w))) = length us" "distinct (drop_node p (nodes w) (tl (profiler w)))"
      using drop_node_length [OF eq(1) Some] drop_node_distinct [OF eq(2)] by simp_all
    have "tl (profiler w) \<noteq> []" using Some by auto
    then show ?thesis
      using d(2) s n inv l
      by (auto simp: world_inv_def flush_requeue_def queue_delayed_work_def result_simps split: if_splits)
  qed
qed (use assms in \<open>auto simp: result_simps\<close>)

lemma sample_loop_gives_up: "sample_loop k ts s = Inr (False, us, t) \<Longrightarrow> ts \<noteq> []"
  by auto

lemma wq_section_inv:
  assumes inv: "world_inv w" and "running (profiler w)" "wq_section k ((profiler w)\<lparr>running := False\<rparr>) = Inr (d, s)"
  shows "world_inv (w\<lparr>profiler := s, requeueing := d\<rparr>)"
proof -
  let ?s = "(profiler w)\<lparr>running := False, lock := True\<rparr>"
  obtain m h where m: "vmem_buf ?s = Some m" "ring_holds h m (vmem_idx ?s)" using inv by (auto simp: world_inv_def)
  obtain e us c m' i where loop: "sample_loop k (tl (profiler w)) ?s = Inr (e, us, ?s\<lparr>counters := c, vmem_buf := Some m', vmem_idx := i\<rparr>)"
      "ring_holds (h @ taken k (counters ?s) (tl (profiler w))) m' i" "map pid us = map pid (tl (profiler w))"
    using sample_loop_any [OF m] by blast
  have len: "length us = length (tl (profiler w))" using loop(3) by (metis length_map)
  have l: "\<not> lock (profiler w)" using assms(3) by (auto simp: wq_section_def split: if_splits)
  have s: "d = e" "s = ?s\<lparr>counters := c, vmem_buf := Some m', vmem_idx := i, tl := us, lock := \<not> e\<rparr>"
    using assms(3) loop(1) l by (auto simp: wq_section_def Let_def split: if_splits)
  have "tl (profiler w) \<noteq> []" if "\<not> e" using sample_loop_gives_up loop(1) that by auto
  then have "us \<noteq> []" if "\<not> e" using len that by auto
  then show ?thesis using inv s loop(2) len by (auto simp: world_inv_def)
qed

lemma mp3_par_step_inv: "world_inv (snd c) \<Longrightarrow> mp3_par_step c d \<Longrightarrow> world_inv (snd d)"
proof (rotate_tac 1, induction rule: mp3_par_step.induct)
  case (par_turn i cs new w k c v)
  then show ?case using caller_step_inv by simp
next
  case (par_work w k d s cs)
  then show ?case using wq_section_inv by simp
qed (auto simp: world_inv_def start_work_def queue_delayed_work_def split: if_splits)

lemma mp3_start_empty: "mp3_start s \<Longrightarrow> tl s = [] \<and> \<not> lock s"
  by (cases s) (auto simp: mp3_start_def mp3_init_def TaskList_init_def mp3_static_def)

interpretation mp3_par: inductive_invariant mp3_par_start mp3_par_step "\<lambda>c. world_inv (snd c)"
proof (unfold_locales, goal_cases)
  case (1 c)
  then have "nodes (snd c) = []" "\<not> requeueing (snd c)" "mp3_inv (profiler (snd c))"
      "tl (profiler (snd c)) = [] \<and> \<not> lock (profiler (snd c))"
    using mp3_start_inv mp3_start_empty by (simp_all add: mp3_par_start_def)
  then show ?case by (simp add: world_inv_def mp3_inv_def)
next
  case (2 c d)
  then show ?case using mp3_par_step_inv by blast
qed

section \<open>The record of the samples\<close>

text \<open>The steps with the samples they take: the section of a started work takes them, the other steps take none.\<close>

inductive mp3_par_event :: "mp3_par \<Rightarrow> u64 list list \<Rightarrow> mp3_par \<Rightarrow> bool" where
  par_event_register: "mp3_par_event (cs, w) [] (cs @ [Start_walk p], w)"
| par_event_deregister: "mp3_par_event (cs, w) [] (cs @ [Remove_node p], w)"
| par_event_turn: "i < length cs \<Longrightarrow> new \<notin> set (nodes w) \<Longrightarrow> mp3_caller_step k new (cs ! i) w = Inr (c, v) \<Longrightarrow>
    mp3_par_event (cs, w) [] (cs[i := c], v)"
| par_event_expire: "pending (profiler w) \<Longrightarrow> \<not> running (profiler w) \<Longrightarrow> \<not> requeueing w \<Longrightarrow>
    mp3_par_event (cs, w) [] (cs, w\<lparr>profiler := start_work (profiler w)\<rparr>)"
| par_event_work: "running (profiler w) \<Longrightarrow> wq_section k ((profiler w)\<lparr>running := False\<rparr>) = Inr (done, s) \<Longrightarrow>
    mp3_par_event (cs, w) (taken k (counters (profiler w)) (tl (profiler w))) (cs, w\<lparr>profiler := s, requeueing := done\<rparr>)"
| par_event_requeue: "requeueing w \<Longrightarrow> queue_delayed_work (profiler w) = Inr s \<Longrightarrow>
    mp3_par_event (cs, w) [] (cs, w\<lparr>profiler := s, requeueing := False\<rparr>)"
| par_event_processes: "mp3_par_event (cs, w) [] (cs, w\<lparr>profiler := (profiler w)\<lparr>counters := c\<rparr>\<rparr>)"

lemma mp3_par_event_step: "mp3_par_step c d \<longleftrightarrow> (\<exists>xs. mp3_par_event c xs d)"
  by (auto elim!: mp3_par_step.cases mp3_par_event.cases intro: mp3_par_step.intros mp3_par_event.intros)

lemma caller_frame:
  "mp3_caller_step k new c w = Inr (d, v) \<Longrightarrow>
   vmem_buf (profiler v) = vmem_buf (profiler w) \<and> vmem_idx (profiler v) = vmem_idx (profiler w)"
  by (cases c)
    (auto simp: result_simps Let_def register_link_def queue_delayed_work_def flush_requeue_def
      dest!: deregister_frame split: if_splits)

lemma wq_section_records:
  assumes "ring_of h s" "wq_section k (s\<lparr>running := False\<rparr>) = Inr (d, t)"
  shows "ring_of (h @ taken k (counters s) (tl s)) t"
proof -
  have "ring_of h (s\<lparr>running := False\<rparr>)" using assms(1) by simp
  from section_records [OF this, of k] show ?thesis
    using assms(2) by (auto simp: wq_section_def result_simps Let_def split: if_splits)
qed

lemma mp3_par_event_records:
  "ring_of h (profiler (snd c)) \<Longrightarrow> mp3_par_event c xs d \<Longrightarrow> ring_of (h @ xs) (profiler (snd d))"
  by (erule mp3_par_event.cases)
    (auto dest: caller_frame wq_section_records intro: ring_of_frame
      simp: start_work_def queue_delayed_work_def split: if_splits)

interpretation mp3_par_record:
  recorded_invariant mp3_par_start mp3_par_step mp3_par_event "\<lambda>h c. ring_of h (profiler (snd c))"
proof (unfold_locales, goal_cases)
  case (2 c)
  then show ?case using mp3_record.record_start by (simp add: mp3_par_start_def)
qed (fact mp3_par_event_step, fact mp3_par_event_records)

section \<open>Stale nodes\<close>

text \<open>The node a caller's walk is at.\<close>

fun walks_at :: "mp3_caller \<Rightarrow> addr option" where
  "walks_at (Check_node p a) = Some a"
| "walks_at (Next_node p a) = Some a"
| "walks_at _ = None"

lemma stale_walk:
  assumes "world_inv w" "walks_at c = Some a" "a \<notin> set (nodes w)"
  shows "mp3_caller_step k new c w = Inl UseAfterFree"
proof -
  have "length (nodes w) = length (tl (profiler w))" using assms(1) by (simp add: world_inv_def)
  from node_at_freed [OF this assms(3)] show ?thesis using assms(2) by (cases c) simp_all
qed

lemma drop_node_gone:
  assumes "distinct as" "length as = length ts" "map_of (zip as ts) a = Some t" "remove_pid (pid t) ts = Some us"
    and "\<forall>u\<in>set ts. pid u = pid t \<longrightarrow> u = t" "distinct (map pid ts)"
  shows "a \<notin> set (drop_node (pid t) as ts)"
  using assms
proof (induction as arbitrary: ts us)
  case (Cons b as)
  obtain u vs where ts: "ts = u # vs" using Cons.prems(2) by (cases ts) auto
  show ?case
  proof (cases "b = a")
    case True
    then show ?thesis using Cons.prems ts by auto
  next
    case False
    then have "map_of (zip as vs) a = Some t" using Cons.prems(3) ts by simp
    then have "t \<in> set vs" by (auto dest: map_of_SomeD set_zip_rightD)
    then have "pid u \<noteq> pid t" using Cons.prems(6) ts by (metis distinct.simps(2) image_eqI list.set_map list.simps(9))
    then show ?thesis
      using Cons.IH [of vs] Cons.prems ts False by (auto split: if_splits)
  qed
qed simp

section \<open>Walks without deregistrations\<close>

definition steady :: "mp3_par \<Rightarrow> bool" where
  "steady c \<longleftrightarrow> (\<forall>x\<in>set (fst c). (\<forall>p. x \<noteq> Remove_node p) \<and> (\<forall>a. walks_at x = Some a \<longrightarrow> a \<in> set (nodes (snd c))))"

lemma walk_to_steady:
  "(\<forall>a. x = Some a \<longrightarrow> a \<in> A) \<Longrightarrow> (\<forall>q. walk_to p x \<noteq> Remove_node q) \<and> (\<forall>a. walks_at (walk_to p x) = Some a \<longrightarrow> a \<in> A)"
  by (auto simp: walk_to_def split: option.splits)

lemma caller_step_steady:
  assumes "mp3_caller_step k new c w = Inr (d, v)" "\<forall>p. c \<noteq> Remove_node p"
  shows "set (nodes w) \<subseteq> set (nodes v) \<and> (\<forall>q. d \<noteq> Remove_node q) \<and> (\<forall>a. walks_at d = Some a \<longrightarrow> a \<in> set (nodes v))"
proof (cases c)
  case (Start_walk p)
  then show ?thesis
    using assms walk_to_steady [of "first_node (nodes w)" "set (nodes w)" p] first_node_member by auto
next
  case (Check_node p a)
  then obtain t where t: "node_at (nodes w) (tl (profiler w)) a = Inr t" "v = w" "d = (if pid t = p then Gone (-1) else Next_node p a)"
    using assms by (auto simp: result_simps)
  then have "a \<in> set (nodes w)"
    by (auto simp: node_at_def split: option.splits dest!: map_of_SomeD set_zip_leftD)
  then show ?thesis using t by auto
next
  case (Next_node p a)
  then show ?thesis
    using assms walk_to_steady [of "next_node (nodes w) a" "set (nodes w)" p] next_node_member by (auto simp: result_simps)
next
  case (Link_node p)
  then show ?thesis using assms by (auto simp: result_simps split: if_splits)
qed (use assms in auto)

section \<open>Given orders of turns\<close>

text \<open>What is to happen next; a turn that is not possible is skipped.\<close>

datatype mp3_turn =
    Turn mp3_kernel addr nat
  | Expire
  | Work mp3_kernel
  | Requeue

fun mp3_act :: "mp3_turn \<Rightarrow> mp3_par \<Rightarrow> mp3_par result" where
  "mp3_act (Turn k new i) (cs, w) =
     (if i < length cs \<and> new \<notin> set (nodes w)
      then rbind (mp3_caller_step k new (cs ! i) w) (\<lambda>(c, v). Inr (cs[i := c], v)) else Inr (cs, w))"
| "mp3_act Expire (cs, w) =
     (if pending (profiler w) \<and> \<not> running (profiler w) \<and> \<not> requeueing w
      then Inr (cs, w\<lparr>profiler := start_work (profiler w)\<rparr>) else Inr (cs, w))"
| "mp3_act (Work k) (cs, w) =
     (if running (profiler w)
      then rbind (wq_section k ((profiler w)\<lparr>running := False\<rparr>)) (\<lambda>(d, s).
        Inr (cs, w\<lparr>profiler := s, requeueing := d\<rparr>)) else Inr (cs, w))"
| "mp3_act Requeue (cs, w) =
     (if requeueing w then rbind (queue_delayed_work (profiler w)) (\<lambda>s.
        Inr (cs, w\<lparr>profiler := s, requeueing := False\<rparr>)) else Inr (cs, w))"

fun mp3_acts :: "mp3_turn list \<Rightarrow> mp3_par \<Rightarrow> mp3_par result" where
  "mp3_acts [] c = Inr c"
| "mp3_acts (x # xs) c = rbind (mp3_act x c) (mp3_acts xs)"

lemma mp3_acts_append: "mp3_acts (xs @ ys) c = rbind (mp3_acts xs c) (mp3_acts ys)"
proof (induction xs arbitrary: c)
  case (Cons x xs)
  then show ?case by (cases "mp3_act x c") simp_all
qed simp

lemma act_step: "mp3_act x c = Inr d \<Longrightarrow> d = c \<or> mp3_par_step c d"
  by (induction x c rule: mp3_act.induct) (auto simp: result_simps split: if_splits intro: mp3_par_step.intros)

lemma acts_reach:
  "reach mp3_par_start mp3_par_step c \<Longrightarrow> mp3_acts xs c = Inr d \<Longrightarrow> reach mp3_par_start mp3_par_step d"
proof (induction xs arbitrary: c)
  case (Cons x xs)
  then obtain e where e: "mp3_act x c = Inr e" "mp3_acts xs e = Inr d" by (auto simp: result_simps)
  then have "reach mp3_par_start mp3_par_step e" using act_step [OF e(1)] Cons.prems(1) reach_step by metis
  then show ?case using Cons.IH e(2) by blast
qed simp

text \<open>Orders of turns without a run of the work take no samples.\<close>

lemma act_event: "mp3_act x c = Inr d \<Longrightarrow> \<forall>k. x \<noteq> Work k \<Longrightarrow> d = c \<or> mp3_par_event c [] d"
  by (induction x c rule: mp3_act.induct) (auto simp: result_simps split: if_splits intro: mp3_par_event.intros)

lemma acts_recorded:
  "recorded mp3_par_start mp3_par_event h c \<Longrightarrow> mp3_acts xs c = Inr d \<Longrightarrow> \<forall>k. Work k \<notin> set xs \<Longrightarrow>
   recorded mp3_par_start mp3_par_event h d"
proof (induction xs arbitrary: c)
  case (Cons x xs)
  then obtain e where e: "mp3_act x c = Inr e" "mp3_acts xs e = Inr d" by (auto simp: result_simps)
  have "e = c \<or> mp3_par_event c [] e" by (rule act_event [OF e(1)]) (use Cons.prems(3) in fastforce)
  then have "recorded mp3_par_start mp3_par_event h e" using recorded_step [OF Cons.prems(1), of "[]" e] Cons.prems(1) by auto
  then show ?case using Cons.IH e(2) Cons.prems(3) by simp
qed simp

lemma caller_no_stale:
  assumes "world_inv w" "\<forall>a. walks_at c = Some a \<longrightarrow> a \<in> set (nodes w)"
  shows "mp3_caller_step k new c w \<noteq> Inl UseAfterFree"
proof -
  have len: "length (nodes w) = length (tl (profiler w))" using assms(1) by (simp add: world_inv_def)
  show ?thesis
    using assms(2) node_at_member [OF len]
    by (cases c)
      (fastforce simp: register_link_def queue_delayed_work_def result_simps Task_deregister_mp3_eq flush_requeue_def Let_def
        split: if_splits option.splits)+
qed

lemma wq_section_no_stale:
  assumes "world_inv w" "running (profiler w)"
  shows "wq_section k ((profiler w)\<lparr>running := False\<rparr>) \<noteq> Inl UseAfterFree"
proof -
  let ?s = "(profiler w)\<lparr>running := False, lock := True\<rparr>"
  obtain m h where m: "vmem_buf ?s = Some m" "ring_holds h m (vmem_idx ?s)" using assms(1) by (auto simp: world_inv_def)
  then obtain r where "sample_loop k (tl (profiler w)) ?s = Inr r" using sample_loop_any [OF m] by blast
  then show ?thesis by (auto simp: wq_section_def result_simps Let_def split: if_splits)
qed

lemma act_steady:
  assumes inv: "world_inv (snd c)" and st: "steady c"
  shows "mp3_act x c \<noteq> Inl UseAfterFree" "mp3_act x c = Inr d \<Longrightarrow> steady d"
proof -
  obtain cs w where c: "c = (cs, w)" by (cases c)
  have st': "(\<forall>p. y \<noteq> Remove_node p) \<and> (\<forall>a. walks_at y = Some a \<longrightarrow> a \<in> set (nodes w))" if "y \<in> set cs" for y
    using st that by (simp add: steady_def c)
  show "mp3_act x c \<noteq> Inl UseAfterFree"
  proof (cases x)
    case (Turn k new i)
    show ?thesis
    proof (cases "i < length cs \<and> new \<notin> set (nodes w)")
      case True
      have "mp3_caller_step k new (cs ! i) w \<noteq> Inl UseAfterFree"
        using caller_no_stale inv st' [of "cs ! i"] True by (simp add: c)
      then show ?thesis using True by (auto simp: c Turn result_simps)
    qed (auto simp: c Turn)
  next
    case (Work k)
    then show ?thesis using wq_section_no_stale [of w k] inv by (auto simp: c result_simps)
  qed (auto simp: c queue_delayed_work_def)
  assume d: "mp3_act x c = Inr d"
  show "steady d"
  proof (cases x)
    case (Turn k new i)
    show ?thesis
    proof (cases "i < length cs \<and> new \<notin> set (nodes w)")
      case True
      then obtain y v where y: "mp3_caller_step k new (cs ! i) w = Inr (y, v)" "d = (cs[i := y], v)"
        using d by (auto simp: c Turn result_simps)
      have "\<forall>p. cs ! i \<noteq> Remove_node p" using st' True by simp
      note s = caller_step_steady [OF y(1) this]
      show ?thesis unfolding steady_def y(2) fst_conv snd_conv
      proof (intro ballI)
        fix z assume "z \<in> set (cs[i := y])"
        then have "z = y \<or> z \<in> set cs" using set_update_subset_insert by fastforce
        then show "(\<forall>p. z \<noteq> Remove_node p) \<and> (\<forall>a. walks_at z = Some a \<longrightarrow> a \<in> set (nodes v))"
          using s st' by blast
      qed
    qed (use d st in \<open>auto simp: c Turn\<close>)
  qed (use d st in \<open>auto simp: c steady_def result_simps split: if_splits\<close>)
qed

lemma acts_steady:
  "world_inv (snd c) \<Longrightarrow> steady c \<Longrightarrow> mp3_acts xs c \<noteq> Inl UseAfterFree"
proof (induction xs arbitrary: c)
  case (Cons x xs)
  show ?case
  proof (cases "mp3_act x c")
    case (Inl e)
    then show ?thesis using act_steady(1) [OF Cons.prems, of x] by simp
  next
    case (Inr d)
    have "world_inv (snd d)" using act_step [OF Inr] mp3_par_step_inv Cons.prems(1) by blast
    then show ?thesis using Cons.IH act_steady(2) [OF Cons.prems Inr] Inr by simp
  qed
qed simp

section \<open>A caller alone\<close>

lemma node_at_mid:
  assumes "distinct (xs @ a # as)" "length xs = length us"
  shows "node_at (xs @ a # as) (us @ t # ts) a = Inr t"
proof -
  have "map_of (zip (xs @ a # as) (us @ t # ts)) a = Some t"
    using assms map_of_zip_is_None [OF assms(2), of a] by (simp add: map_add_Some_iff)
  then show ?thesis by (simp only: node_at_def option.case)
qed

lemma mp3_acts_turns:
  "mp3_acts (replicate (Suc n) (Turn k new 0)) ([c], w) = (if new \<in> set (nodes w) then mp3_acts (replicate n (Turn k new 0)) ([c], w)
     else rbind (mp3_caller_step k new c w) (\<lambda>(c, w). mp3_acts (replicate n (Turn k new 0)) ([c], w)))"
  by (cases "mp3_caller_step k new c w") auto

text \<open>What a registration ends in, and that a walk from any node on ends in it.\<close>

definition registers :: "mp3_kernel \<Rightarrow> addr \<Rightarrow> u32 \<Rightarrow> mp3_world \<Rightarrow> mp3_par result" where
  "registers k new p w = rbind (Task_register_mp3 k p (profiler w)) (\<lambda>(r, s).
     Inr ([Gone r], w\<lparr>nodes := (if r = 0 then nodes w @ [new] else nodes w), profiler := s\<rparr>))"

lemma link_registers:
  assumes "p \<notin> pid ` set (tl (profiler w))" "new \<notin> set (nodes w)"
  shows "mp3_acts (replicate 1 (Turn k new 0)) ([Link_node p], w) = registers k new p w"
proof -
  have n: "\<not> register_known p (profiler w)" using assms(1) by (auto simp: register_known_def)
  show ?thesis using assms(2)
    by (cases "register_link (new_mp3_task k p) (profiler w)") (simp_all add: registers_def Task_register_mp3_def n)
qed

lemma walk_registers:
  assumes "new \<notin> set (nodes w)" "distinct (nodes w)"
  shows "nodes w = xs @ as \<Longrightarrow> tl (profiler w) = us @ ts \<Longrightarrow> length xs = length us \<Longrightarrow> length as = length ts \<Longrightarrow>
    p \<notin> pid ` set us \<Longrightarrow>
    \<exists>n. mp3_acts (replicate n (Turn k new 0)) ([walk_to p (first_node as)], w) = registers k new p w"
proof (induction as arbitrary: xs us ts)
  case Nil
  then show ?case
    using link_registers [of p w new k] assms(1) by (intro exI [of _ 1]) (simp add: first_node_def walk_to_def)
next
  case (Cons a as)
  obtain t vs where ts: "ts = t # vs" using Cons.prems(4) by (cases ts) auto
  have here: "node_at (nodes w) (tl (profiler w)) a = Inr t" "next_node (nodes w) a = first_node as"
    using node_at_mid [of xs a as us t vs] next_node_mid [of xs a as] assms(2) Cons.prems ts by simp_all
  show ?case
  proof (cases "pid t = p")
    case True
    then have "register_known p (profiler w)" using Cons.prems(2) ts by (auto simp: register_known_def)
    then have "registers k new p w = Inr ([Gone (-1)], w)" by (simp add: registers_def Task_register_mp3_def)
    moreover have "mp3_acts (replicate 1 (Turn k new 0)) ([Check_node p a], w) = Inr ([Gone (-1)], w)"
      using here True assms(1) by simp
    ultimately show ?thesis by (intro exI [of _ 1]) (simp add: first_node_def walk_to_def)
  next
    case False
    then obtain n where n: "mp3_acts (replicate n (Turn k new 0)) ([walk_to p (first_node as)], w) = registers k new p w"
      using Cons.IH [of "xs @ [a]" "us @ [t]" vs] Cons.prems ts by auto
    have "mp3_acts (replicate (Suc (Suc n)) (Turn k new 0)) ([Check_node p a], w) = registers k new p w"
      using here False assms(1) n by (simp only: mp3_acts_turns mp3_caller_step.simps rbind.simps if_False prod.case)
    moreover have "walk_to p (first_node (a # as)) = Check_node p a" by (simp add: first_node_def walk_to_def)
    ultimately show ?thesis by (intro exI [of _ "Suc (Suc n)"]) (simp only:)
  qed
qed

lemma register_alone:
  assumes "world_inv w" "new \<notin> set (nodes w)"
  shows "\<exists>n. mp3_acts (replicate n (Turn k new 0)) ([Start_walk p], w) = registers k new p w"
proof -
  obtain n where "mp3_acts (replicate n (Turn k new 0)) ([walk_to p (first_node (nodes w))], w) = registers k new p w"
    using walk_registers [of new w "[]" "nodes w" "[]" "tl (profiler w)" p k] assms by (auto simp: world_inv_def)
  then have "mp3_acts (replicate (Suc n) (Turn k new 0)) ([Start_walk p], w) = registers k new p w"
    using assms(2) by (simp only: mp3_acts_turns mp3_caller_step.simps rbind.simps if_False prod.case)
  then show ?thesis by blast
qed

lemma unregister_alone:
  assumes "\<not> requeueing w" "Task_deregister_mp3 k p (profiler w) = Inr (r, s)"
  shows "mp3_caller_step k new (Remove_node p) w =
    Inr (Gone r, w\<lparr>nodes := drop_node p (nodes w) (tl (profiler w)), profiler := s\<rparr>)"
  using assms by (simp add: flush_requeue_def Let_def)

section \<open>Two registrations of one pid\<close>

lemma both_registered:
  assumes "world_inv w" "nodes w = []" "\<not> lock (profiler w)" "node_ok k" "a \<noteq> b"
  shows "mp3_acts [Turn k a 0, Turn k b 1, Turn k a 0, Turn k b 1] ([Start_walk p, Start_walk p], w) =
    Inr ([Gone 0, Gone 0], w\<lparr>nodes := [a, b],
      profiler := (profiler w)\<lparr>tl := [new_mp3_task k p, new_mp3_task k p], lock := False, pending := True\<rparr>\<rparr>)"
proof -
  have "tl (profiler w) = []" "wq (profiler w)" using assms(1,2) by (auto simp: world_inv_def)
  then show ?thesis using assms(2-5)
    by (simp add: first_node_def walk_to_def register_link_def queue_delayed_work_def)
qed

text \<open>A pid that is listed twice is sampled twice, the second time with the counters the first time zeroed.\<close>

lemma sampled_twice:
  assumes "pid_task k p = Some a" "vmem_buf s = Some m" "unat (vmem_idx s) < CAP" "pid t = p" "pid u = p"
  shows "\<exists>ts. sample_loop k [t, u] s = Inr (True, ts, s\<lparr>counters := (counters s)(a := zero_counters),
    vmem_buf := Some (put (unat (next_idx (vmem_idx s))) (sample p zero_counters) (put (unat (vmem_idx s)) (sample p (counters s a)) m)),
    vmem_idx := next_idx (next_idx (vmem_idx s))\<rparr>) \<and> map pid ts = [p, p]"
proof -
  have al: "alive k t" "alive k u" and h: "home k t = a" "home k u = a" using assms(1,4,5) by (simp_all add: alive_def home_def)
  have "unat (next_idx (vmem_idx s)) < CAP" using unat_next_idx [OF assms(3)] by (simp add: CAP_def)
  then show ?thesis using assms(2-5) al h by (simp add: sample_loop_alive)
qed

section \<open>Work without processes\<close>

lemma idle_round:
  assumes "tl (profiler w) = []" "pending (profiler w)" "\<not> running (profiler w)" "\<not> requeueing w" "\<not> lock (profiler w)" "wq (profiler w)"
  shows "mp3_acts [Expire, Work k, Requeue] (cs, w) = Inr (cs, w)"
  using assms by (cases w, cases "profiler w") (simp add: start_work_def wq_section_def queue_delayed_work_def)

lemma idle_rounds:
  assumes "tl (profiler w) = []" "pending (profiler w)" "\<not> running (profiler w)" "\<not> requeueing w" "\<not> lock (profiler w)" "wq (profiler w)"
  shows "mp3_acts (concat (map (\<lambda>k. [Expire, Work k, Requeue]) ks)) (cs, w) = Inr (cs, w)"
proof (induction ks)
  case (Cons k ks)
  then show ?case using idle_round [OF assms, of k cs] by (simp only: concat.simps list.map mp3_acts_append rbind.simps)
qed simp

end
