(* ===== verification/Mp3_Race_Props.thy ===== *)
theory Mp3_Race_Props
  imports Mp3_Props Mp3_Races
begin

text \<open>
  The properties of the profiler under callers that take turns: what holds in every order of turns, and the
  orders that break the list and the delayed work.
\<close>

section \<open>A caller alone\<close>

text \<open>
  A caller that is not interrupted does what \<open>Task_register\<close> and \<open>Task_deregister\<close> do, with the
  same answer and the same faults.
\<close>

theorem mp3_callers_alone:
  assumes "world_inv w" "new \<notin> set (nodes w)"
  shows "\<exists>n. mp3_acts (replicate n (Turn k new 0)) ([Start_walk p], w) =
    rbind (Task_register_mp3 k p (profiler w)) (\<lambda>(r, s).
      Inr ([Gone r], w\<lparr>nodes := (if r = 0 then nodes w @ [new] else nodes w), profiler := s\<rparr>))"
  using register_alone [OF assms] by (simp only: registers_def)

section \<open>Every order of turns\<close>

definition fresh_world :: mp3_world where
  "fresh_world = \<lparr>nodes = [], requeueing = False, profiler = fresh_mp3\<rparr>"

lemma fresh_world_reach: "reach mp3_par_start mp3_par_step ([], fresh_world)"
  by (rule reach_start)
    (simp add: mp3_par_start_def fresh_world_def mp3_start_def mp3_init_def TaskList_init_def fresh_mp3_def mp3_static_def)

lemma fresh_world_inv: "world_inv fresh_world"
  using mp3_par.reachable_inv [OF fresh_world_reach] by simp

lemma fresh_world_simps [simp]:
  "nodes fresh_world = []" "\<not> requeueing fresh_world" "profiler fresh_world = fresh_mp3"
  by (simp_all add: fresh_world_def)

lemma called_reach:
  assumes "reach mp3_par_start mp3_par_step (cs, w)"
  shows "reach mp3_par_start mp3_par_step (cs @ [Start_walk p], w)"
    and "reach mp3_par_start mp3_par_step (cs @ [Remove_node p], w)"
  by (rule reach_step [OF assms par_register], rule reach_step [OF assms par_deregister])

lemma both_reach: "reach mp3_par_start mp3_par_step ([Start_walk 1, Start_walk 1], fresh_world)"
  using called_reach(1) [OF called_reach(1) [OF fresh_world_reach, of 1], of 1] by simp

definition both_listed :: mp3_world where
  "both_listed = fresh_world\<lparr>nodes := [5, 6],
     profiler := fresh_mp3\<lparr>tl := [new_mp3_task example_mp3 1, new_mp3_task example_mp3 1], lock := False, pending := True\<rparr>\<rparr>"

lemma both_listed_acts:
  "mp3_acts [Turn example_mp3 5 0, Turn example_mp3 6 1, Turn example_mp3 5 0, Turn example_mp3 6 1]
     ([Start_walk 1, Start_walk 1], fresh_world) = Inr ([Gone 0, Gone 0], both_listed)"
proof -
  have "\<not> lock (profiler fresh_world)" "node_ok example_mp3" by (simp_all add: fresh_mp3_def mp3_static_def example_mp3_def)
  from both_registered [OF fresh_world_inv _ this, of 5 6 1] show ?thesis by (simp add: both_listed_def)
qed

lemma both_listed_reach: "reach mp3_par_start mp3_par_step ([Gone 0, Gone 0], both_listed)"
  by (rule acts_reach [OF both_reach both_listed_acts])

text \<open>The work that the first registration queued has been started.\<close>

definition both_started :: mp3_world where
  "both_started = both_listed\<lparr>profiler := start_work ((profiler both_listed)\<lparr>counters := (\<lambda>_. busy_counters)\<rparr>)\<rparr>"

lemma both_started_recorded: "recorded mp3_par_start mp3_par_event [] ([Gone 0, Gone 0], both_started)"
proof -
  have start: "recorded mp3_par_start mp3_par_event [] ([], fresh_world)"
    by (rule recorded_start)
      (simp add: mp3_par_start_def fresh_world_def mp3_start_def mp3_init_def TaskList_init_def fresh_mp3_def mp3_static_def)
  have "recorded mp3_par_start mp3_par_event [] ([Start_walk 1, Start_walk 1], fresh_world)"
    using recorded_step [OF recorded_step [OF start par_event_register] par_event_register] by simp
  then have "recorded mp3_par_start mp3_par_event [] ([Gone 0, Gone 0], both_listed)"
    by (rule acts_recorded) (fact both_listed_acts, simp)
  note listed = recorded_step [OF this par_event_processes [of _ _ "\<lambda>_. busy_counters"], simplified append_Nil]
  have "pending (profiler both_listed)" "\<not> running (profiler both_listed)" "\<not> requeueing both_listed"
    by (simp_all add: both_listed_def fresh_mp3_def mp3_static_def fresh_world_def)
  then show ?thesis using recorded_step [OF listed par_event_expire] by (simp add: both_started_def start_work_def)
qed

lemma both_started_work:
  "\<exists>s. wq_section example_mp3 ((profiler both_started)\<lparr>running := False\<rparr>) = Inr (True, s) \<and>
    taken example_mp3 (counters (profiler both_started)) (tl (profiler both_started)) = [[1, 3, 2, 75], [1, 0, 0, 0]]"
proof -
  let ?s = "(profiler both_started)\<lparr>running := False, lock := True\<rparr>"
  have k: "pid_task example_mp3 1 = Some 1" by (simp add: example_mp3_def)
  have s: "vmem_buf ?s = Some (\<lambda>_. 0)" "unat (vmem_idx ?s) < CAP" "pid (new_mp3_task example_mp3 1) = 1"
    "tl (profiler both_started) = [new_mp3_task example_mp3 1, new_mp3_task example_mp3 1]" "\<not> lock (profiler both_started)"
    "counters (profiler both_started) = (\<lambda>_. busy_counters)"
    by (simp_all add: both_started_def both_listed_def start_work_def fresh_mp3_def mp3_static_def CAP_def new_mp3_task_def)
  obtain ts v where "sample_loop example_mp3 (tl (profiler both_started)) ?s = Inr (True, ts, v)"
    using sampled_twice [OF k s(1,2,3,3)] unfolding s(4) by blast
  then show ?thesis using s(3-6) k
    by (simp add: wq_section_def Let_def busy_counters_def sample_def util_percent_def zero_counters_def)
qed

text \<open>
  C25: The callers of \<open>Task_register\<close> and \<open>Task_deregister\<close>, the timer and the delayed work taking turns in
  any order (registrations walk the list without the lock, one node per turn), while the processes run: the nodes stay distinct and one
  per list entry. The shared buffer is the ring of the samples the runs of the work have taken since the module was loaded, as they are recorded
  along the order of turns: list order up to the first process that has ended, each sample zeroing the counts of its process. The write position stays inside the buffer.
  While no run that gave up holds the lock, a nonempty list has its work queued, started or on its way to queue its next run.
\<close>

theorem mp3_interleavings:
  assumes "reach mp3_par_start mp3_par_step (cs, w)"
  shows "distinct (nodes w) \<and> length (nodes w) = length (tl (profiler w)) \<and>
    (\<exists>h. recorded mp3_par_start mp3_par_event h (cs, w)) \<and>
    (\<forall>h. recorded mp3_par_start mp3_par_event h (cs, w) \<longrightarrow>
      (\<exists>m. vmem_buf (profiler w) = Some m \<and> ring_holds h m (vmem_idx (profiler w)))) \<and>
    4 * unat (vmem_idx (profiler w)) + 3 < VMEM_SIZE \<and>
    (\<not> lock (profiler w) \<longrightarrow> tl (profiler w) \<noteq> [] \<longrightarrow> pending (profiler w) \<or> running (profiler w) \<or> requeueing w)"
proof -
  have inv: "world_inv w" using mp3_par.reachable_inv [OF assms] by simp
  obtain h where h: "recorded mp3_par_start mp3_par_event h (cs, w)" using mp3_par_record.reach_recorded [OF assms] by blast
  have ring: "\<exists>m. vmem_buf (profiler w) = Some m \<and> ring_holds g m (vmem_idx (profiler w))"
    if "recorded mp3_par_start mp3_par_event g (cs, w)" for g
    using mp3_par_record.recorded_inv [OF that] by (simp add: ring_of_def)
  then obtain m where "ring_holds h m (vmem_idx (profiler w))" using h by blast
  then have idx: "4 * unat (vmem_idx (profiler w)) + 3 < VMEM_SIZE" using ring_idx by (fastforce simp: VMEM_SIZE_eq)
  have d: "distinct (nodes w)" "length (nodes w) = length (tl (profiler w))"
    "\<not> lock (profiler w) \<longrightarrow> tl (profiler w) \<noteq> [] \<longrightarrow> pending (profiler w) \<or> running (profiler w) \<or> requeueing w"
    using inv by (simp_all add: world_inv_def)
  show ?thesis by (intro conjI exI [of _ h] allI [OF impI]) (fact d h idx | erule ring)+
qed

theorem mp3_interleavings_witness:
  "\<exists>s m. wq_section example_mp3 ((profiler both_started)\<lparr>running := False\<rparr>) = Inr (True, s) \<and> vmem_buf s = Some m \<and>
     ring_holds [[1, 3, 2, 75], [1, 0, 0, 0]] m (vmem_idx s)"
proof -
  obtain s where s: "wq_section example_mp3 ((profiler both_started)\<lparr>running := False\<rparr>) = Inr (True, s)"
    using both_started_work by blast
  have taken: "taken example_mp3 (counters (profiler both_started)) (tl (profiler both_started)) = [[1, 3, 2, 75], [1, 0, 0, 0]]"
    using both_started_work by blast
  have "running (profiler both_started)" by (simp add: both_started_def start_work_def)
  note r = recorded_step [OF both_started_recorded par_event_work [OF this s], unfolded taken append_Nil]
  have "\<exists>m. vmem_buf (profiler (both_started\<lparr>profiler := s, requeueing := True\<rparr>)) = Some m \<and>
      ring_holds [[1, 3, 2, 75], [1, 0, 0, 0]] m (vmem_idx (profiler (both_started\<lparr>profiler := s, requeueing := True\<rparr>)))"
    by (rule mp3_interleavings [OF mp3_par_record.recorded_reach [OF r], THEN conjunct2, THEN conjunct2, THEN conjunct2,
          THEN conjunct1, THEN spec, THEN mp, OF r])
  then show ?thesis using s by simp
qed

text \<open>
  C29: The walk \<open>Task_register\<close> does before it takes the lock. As long as nobody deregisters, no turn of any caller
  ever reads a freed node. If a deregistration removes the node another caller's walk is at, that caller's next
  turn reads freed memory.
\<close>

theorem unlocked_walk_races:
  assumes "reach mp3_par_start mp3_par_step (cs, w)"
  shows "((\<forall>c\<in>set cs. (\<forall>p. c \<noteq> Remove_node p) \<and> walks_at c = None) \<longrightarrow> mp3_acts xs (cs, w) \<noteq> Inl UseAfterFree) \<and>
    (i < length cs \<and> walks_at (cs ! i) = Some a \<and> j < length cs \<and> cs ! j = Remove_node q \<and> new \<notin> set (nodes w) \<and>
     mp3_caller_step k new (cs ! j) w = Inr (c, v) \<and> a \<notin> set (nodes v) \<longrightarrow>
     mp3_acts [Turn k new j, Turn k' new i] (cs, w) = Inl UseAfterFree)"
proof -
  have inv: "world_inv w" using mp3_par.reachable_inv [OF assms] by simp
  have "mp3_acts xs (cs, w) \<noteq> Inl UseAfterFree" if "\<forall>c\<in>set cs. (\<forall>p. c \<noteq> Remove_node p) \<and> walks_at c = None"
    using that by (intro acts_steady) (auto simp: inv steady_def)
  moreover have "mp3_acts [Turn k new j, Turn k' new i] (cs, w) = Inl UseAfterFree"
    if h: "i < length cs" "walks_at (cs ! i) = Some a" "j < length cs" "cs ! j = Remove_node q" "new \<notin> set (nodes w)"
      "mp3_caller_step k new (cs ! j) w = Inr (c, v)" "a \<notin> set (nodes v)"
  proof -
    have "nodes v = drop_node q (nodes w) (tl (profiler w))"
      using h(4,6) by (auto simp: result_simps Let_def flush_requeue_def split: if_splits)
    then have new: "new \<notin> set (nodes v)" using drop_node_set h(5) by fastforce
    have "i \<noteq> j" using h(2,4) by auto
    then have ds: "i < length (cs[j := c])" "cs[j := c] ! i = cs ! i" using h(1) by simp_all
    have "world_inv v" using caller_step_inv [OF inv h(5,6)] .
    then have "mp3_caller_step k' new (cs[j := c] ! i) v = Inl UseAfterFree" using stale_walk h(2,7) ds(2) by simp
    then show ?thesis using h(3,5,6) new ds(1) by (simp del: mp3_caller_step.simps)
  qed
  ultimately show ?thesis by blast
qed

text \<open>Caller 0 has listed pid 1 at node 5, caller 1 is at that node, caller 2 is about to remove it.\<close>

definition one_listed :: mp3_world where
  "one_listed = fresh_world\<lparr>nodes := [5],
     profiler := fresh_mp3\<lparr>tl := [new_mp3_task example_mp3 1], lock := False, pending := True\<rparr>\<rparr>"

lemmas world_eval = one_listed_def first_node_def walk_to_def register_link_def queue_delayed_work_def fresh_mp3_def
  mp3_static_def example_mp3_def node_at_def new_mp3_task_def Task_deregister_mp3_eq flush_requeue_def

lemma walking_reach: "reach mp3_par_start mp3_par_step ([Gone 0, Check_node 2 5, Remove_node 1], one_listed)"
proof -
  have "reach mp3_par_start mp3_par_step ([Start_walk 1, Start_walk 2, Remove_node 1], fresh_world)"
    using called_reach(2) [OF called_reach(1) [OF called_reach(1) [OF fresh_world_reach, of 1], of 2], of 1] by simp
  then show ?thesis
    by (rule acts_reach [where xs = "[Turn example_mp3 5 0, Turn example_mp3 5 0, Turn example_mp3 6 1]"])
      (simp add: world_eval)
qed

theorem unlocked_walk_races_witness:
  "mp3_acts [Turn example_mp3 6 2, Turn example_mp3 6 1] ([Gone 0, Check_node 2 5, Remove_node 1], one_listed) =
     Inl UseAfterFree \<and>
   mp3_acts [Turn example_mp3 6 0, Turn example_mp3 6 1] ([Start_walk 1, Start_walk 1], fresh_world) \<noteq> Inl UseAfterFree"
proof -
  let ?cs = "[Gone 0, Check_node 2 5, Remove_node 1]"
  have "\<exists>v. mp3_caller_step example_mp3 6 (Remove_node 1) one_listed = Inr (Gone 0, v) \<and> 5 \<notin> set (nodes v)"
    by (simp add: world_eval)
  then obtain v where v: "mp3_caller_step example_mp3 6 (?cs ! 2) one_listed = Inr (Gone 0, v)" "5 \<notin> set (nodes v)"
    by auto
  have "6 \<notin> set (nodes one_listed)" by (simp add: one_listed_def)
  then have "mp3_acts [Turn example_mp3 6 2, Turn example_mp3 6 1] (?cs, one_listed) = Inl UseAfterFree"
    using unlocked_walk_races [OF walking_reach, of "[]" 1 5 2 1 6 example_mp3 "Gone 0" v example_mp3] v by simp
  moreover have "mp3_acts [Turn example_mp3 6 0, Turn example_mp3 6 1] ([Start_walk 1, Start_walk 1], fresh_world) \<noteq> Inl UseAfterFree"
    using conjunct1 [OF unlocked_walk_races [OF both_reach]] by simp
  ultimately show ?thesis by blast
qed

section \<open>What the races do to the work\<close>

text \<open>
  C30: The unlocked check for a known pid lets two registrations of one pid that take turns on an empty list both succeed. The pid
  is then listed twice; the next run samples it twice, the second time with the counters the first time has
  zeroed; and a deregistration, which answers 0, leaves the other node listed and the work queued.
\<close>

theorem duplicate_registration:
  assumes "reach mp3_par_start mp3_par_step (cs, w)" "nodes w = []" "\<not> lock (profiler w)" "\<not> running (profiler w)"
    and "\<not> requeueing w" "vmem_buf (profiler w) = Some m" "ring_holds h m (vmem_idx (profiler w))"
    and "node_ok k" "pid_task k p = Some task" "a \<noteq> b"
  shows "\<exists>v u x m'. mp3_acts [Turn k a 0, Turn k b 1, Turn k a 0, Turn k b 1] ([Start_walk p, Start_walk p], w) =
      Inr ([Gone 0, Gone 0], v) \<and> pids_mp3 (profiler v) = [p, p] \<and>
    mp3_acts [Expire, Work k, Requeue] ([], v) = Inr ([], u) \<and> vmem_buf (profiler u) = Some m' \<and>
    ring_holds (h @ [sample p (counters (profiler w) task), sample p zero_counters]) m' (vmem_idx (profiler u)) \<and>
    mp3_caller_step k c (Remove_node p) u = Inr (Gone 0, x) \<and> pids_mp3 (profiler x) = [p] \<and> pending (profiler x)"
proof -
  have inv: "world_inv w" using mp3_par.reachable_inv [OF assms(1)] by simp
  let ?n = "new_mp3_task k p"
  let ?v = "w\<lparr>nodes := [a, b], profiler := (profiler w)\<lparr>tl := [?n, ?n], lock := False, pending := True\<rparr>\<rparr>"
  note both = both_registered [OF inv assms(2,3,8,10), of p]
  let ?s = "(profiler w)\<lparr>tl := [?n, ?n], pending := False, running := False, lock := True\<rparr>"
  have wq: "wq (profiler w)" using inv by (simp add: world_inv_def)
  have idx: "unat (vmem_idx ?s) < CAP" using ring_idx [OF assms(7)] by simp
  have bp: "vmem_buf ?s = Some m" "pid ?n = p" using assms(6) by (simp_all add: new_mp3_task_def)
  obtain ts where loop: "sample_loop k [?n, ?n] ?s = Inr (True, ts, ?s\<lparr>counters := (counters ?s)(task := zero_counters),
      vmem_buf := Some (put (unat (next_idx (vmem_idx ?s))) (sample p zero_counters) (put (unat (vmem_idx ?s)) (sample p (counters ?s task)) m)),
      vmem_idx := next_idx (next_idx (vmem_idx ?s))\<rparr>)" "map pid ts = [p, p]"
    using exE [OF sampled_twice [OF assms(9) bp(1) idx bp(2) bp(2)]] conjunct1 conjunct2 by metis
  let ?m = "put (unat (next_idx (vmem_idx (profiler w)))) (sample p zero_counters)
    (put (unat (vmem_idx (profiler w))) (sample p (counters (profiler w) task)) m)"
  let ?u = "w\<lparr>nodes := [a, b], profiler := (profiler w)\<lparr>tl := ts, lock := False, pending := True, running := False,
    counters := (counters (profiler w))(task := zero_counters), vmem_buf := Some ?m,
    vmem_idx := next_idx (next_idx (vmem_idx (profiler w)))\<rparr>, requeueing := False\<rparr>"
  have run: "mp3_acts [Expire, Work k, Requeue] ([], ?v) = Inr ([], ?u)"
    using loop(1) assms(4,5) wq by (simp add: start_work_def wq_section_def queue_delayed_work_def)
  have ring: "ring_holds (h @ [sample p (counters (profiler w) task), sample p zero_counters]) ?m
      (next_idx (next_idx (vmem_idx (profiler w))))"
    using ring_push [OF ring_push [OF assms(7) sample_length] sample_length] by simp
  obtain t t' where ts: "ts = [t, t']" "pid t = p" "pid t' = p" using loop(2) by auto
  then have "remove_pid p (tl (profiler ?u)) = Some [t']" by simp
  then have "Task_deregister_mp3 k p (profiler ?u) = Inr (0, (profiler ?u)\<lparr>tl := [t'], lock := False, pending := True\<rparr>)"
    by (simp add: Task_deregister_mp3_eq)
  then obtain x where x: "mp3_caller_step k c (Remove_node p) ?u = Inr (Gone 0, x)"
      "profiler x = (profiler ?u)\<lparr>tl := [t'], lock := False, pending := True\<rparr>"
    using unregister_alone [of ?u k p 0 _ c] by fastforce
  have "pids_mp3 (profiler x) = [p]" "pending (profiler x)" using x(2) ts by (simp_all add: pids_mp3_def)
  moreover have "pids_mp3 (profiler ?v) = [p, p]" by (simp add: pids_mp3_def new_mp3_task_def)
  ultimately show ?thesis using both run ring x(1)
    by (intro exI [of _ ?v] exI [of _ ?u] exI [of _ x] exI [of _ ?m]) simp
qed

theorem duplicate_registration_witness:
  "\<exists>v u x m'. mp3_acts [Turn example_mp3 5 0, Turn example_mp3 6 1, Turn example_mp3 5 0, Turn example_mp3 6 1]
      ([Start_walk 1, Start_walk 1], fresh_world) = Inr ([Gone 0, Gone 0], v) \<and>
    mp3_acts [Expire, Work example_mp3, Requeue] ([], v) = Inr ([], u) \<and> vmem_buf (profiler u) = Some m' \<and>
    ring_holds [[1, 0, 0, 0], [1, 0, 0, 0]] m' (vmem_idx (profiler u)) \<and>
    mp3_caller_step example_mp3 7 (Remove_node 1) u = Inr (Gone 0, x) \<and> pids_mp3 (profiler x) = [1]"
proof -
  have z: "sample 1 zero_counters = [1, 0, 0, 0]" by (simp add: sample_def zero_counters_def util_percent_def)
  have f: "\<not> lock (profiler fresh_world)" "\<not> running (profiler fresh_world)" "vmem_buf (profiler fresh_world) = Some (\<lambda>_. 0)"
    "ring_holds [] (\<lambda>_. 0) (vmem_idx (profiler fresh_world))" "counters (profiler fresh_world) = (\<lambda>_. zero_counters)"
    using ring_empty by (simp_all add: fresh_mp3_def mp3_static_def)
  have k: "node_ok example_mp3" "pid_task example_mp3 1 = Some 1" "(5 :: addr) \<noteq> 6" by (simp_all add: example_mp3_def)
  have g: "nodes fresh_world = []" "\<not> requeueing fresh_world" by simp_all
  note d = duplicate_registration [OF fresh_world_reach g(1) f(1,2) g(2) f(3,4) k, of 7, unfolded f(5) append.simps z]
  from d obtain v u x m' where "mp3_acts [Turn example_mp3 5 0, Turn example_mp3 6 1, Turn example_mp3 5 0, Turn example_mp3 6 1]
      ([Start_walk 1, Start_walk 1], fresh_world) = Inr ([Gone 0, Gone 0], v)"
    "mp3_acts [Expire, Work example_mp3, Requeue] ([], v) = Inr ([], u)" "vmem_buf (profiler u) = Some m'"
    "ring_holds [[1, 0, 0, 0], [1, 0, 0, 0]] m' (vmem_idx (profiler u))"
    "mp3_caller_step example_mp3 7 (Remove_node 1) u = Inr (Gone 0, x)" "pids_mp3 (profiler x) = [1]"
    by blast
  then show ?thesis by blast
qed

text \<open>
  C31: The handler gives the lock back before it queues its next run. If the last process deregisters in
  between, there is nothing queued to cancel and the run then queues itself: the list is empty, the work is queued, and
  every later run finds an empty list and queues the next, for ever.
\<close>

theorem work_outlives_processes:
  assumes "reach mp3_par_start mp3_par_step (cs, w)" "tl (profiler w) = [t]" "\<not> lock (profiler w)" "pending (profiler w)"
    and "\<not> running (profiler w)" "\<not> requeueing w" "alive k t" "new \<notin> set (nodes w)"
  shows "\<exists>v. mp3_acts [Expire, Work k, Turn k new 0] ([Remove_node (pid t)], w) = Inr ([Gone 0], v) \<and>
    tl (profiler v) = [] \<and> pending (profiler v) \<and>
    (\<forall>ks. mp3_acts (concat (map (\<lambda>k. [Expire, Work k, Requeue]) ks)) ([Gone 0], v) = Inr ([Gone 0], v))"
proof -
  have inv: "world_inv w" using mp3_par.reachable_inv [OF assms(1)] by simp
  then obtain m h where m: "vmem_buf (profiler w) = Some m" "ring_holds h m (vmem_idx (profiler w))" and wq: "wq (profiler w)"
    by (auto simp: world_inv_def)
  let ?s = "(profiler w)\<lparr>pending := False, running := False, lock := True\<rparr>"
  obtain c m' i where loop: "sample_loop k [t] ?s = Inr (True, [refreshed k (counters ?s (home k t)) t],
      ?s\<lparr>counters := c, vmem_buf := Some m', vmem_idx := i\<rparr>)"
    using sample_loop_alive [OF assms(7), of ?s m "[]"] m ring_idx [OF m(2)] by auto
  let ?t = "refreshed k (counters ?s (home k t)) t"
  let ?p = "(profiler w)\<lparr>tl := [], pending := True, running := False, lock := False, counters := c, vmem_buf := Some m', vmem_idx := i\<rparr>"
  let ?v = "w\<lparr>nodes := drop_node (pid t) (nodes w) [?t], profiler := ?p, requeueing := False\<rparr>"
  have run: "mp3_acts [Expire, Work k, Turn k new 0] ([Remove_node (pid t)], w) = Inr ([Gone 0], ?v)"
    using loop assms(2-6,8) wq
    by (simp add: start_work_def wq_section_def Task_deregister_mp3_eq flush_requeue_def queue_delayed_work_def Let_def)
  have "mp3_acts (concat (map (\<lambda>k. [Expire, Work k, Requeue]) ks)) ([Gone 0], ?v) = Inr ([Gone 0], ?v)" for ks
    by (rule idle_rounds) (use wq in simp_all)
  then show ?thesis using run by (intro exI [of _ ?v]) simp
qed

lemma one_listed_reach: "reach mp3_par_start mp3_par_step ([Gone 0], one_listed)"
proof -
  have "reach mp3_par_start mp3_par_step ([Start_walk 1], fresh_world)"
    using called_reach(1) [OF fresh_world_reach, of 1] by simp
  then show ?thesis
    by (rule acts_reach [where xs = "[Turn example_mp3 5 0, Turn example_mp3 5 0]"]) (simp add: world_eval)
qed

theorem work_outlives_processes_witness:
  "\<exists>v. mp3_acts [Expire, Work example_mp3, Turn example_mp3 6 0] ([Remove_node 1], one_listed) = Inr ([Gone 0], v) \<and>
     tl (profiler v) = [] \<and> pending (profiler v)"
proof -
  have h: "tl (profiler one_listed) = [new_mp3_task example_mp3 1]" "\<not> lock (profiler one_listed)" "pending (profiler one_listed)"
    "\<not> running (profiler one_listed)" "\<not> requeueing one_listed" "alive example_mp3 (new_mp3_task example_mp3 1)"
    "6 \<notin> set (nodes one_listed)"
    by (simp_all add: one_listed_def alive_def example_mp3_def new_mp3_task_def fresh_mp3_def mp3_static_def)
  have "pid (new_mp3_task example_mp3 1) = 1" by (simp add: new_mp3_task_def)
  note w = work_outlives_processes [OF one_listed_reach h, unfolded this]
  from w obtain v where "mp3_acts [Expire, Work example_mp3, Turn example_mp3 6 0] ([Remove_node 1], one_listed) = Inr ([Gone 0], v)"
    "tl (profiler v) = []" "pending (profiler v)"
    by blast
  then show ?thesis by blast
qed

end
