(* ===== verification/Mp4_Given.thy ===== *)
theory Mp4_Given
  imports CString
begin

unbundle bit_operations_syntax

text \<open>
  The labels of the security module, \<open>MP4/mp4_given.h\<close>: their numbers, the translation of an
  attribute's bytes into a label, and the paths that are not checked.
\<close>

section \<open>Labels\<close>

definition XATTR_MP4_SUFFIX :: string where
  "XATTR_MP4_SUFFIX = ''mp4''"

text \<open>\<open>XATTR_SECURITY_PREFIX\<close> is \<open>"security."\<close>.\<close>

definition XATTR_NAME_MP4 :: string where
  "XATTR_NAME_MP4 = ''security.'' @ XATTR_MP4_SUFFIX"

definition MP4_NO_ACCESS :: int where
  "MP4_NO_ACCESS = 0"

definition MP4_READ_OBJ :: int where
  "MP4_READ_OBJ = 1"

definition MP4_READ_WRITE :: int where
  "MP4_READ_WRITE = 2"

definition MP4_WRITE_OBJ :: int where
  "MP4_WRITE_OBJ = 3"

definition MP4_EXEC_OBJ :: int where
  "MP4_EXEC_OBJ = 4"

definition MP4_READ_DIR :: int where
  "MP4_READ_DIR = 5"

definition MP4_RW_DIR :: int where
  "MP4_RW_DIR = 6"

definition MP4_TARGET_SID :: int where
  "MP4_TARGET_SID = 7"

lemmas label_defs = MP4_NO_ACCESS_def MP4_READ_OBJ_def MP4_READ_WRITE_def MP4_WRITE_OBJ_def
  MP4_EXEC_OBJ_def MP4_READ_DIR_def MP4_RW_DIR_def MP4_TARGET_SID_def

text \<open>The label object that a credential points to has the flags as its only field.\<close>

type_synonym mp4_security = int

section \<open>From an attribute to a label\<close>

text \<open>The argument is the memory at \<open>cred_ctx\<close>; \<open>strcmp\<close> reads it up to the first NUL.\<close>

definition cred_ctx_to_sid :: "char list \<Rightarrow> int" where
  "cred_ctx_to_sid cred_ctx =
     (if strcmp_eq cred_ctx ''read-only'' then MP4_READ_OBJ
      else if strcmp_eq cred_ctx ''read-write'' then MP4_READ_WRITE
      else if strcmp_eq cred_ctx ''exec'' then MP4_EXEC_OBJ
      else if strcmp_eq cred_ctx ''target'' then MP4_TARGET_SID
      else if strcmp_eq cred_ctx ''write-only'' then MP4_WRITE_OBJ
      else if strcmp_eq cred_ctx ''dir'' then MP4_READ_DIR
      else if strcmp_eq cred_ctx ''dir-write'' then MP4_RW_DIR
      else MP4_NO_ACCESS)"

text \<open>The name of each label, as the attribute is written by \<open>setfattr\<close>.\<close>

definition label_name :: "int \<Rightarrow> string" where
  "label_name sid =
     (if sid = MP4_READ_OBJ then ''read-only''
      else if sid = MP4_READ_WRITE then ''read-write''
      else if sid = MP4_EXEC_OBJ then ''exec''
      else if sid = MP4_TARGET_SID then ''target''
      else if sid = MP4_WRITE_OBJ then ''write-only''
      else if sid = MP4_READ_DIR then ''dir''
      else if sid = MP4_RW_DIR then ''dir-write''
      else ''none'')"

lemma label_name_no_NUL: "NUL \<notin> set (label_name sid)"
  by (simp add: label_name_def NUL_def)

lemma cred_ctx_range: "0 \<le> cred_ctx_to_sid m \<and> cred_ctx_to_sid m \<le> 7"
  by (simp add: cred_ctx_to_sid_def label_defs)

lemma cred_ctx_label:
  assumes "0 \<le> sid" "sid \<le> 7" "cstr mem = label_name sid"
  shows "cred_ctx_to_sid mem = sid"
proof -
  have "sid \<in> {0, 1, 2, 3, 4, 5, 6, 7}" using assms(1,2) by auto
  then show ?thesis using assms(3)
    by (auto simp: cred_ctx_to_sid_def strcmp_eq_def label_name_def label_defs)
qed

text \<open>Text that reads as one of the labels 1 to 7 is that label's name.\<close>

lemma label_of_text: "cred_ctx_to_sid mem \<noteq> MP4_NO_ACCESS \<Longrightarrow> cstr mem = label_name (cred_ctx_to_sid mem)"
  by (auto simp: cred_ctx_to_sid_def strcmp_eq_def label_name_def label_defs split: if_splits)

lemma cred_ctx_cong: "cstr m = cstr m' \<Longrightarrow> cred_ctx_to_sid m = cred_ctx_to_sid m'"
  by (simp add: cred_ctx_to_sid_def strcmp_eq_def)

text \<open>The label of an object by its attribute alone, whatever memory the attribute is read into.\<close>

definition attribute_sid :: "char list option \<Rightarrow> int" where
  "attribute_sid v = (case v of None \<Rightarrow> MP4_NO_ACCESS | Some l \<Rightarrow> cred_ctx_to_sid l)"

section \<open>Paths that are not checked\<close>

definition mp4_should_skip_path :: "string \<Rightarrow> bool" where
  "mp4_should_skip_path dir \<longleftrightarrow>
     strncmp_eq dir ''/dev'' 4 \<or>
     strncmp_eq dir ''/proc'' 5 \<or>
     strncmp_eq dir ''/lib'' 4 \<or>
     strncmp_eq dir ''/events'' 7 \<or>
     strncmp_eq dir ''/mnt'' 4 \<or>
     strncmp_eq dir ''/run'' 4 \<or>
     strncmp_eq dir ''/lvm'' 4 \<or>
     strncmp_eq dir ''/conf'' 5 \<or>
     strncmp_eq dir ''/usr'' 4 \<or>
     strncmp_eq dir ''/bin'' 4 \<or>
     strcmp_eq dir ''/''"

end
