(* ===== verification/Mp4.thy ===== *)
theory Mp4
  imports Mp4_Given
begin

unbundle bit_operations_syntax

text \<open>
  The hooks of the security module \<open>MP4/mp4.c\<close>: reading an inode's label, labelling a process
  at \<open>exec\<close>, the life of a credential's label, labelling a new inode, and the access decision.
\<close>

section \<open>What the kernel supplies\<close>

text \<open>
  Inodes, dentries, credentials and allocated objects are addresses. The kernel finds an alias
  dentry of an inode, says whether the inode's filesystem has \<open>getxattr\<close>, gives the bytes of an
  attribute (\<open>None\<close> is an error, which leaves the caller's buffer alone) and the path of a dentry
  (\<open>None\<close> is an error pointer), and holds the mode of an inode.
\<close>

record lsm_kernel =
  d_find_alias :: "addr \<Rightarrow> addr option"
  has_getxattr :: "addr \<Rightarrow> bool"
  getxattr :: "addr \<Rightarrow> string \<Rightarrow> nat \<Rightarrow> char list option"
  dentry_path :: "addr \<Rightarrow> nat \<Rightarrow> string option"
  i_mode :: "addr \<Rightarrow> u16"

text \<open>
  The state: the security pointer of every credential, the flags in every allocated
  \<open>mp4_security\<close>, the references held on dentries and the number of temporary buffers that are
  allocated and not freed.
\<close>

record lsm_state =
  security :: "addr \<Rightarrow> addr option option"
  blobs :: "addr \<Rightarrow> mp4_security option"
  dentry_refs :: "addr \<Rightarrow> nat"
  buffers :: nat

definition dget :: "addr \<Rightarrow> lsm_state \<Rightarrow> lsm_state" where
  "dget d s = s\<lparr>dentry_refs := (dentry_refs s)(d := Suc (dentry_refs s d))\<rparr>"

definition dput :: "addr \<Rightarrow> lsm_state \<Rightarrow> lsm_state" where
  "dput d s = s\<lparr>dentry_refs := (dentry_refs s)(d := dentry_refs s d - 1)\<rparr>"

definition take_buffer :: "lsm_state \<Rightarrow> lsm_state" where
  "take_buffer s = s\<lparr>buffers := Suc (buffers s)\<rparr>"

definition free_buffer :: "lsm_state \<Rightarrow> lsm_state" where
  "free_buffer s = s\<lparr>buffers := buffers s - 1\<rparr>"

lemma dput_dget [simp]: "dput d (dget d s) = s"
  by (cases s) (simp add: dget_def dput_def)

lemma free_take [simp]: "free_buffer (take_buffer s) = s"
  by (cases s) (simp add: take_buffer_def free_buffer_def)

lemma dput_take: "dput d (take_buffer s) = take_buffer (dput d s)"
  by (simp add: dput_def take_buffer_def)

definition ENOMEM :: int where
  "ENOMEM = 12"

definition EACCES :: int where
  "EACCES = 13"

definition EOPNOTSUPP :: int where
  "EOPNOTSUPP = 95"

lemmas errno_defs = ENOMEM_def EACCES_def EOPNOTSUPP_def

text \<open>\<open>cred->security\<close> of a live credential, and a read through a security pointer.\<close>

definition security_of :: "addr \<Rightarrow> lsm_state \<Rightarrow> addr option result" where
  "security_of c s = (case security s c of None \<Rightarrow> Inl UseAfterFree | Some p \<Rightarrow> Inr p)"

definition flags_at :: "addr option \<Rightarrow> lsm_state \<Rightarrow> int result" where
  "flags_at p s =
     (case p of None \<Rightarrow> Inl NullDeref
      | Some a \<Rightarrow> (case blobs s a of None \<Rightarrow> Inl UseAfterFree | Some f \<Rightarrow> Inr f))"

section \<open>The label of an inode\<close>

text \<open>\<open>getxattr\<close> writes the value over the first bytes of the buffer and adds no NUL.\<close>

definition fill_buffer :: "char list option \<Rightarrow> char list \<Rightarrow> char list" where
  "fill_buffer v junk = (case v of None \<Rightarrow> junk | Some bs \<Rightarrow> bs @ drop (length bs) junk)"

text \<open>
  \<open>val\<close> is what \<open>kmalloc(256)\<close> gives: \<open>None\<close> a null pointer, otherwise the old contents of the
  block. The result of \<open>getxattr\<close> is not looked at.
\<close>

definition get_inode_sid ::
    "lsm_kernel \<Rightarrow> char list option \<Rightarrow> addr \<Rightarrow> lsm_state \<Rightarrow> (int \<times> lsm_state) result" where
  "get_inode_sid k val inode s =
     (case d_find_alias k inode of
        None \<Rightarrow> Inr (0, s)
      | Some d \<Rightarrow>
          let s = dget d s in
          if \<not> has_getxattr k inode then Inr (-1, dput d s)
          else
            (case val of
               None \<Rightarrow> Inl NullDeref
             | Some junk \<Rightarrow>
                 let s = take_buffer s;
                     sid = cred_ctx_to_sid (fill_buffer (getxattr k d XATTR_NAME_MP4 255) junk) in
                 Inr (sid, free_buffer (dput d s))))"

section \<open>Labels of processes\<close>

record linux_binprm =
  bprm_cred :: addr
  bprm_inode :: addr

definition mp4_bprm_set_creds ::
    "lsm_kernel \<Rightarrow> char list option \<Rightarrow> linux_binprm \<Rightarrow> lsm_state \<Rightarrow> (int \<times> lsm_state) result" where
  "mp4_bprm_set_creds k val bprm s =
     rbind (security_of (bprm_cred bprm) s) (\<lambda>msec.
     rbind (get_inode_sid k val (bprm_inode bprm) s) (\<lambda>(sid, s).
     if 0 \<le> sid then
       rbind (flags_at msec s) (\<lambda>_. Inr (0, s\<lparr>blobs := (blobs s)(the msec \<mapsto> sid)\<rparr>))
     else Inr (0, s)))"

definition mp4_cred_alloc_blank :: "addr option \<Rightarrow> addr \<Rightarrow> lsm_state \<Rightarrow> (int \<times> lsm_state) result" where
  "mp4_cred_alloc_blank new cred s =
     (case new of
        None \<Rightarrow> Inr (- ENOMEM, s)
      | Some a \<Rightarrow>
          Inr (0, s\<lparr>blobs := (blobs s)(a \<mapsto> MP4_NO_ACCESS),
                    security := (security s)(cred \<mapsto> Some a)\<rparr>))"

definition mp4_cred_free :: "addr \<Rightarrow> lsm_state \<Rightarrow> lsm_state result" where
  "mp4_cred_free cred s =
     rbind (security_of cred s) (\<lambda>msec.
     let s = s\<lparr>security := (security s)(cred \<mapsto> None)\<rparr> in
     case msec of
       None \<Rightarrow> Inr s
     | Some a \<Rightarrow> if blobs s a = None then Inl UseAfterFree else Inr (s\<lparr>blobs := (blobs s)(a := None)\<rparr>))"

text \<open>The error of the inner allocation is not passed on.\<close>

definition mp4_cred_prepare :: "addr option \<Rightarrow> addr \<Rightarrow> addr \<Rightarrow> lsm_state \<Rightarrow> (int \<times> lsm_state) result" where
  "mp4_cred_prepare obj new old s =
     rbind (security_of old s) (\<lambda>old_msec.
     case old_msec of
       None \<Rightarrow> rbind (mp4_cred_alloc_blank obj new s) (\<lambda>(ret, s). Inr (0, s))
     | Some m \<Rightarrow>
         (case obj of
            None \<Rightarrow> Inr (- ENOMEM, s)
          | Some a \<Rightarrow>
              rbind (flags_at old_msec s) (\<lambda>f.
              Inr (0, s\<lparr>blobs := (blobs s)(a \<mapsto> f), security := (security s)(new \<mapsto> Some a)\<rparr>))))"

section \<open>The label of a new inode\<close>

definition S_ISREG :: "u16 \<Rightarrow> bool" where
  "S_ISREG m \<longleftrightarrow> m AND 0xF000 = 0x8000"

definition S_ISDIR :: "u16 \<Rightarrow> bool" where
  "S_ISDIR m \<longleftrightarrow> m AND 0xF000 = 0x4000"

text \<open>
  The caller's three output cells: \<open>None\<close> stands for a null \<open>*value\<close> (or one not written). Each
  cell may itself be absent, a null \<open>name\<close>, \<open>value\<close> or \<open>len\<close>.
\<close>

record xattr_out =
  xname :: "string option"
  xvalue :: "string option"
  xlen :: "nat option"

definition mp4_inode_init_security ::
    "lsm_kernel \<Rightarrow> bool \<Rightarrow> addr \<Rightarrow> addr \<Rightarrow> bool \<Rightarrow> bool \<Rightarrow> bool \<Rightarrow> xattr_out \<Rightarrow> lsm_state \<Rightarrow>
     (int \<times> xattr_out) result" where
  "mp4_inode_init_security k kstrdup_ok current inode name value len out s =
     rbind (security_of current s) (\<lambda>cs.
     rbind (flags_at cs s) (\<lambda>current_level.
     let out = (if name then out\<lparr>xname := Some XATTR_MP4_SUFFIX\<rparr> else out) in
     if value \<and> len then
       if current_level = MP4_TARGET_SID then
         let dup = (\<lambda>v. if kstrdup_ok then Some v else None);
             out = (if S_ISREG (i_mode k inode) then
                      out\<lparr>xvalue := dup ''read-write'', xlen := Some (length ''read-write'')\<rparr>
                    else if S_ISDIR (i_mode k inode) then
                      out\<lparr>xvalue := dup ''dir-write'', xlen := Some (length ''dir-write'')\<rparr>
                    else out) in
         if xvalue out = None then Inr (- ENOMEM, out) else Inr (0, out)
       else Inr (0, out)
     else Inr (- EOPNOTSUPP, out)))"

section \<open>The access decision\<close>

definition MAY_EXEC :: u32 where
  "MAY_EXEC = 1"

definition MAY_WRITE :: u32 where
  "MAY_WRITE = 2"

definition MAY_READ :: u32 where
  "MAY_READ = 4"

lemmas may_defs = MAY_EXEC_def MAY_WRITE_def MAY_READ_def

definition object_mask :: "int \<Rightarrow> int \<Rightarrow> u32" where
  "object_mask ssid osid =
     (if ssid = MP4_TARGET_SID then
        (if osid = MP4_READ_OBJ then MAY_READ
         else if osid = MP4_READ_WRITE then MAY_READ OR MAY_WRITE
         else if osid = MP4_WRITE_OBJ then MAY_WRITE
         else if osid = MP4_EXEC_OBJ then MAY_READ OR MAY_EXEC
         else if osid = MP4_READ_DIR then MAY_READ OR MAY_EXEC
         else if osid = MP4_RW_DIR then MAY_READ OR MAY_EXEC OR MAY_WRITE
         else 0)
      else
        (if osid = MP4_READ_OBJ \<or> osid = MP4_READ_WRITE \<or> osid = MP4_WRITE_OBJ then MAY_READ
         else if osid = MP4_NO_ACCESS then MAY_READ OR MAY_WRITE OR MAY_EXEC
         else if osid = MP4_EXEC_OBJ then MAY_READ OR MAY_EXEC
         else if osid = MP4_READ_DIR \<or> osid = MP4_RW_DIR then MAY_READ OR MAY_EXEC
         else 0))"

definition mp4_has_permission :: "int \<Rightarrow> int \<Rightarrow> u32 \<Rightarrow> int" where
  "mp4_has_permission ssid osid msk =
     (let o_mask = object_mask ssid osid in
      if msk OR o_mask = o_mask then 0 else - EACCES)"

text \<open>
  \<open>buf\<close> says whether the path buffer could be allocated; it is never freed. \<open>val\<close> is the buffer of
  \<open>get_inode_sid\<close>.
\<close>

definition mp4_inode_permission ::
    "lsm_kernel \<Rightarrow> bool \<Rightarrow> char list option \<Rightarrow> addr \<Rightarrow> addr \<Rightarrow> u32 \<Rightarrow> lsm_state \<Rightarrow>
     (int \<times> lsm_state) result" where
  "mp4_inode_permission k buf val current inode msk s =
     rbind (security_of current s) (\<lambda>cs.
     let s = (if buf then take_buffer s else s) in
     case d_find_alias k inode of
       None \<Rightarrow> Inr (0, s)
     | Some d \<Rightarrow>
         let s = dget d s in
         if \<not> buf then Inl NullDeref
         else
           (case dentry_path k d 255 of
              None \<Rightarrow> Inr (0, dput d s)
            | Some res \<Rightarrow>
                if mp4_should_skip_path res then Inr (0, dput d s)
                else
                  rbind (flags_at cs s) (\<lambda>ssid.
                  rbind (get_inode_sid k val inode s) (\<lambda>(osid, s).
                  if osid < 0 then Inr (0, dput d s)
                  else
                    let msk = msk AND (MAY_READ OR MAY_EXEC OR MAY_WRITE);
                        perm = mp4_has_permission ssid osid msk in
                    Inr (perm, dput d s)))))"

section \<open>Registration of the hooks\<close>

datatype hook =
    Inode_init_security
  | Inode_permission
  | Bprm_set_creds
  | Cred_alloc_blank
  | Cred_free
  | Cred_prepare

definition mp4_hooks :: "hook list" where
  "mp4_hooks = [Inode_init_security, Inode_permission, Bprm_set_creds, Cred_alloc_blank,
     Cred_free, Cred_prepare]"

definition mp4_init :: "(string \<Rightarrow> bool) \<Rightarrow> hook list \<Rightarrow> int \<times> hook list" where
  "mp4_init security_module_enable hooks =
     (if \<not> security_module_enable ''mp4'' then (0, hooks) else (0, hooks @ mp4_hooks))"

end
