(* ===== verification/Mp4_Policy.thy ===== *)
theory Mp4_Policy
  imports Mp4
begin

unbundle bit_operations_syntax

text \<open>
  The abstract access policy behind \<open>mp4_has_permission\<close>: rights form a lattice, a request is
  granted when it is below the rights of the subject on the object, and the rights are those the
  comments of \<open>MP4/mp4_given.h\<close> give to each label.
\<close>

section \<open>Access rights\<close>

datatype access = Access (may_read: bool) (may_write: bool) (may_exec: bool)

instantiation access :: bounded_lattice
begin

definition less_eq_access :: "access \<Rightarrow> access \<Rightarrow> bool" where
  "less_eq_access a b \<longleftrightarrow> (may_read a \<longrightarrow> may_read b) \<and> (may_write a \<longrightarrow> may_write b) \<and>
     (may_exec a \<longrightarrow> may_exec b)"

definition less_access :: "access \<Rightarrow> access \<Rightarrow> bool" where
  "less_access a b \<longleftrightarrow> a \<le> b \<and> \<not> b \<le> a"

definition inf_access :: "access \<Rightarrow> access \<Rightarrow> access" where
  "inf_access a b = Access (may_read a \<and> may_read b) (may_write a \<and> may_write b) (may_exec a \<and> may_exec b)"

definition sup_access :: "access \<Rightarrow> access \<Rightarrow> access" where
  "sup_access a b = Access (may_read a \<or> may_read b) (may_write a \<or> may_write b) (may_exec a \<or> may_exec b)"

definition bot_access :: access where
  "bot_access = Access False False False"

definition top_access :: access where
  "top_access = Access True True True"

instance
  by standard (auto simp: less_eq_access_def less_access_def inf_access_def sup_access_def
      bot_access_def top_access_def access.expand)

end

definition access_of :: "u32 \<Rightarrow> access" where
  "access_of m = Access (bit m 2) (bit m 1) (bit m 0)"

text \<open>A mask of the three rights the module looks at.\<close>

definition rwx_mask :: "u32 \<Rightarrow> bool" where
  "rwx_mask m \<longleftrightarrow> m AND (MAY_READ OR MAY_EXEC OR MAY_WRITE) = m"

lemma low_mask: "MAY_READ OR MAY_EXEC OR MAY_WRITE = (mask 3 :: u32)"
  by (simp add: may_defs mask_eq_exp_minus_1)

lemma rwx_mask_bit: "rwx_mask m \<Longrightarrow> bit m n \<Longrightarrow> n < 3"
  unfolding rwx_mask_def low_mask by (metis bit_and_iff bit_mask_iff)

lemma rwx_mask_and: "rwx_mask (m AND (MAY_READ OR MAY_EXEC OR MAY_WRITE))"
  by (simp add: rwx_mask_def and.assoc)

lemma rwx_mask_or: "rwx_mask m \<Longrightarrow> rwx_mask m' \<Longrightarrow> rwx_mask (m OR m')"
  unfolding rwx_mask_def low_mask by (simp add: bit.conj_disj_distrib2)

lemma access_of_or: "access_of (m OR m') = sup (access_of m) (access_of m')"
  by (simp add: access_of_def sup_access_def bit_or_iff)

lemma or_absorb_iff:
  assumes "rwx_mask m"
  shows "m OR r = r \<longleftrightarrow> access_of m \<le> access_of r"
proof
  assume "m OR r = r"
  then have "\<And>n. bit m n \<Longrightarrow> bit r n" by (metis bit_or_iff)
  then show "access_of m \<le> access_of r" by (simp add: access_of_def less_eq_access_def)
next
  assume le: "access_of m \<le> access_of r"
  have "bit r n" if b: "bit m n" for n
  proof -
    have "n \<in> {0, 1, 2}" using rwx_mask_bit [OF assms b] by auto
    then show ?thesis using b le by (elim insertE emptyE) (simp_all add: access_of_def less_eq_access_def)
  qed
  then show "m OR r = r" by (intro bit_eqI) (auto simp only: bit_or_iff)
qed

section \<open>The contract of an access check\<close>

locale access_check =
  fixes check :: "'s \<Rightarrow> 'o \<Rightarrow> 'm \<Rightarrow> int"
    and rights :: "'s \<Rightarrow> 'o \<Rightarrow> 'a::bounded_lattice"
    and req :: "'m \<Rightarrow> 'a"
    and well :: "'m \<Rightarrow> bool"
  assumes granted_iff: "well m \<Longrightarrow> check sub obj m = 0 \<longleftrightarrow> req m \<le> rights sub obj"
    and outcome: "check sub obj m = 0 \<or> check sub obj m = - EACCES"
begin

lemma granted_mono:
  "well m \<Longrightarrow> well m' \<Longrightarrow> req m' \<le> req m \<Longrightarrow> check sub obj m = 0 \<Longrightarrow> check sub obj m' = 0"
  by (auto simp: granted_iff intro: order_trans)

lemma granted_join:
  "well m \<Longrightarrow> well m' \<Longrightarrow> well n \<Longrightarrow> req n = sup (req m) (req m') \<Longrightarrow>
   check sub obj n = 0 \<longleftrightarrow> check sub obj m = 0 \<and> check sub obj m' = 0"
  using granted_iff by simp

lemma no_rights: "well m \<Longrightarrow> rights sub obj = bot \<Longrightarrow> check sub obj m = 0 \<longleftrightarrow> req m = bot"
  using granted_iff by (simp add: bot_unique)

lemma all_rights: "well m \<Longrightarrow> rights sub obj = top \<Longrightarrow> check sub obj m = 0"
  using granted_iff by simp

lemma denied: "check sub obj m \<noteq> 0 \<Longrightarrow> check sub obj m = - EACCES"
  using outcome by blast

end

definition rights_of :: "int \<Rightarrow> int \<Rightarrow> access" where
  "rights_of ssid osid = access_of (object_mask ssid osid)"

interpretation perm: access_check mp4_has_permission rights_of access_of rwx_mask
proof unfold_locales
  show "rwx_mask m \<Longrightarrow> mp4_has_permission sub obj m = 0 \<longleftrightarrow> access_of m \<le> rights_of sub obj" for sub obj m
    by (simp add: mp4_has_permission_def Let_def rights_of_def or_absorb_iff EACCES_def)
  show "mp4_has_permission sub obj m = 0 \<or> mp4_has_permission sub obj m = - EACCES" for sub obj m
    by (simp add: mp4_has_permission_def Let_def)
qed

section \<open>The documented policy\<close>

text \<open>
  The comments of the header, label by label, first for the target and then for everyone else:
  \<^item> \<open>NO_ACCESS\<close>: may not be accessed by target, but may by everyone else;
  \<^item> \<open>READ_OBJ\<close>: may be read by anyone;
  \<^item> \<open>READ_WRITE\<close>: read, written and appended by the target, only read by others;
  \<^item> \<open>WRITE_OBJ\<close>: written and appended by the target, but not read, and only read by others;
  \<^item> \<open>EXEC_OBJ\<close>: read and executed by all;
  \<^item> \<open>READ_DIR\<close>: read, executed and accessed by all; \<open>RW_DIR\<close>: may be modified by the target; and
    for directories only the target is checked, all others default to Linux's own control.
\<close>

definition documented_rights :: "bool \<Rightarrow> int \<Rightarrow> access" where
  "documented_rights target osid =
     (if osid = MP4_NO_ACCESS then (if target then bot else top)
      else if osid = MP4_READ_OBJ then Access True False False
      else if osid = MP4_READ_WRITE then (if target then Access True True False else Access True False False)
      else if osid = MP4_WRITE_OBJ then (if target then Access False True False else Access True False False)
      else if osid = MP4_EXEC_OBJ then Access True False True
      else if osid = MP4_READ_DIR then (if target then Access True False True else top)
      else if osid = MP4_RW_DIR then top
      else bot)"

lemma sid_cases: "0 \<le> (x::int) \<Longrightarrow> x \<le> 7 \<Longrightarrow> x \<in> {0, 1, 2, 3, 4, 5, 6, 7}"
  by auto

lemma rights_of_eq:
  assumes "0 \<le> osid" "osid \<le> 7"
  shows "rights_of ssid osid =
    (if ssid \<noteq> MP4_TARGET_SID \<and> (osid = MP4_READ_DIR \<or> osid = MP4_RW_DIR) then Access True False True
     else documented_rights (ssid = MP4_TARGET_SID) osid)"
  using sid_cases [OF assms]
  by (auto simp: rights_of_def access_of_def object_mask_def documented_rights_def label_defs may_defs
      bot_access_def top_access_def bit_simps)

end
