(* ===== verification/Mp4_Lifecycle.thy ===== *)
theory Mp4_Lifecycle
  imports Mp4_Policy
begin

unbundle bit_operations_syntax

text \<open>
  The life of credential labels under the hooks: the kernel's calls as one transition function,
  the ownership invariant every call keeps, and an abstract machine on labels alone (no security
  pointers, no blobs) that the hooks refine.
\<close>

section \<open>Hooks in closed form\<close>

text \<open>The label \<open>get_inode_sid\<close> gives: its references and its buffer are all given back.\<close>

definition inode_sid :: "lsm_kernel \<Rightarrow> char list option \<Rightarrow> addr \<Rightarrow> int result" where
  "inode_sid k val inode =
     (case d_find_alias k inode of
        None \<Rightarrow> Inr 0
      | Some d \<Rightarrow>
          if \<not> has_getxattr k inode then Inr (-1)
          else (case val of
                  None \<Rightarrow> Inl NullDeref
                | Some junk \<Rightarrow> Inr (cred_ctx_to_sid (fill_buffer (getxattr k d XATTR_NAME_MP4 255) junk))))"

lemma get_inode_sid_eq:
  "get_inode_sid k val inode s = rbind (inode_sid k val inode) (\<lambda>sid. Inr (sid, s))"
  by (auto simp: get_inode_sid_def inode_sid_def Let_def dput_take split: option.splits)

lemma inode_sid_range: "inode_sid k val inode = Inr sid \<Longrightarrow> - 1 \<le> sid \<and> sid \<le> 7"
  using cred_ctx_range by (auto simp: inode_sid_def split: option.splits if_splits)
    (smt (verit) cred_ctx_range)

definition label_of :: "addr \<Rightarrow> lsm_state \<Rightarrow> int result" where
  "label_of c s = rbind (security_of c s) (\<lambda>p. flags_at p s)"

text \<open>What \<open>mp4_inode_permission\<close> answers, for a subject whose label is \<open>lab\<close>.\<close>

definition decision ::
    "lsm_kernel \<Rightarrow> bool \<Rightarrow> char list option \<Rightarrow> int result \<Rightarrow> addr \<Rightarrow> u32 \<Rightarrow> int result" where
  "decision k buf val lab inode msk =
     (case d_find_alias k inode of
        None \<Rightarrow> Inr 0
      | Some d \<Rightarrow>
          if \<not> buf then Inl NullDeref
          else
            (case dentry_path k d 255 of
               None \<Rightarrow> Inr 0
             | Some res \<Rightarrow>
                 if mp4_should_skip_path res then Inr 0
                 else rbind lab (\<lambda>ssid. rbind (inode_sid k val inode) (\<lambda>osid.
                   Inr (if osid < 0 then 0
                        else mp4_has_permission ssid osid (msk AND (MAY_READ OR MAY_EXEC OR MAY_WRITE)))))))"

lemma dget_simps [simp]:
  "security (dget d s) = security s"
  "blobs (dget d s) = blobs s"
  "security (dput d s) = security s"
  "blobs (dput d s) = blobs s"
  "security (take_buffer s) = security s"
  "blobs (take_buffer s) = blobs s"
  "dentry_refs (take_buffer s) = dentry_refs s"
  "buffers (take_buffer s) = Suc (buffers s)"
  by (simp_all add: dget_def dput_def take_buffer_def)

lemma flags_at_frame [simp]:
  "flags_at p (dget d s) = flags_at p s"
  "flags_at p (take_buffer s) = flags_at p s"
  by (simp_all add: flags_at_def split: option.split)

lemma mp4_inode_permission_eq:
  assumes "security s c = Some p"
  shows "mp4_inode_permission k buf val c inode msk s =
    rbind (decision k buf val (label_of c s) inode msk) (\<lambda>r. Inr (r, if buf then take_buffer s else s))"
  using assms
  by (auto simp: mp4_inode_permission_def decision_def label_of_def security_of_def get_inode_sid_eq
      Let_def rbind_assoc split: option.splits intro!: arg_cong2 [where f = rbind] ext)


section \<open>The kernel's calls\<close>

text \<open>
  The kernel's side of the interface: \<open>cred_alloc_blank\<close> and \<open>prepare_creds\<close> hand the hook a new
  credential with a null security pointer, and \<open>put_cred\<close> releases the credential after
  \<open>cred_free\<close>. The boolean of \<open>Check\<close> is the path buffer's allocation, the option the content of
  the attribute buffer, that of \<open>Blank\<close> and \<open>Prepare\<close> the allocated label.
\<close>

datatype lsm_call =
    Blank addr "addr option"
  | Prepare addr addr "addr option"
  | Exec linux_binprm "char list option"
  | Free addr
  | Check addr bool "char list option" addr u32
  | Label addr addr bool bool bool bool xattr_out

fun lsm_run :: "lsm_kernel \<Rightarrow> lsm_call \<Rightarrow> lsm_state \<Rightarrow> (int \<times> lsm_state) result" where
  "lsm_run k (Blank c new) s = mp4_cred_alloc_blank new c (s\<lparr>security := (security s)(c \<mapsto> None)\<rparr>)"
| "lsm_run k (Prepare c old new) s =
     mp4_cred_prepare new c old (s\<lparr>security := (security s)(c \<mapsto> None)\<rparr>)"
| "lsm_run k (Exec bprm val) s = mp4_bprm_set_creds k val bprm s"
| "lsm_run k (Free c) s =
     rbind (mp4_cred_free c s) (\<lambda>s. Inr (0, s\<lparr>security := (security s)(c := None)\<rparr>))"
| "lsm_run k (Check c buf val inode msk) s = mp4_inode_permission k buf val c inode msk s"
| "lsm_run k (Label c inode dup name value len out) s =
     rbind (mp4_inode_init_security k dup c inode name value len out s) (\<lambda>(r, out). Inr (r, s))"

text \<open>
  When the kernel makes a call: new credentials are not yet live, every other one is, and the
  allocator gives objects that are not in use.
\<close>

fun enabled :: "lsm_call \<Rightarrow> lsm_state \<Rightarrow> bool" where
  "enabled (Blank c new) s \<longleftrightarrow> security s c = None \<and> (\<forall>a. new = Some a \<longrightarrow> blobs s a = None)"
| "enabled (Prepare c old new) s \<longleftrightarrow>
     security s c = None \<and> security s old \<noteq> None \<and> (\<forall>a. new = Some a \<longrightarrow> blobs s a = None)"
| "enabled (Exec bprm val) s \<longleftrightarrow> security s (bprm_cred bprm) \<noteq> None"
| "enabled (Free c) s \<longleftrightarrow> security s c \<noteq> None"
| "enabled (Check c buf val inode msk) s \<longleftrightarrow> security s c \<noteq> None"
| "enabled (Label c inode dup name value len out) s \<longleftrightarrow> security s c \<noteq> None"

inductive lsm_step :: "lsm_kernel \<Rightarrow> lsm_state \<Rightarrow> lsm_state \<Rightarrow> bool"
  for k :: lsm_kernel where
  lsm_call: "enabled call s \<Longrightarrow> lsm_run k call s = Inr (r, t) \<Longrightarrow> lsm_step k s t"

inductive_cases lsm_stepE: "lsm_step k s t"

text \<open>At boot one credential exists, the initial task's, and its security pointer is null.\<close>

definition lsm_boot :: "addr \<Rightarrow> lsm_state" where
  "lsm_boot init_cred = \<lparr>security = [init_cred \<mapsto> None], blobs = (\<lambda>_. None), dentry_refs = (\<lambda>_. 0), buffers = 0\<rparr>"

section \<open>Ownership of labels\<close>

definition owned :: "lsm_state \<Rightarrow> bool" where
  "owned s \<longleftrightarrow> (\<forall>c a. security s c = Some (Some a) \<longrightarrow> blobs s a \<noteq> None)"

definition unshared :: "lsm_state \<Rightarrow> bool" where
  "unshared s \<longleftrightarrow> (\<forall>c d a. security s c = Some (Some a) \<and> security s d = Some (Some a) \<longrightarrow> c = d)"

definition no_leak :: "lsm_state \<Rightarrow> bool" where
  "no_leak s \<longleftrightarrow> (\<forall>a. blobs s a \<noteq> None \<longrightarrow> (\<exists>c. security s c = Some (Some a)))"

definition in_range :: "lsm_state \<Rightarrow> bool" where
  "in_range s \<longleftrightarrow> (\<forall>a f. blobs s a = Some f \<longrightarrow> 0 \<le> f \<and> f \<le> 7)"

definition lsm_inv :: "lsm_state \<Rightarrow> bool" where
  "lsm_inv s \<longleftrightarrow> owned s \<and> unshared s \<and> no_leak s \<and> in_range s"

lemmas lsm_inv_defs = lsm_inv_def owned_def unshared_def no_leak_def in_range_def

lemma lsm_invI:
  assumes "\<And>c a. security s c = Some (Some a) \<Longrightarrow> \<exists>f. blobs s a = Some f"
    and "\<And>c d a. security s c = Some (Some a) \<Longrightarrow> security s d = Some (Some a) \<Longrightarrow> c = d"
    and "\<And>a f. blobs s a = Some f \<Longrightarrow> 0 \<le> f \<and> f \<le> 7 \<and> (\<exists>c. security s c = Some (Some a))"
  shows "lsm_inv s"
  using assms unfolding lsm_inv_defs by blast

lemma inv_owned: "lsm_inv s \<Longrightarrow> security s c = Some (Some a) \<Longrightarrow> \<exists>f. blobs s a = Some f \<and> 0 \<le> f \<and> f \<le> 7"
  unfolding lsm_inv_defs by (metis not_None_eq)

lemma inv_unshared: "lsm_inv s \<Longrightarrow> security s c = Some (Some a) \<Longrightarrow> security s d = Some (Some a) \<Longrightarrow> c = d"
  unfolding lsm_inv_defs by blast

lemma inv_owner: "lsm_inv s \<Longrightarrow> blobs s a = Some f \<Longrightarrow> 0 \<le> f \<and> f \<le> 7 \<and> (\<exists>c. security s c = Some (Some a))"
  unfolding lsm_inv_defs by blast

lemma inv_boot: "lsm_inv (lsm_boot c)"
  by (rule lsm_invI) (auto simp: lsm_boot_def split: if_splits)

lemma inv_frame: "security t = security s \<Longrightarrow> blobs t = blobs s \<Longrightarrow> lsm_inv s \<Longrightarrow> lsm_inv t"
  by (simp add: lsm_inv_defs)

lemma inv_unlabelled:
  assumes "security s c = None" "lsm_inv s"
  shows "lsm_inv (s\<lparr>security := (security s)(c \<mapsto> None)\<rparr>)"
proof (rule lsm_invI, goal_cases)
  case (1 d a) then show ?case using inv_owned [OF assms(2), of d a] by (auto split: if_splits)
next
  case (2 d e a) then show ?case using inv_unshared [OF assms(2), of d a e] by (auto split: if_splits)
next
  case (3 a f) then show ?case using inv_owner [OF assms(2), of a f] assms(1) by force
qed

lemma inv_labelled:
  assumes "lsm_inv s" "security s c = None" "blobs s a = None" "0 \<le> f" "f \<le> 7"
  shows "lsm_inv (s\<lparr>blobs := (blobs s)(a \<mapsto> f), security := (security s)(c \<mapsto> Some a)\<rparr>)"
proof -
  have fresh: "security s d \<noteq> Some (Some a)" for d using inv_owned [OF assms(1), of d a] assms(3) by auto
  show ?thesis
  proof (rule lsm_invI, goal_cases)
    case (1 d b) then show ?case using inv_owned [OF assms(1), of d b] by (auto split: if_splits)
  next
    case (2 d e b) then show ?case using inv_unshared [OF assms(1), of d b e] fresh by (auto split: if_splits)
  next
    case (3 b g) then show ?case using inv_owner [OF assms(1), of b g] assms by (force split: if_splits)
  qed
qed

lemma inv_relabelled:
  assumes "lsm_inv s" "security s c = Some (Some a)" "0 \<le> f" "f \<le> 7"
  shows "lsm_inv (s\<lparr>blobs := (blobs s)(a \<mapsto> f)\<rparr>)"
proof (rule lsm_invI, goal_cases)
  case (1 d b) then show ?case using inv_owned [OF assms(1), of d b] by auto
next
  case (2 d e b) then show ?case using inv_unshared [OF assms(1), of d b e] by simp
next
  case (3 b g) then show ?case using inv_owner [OF assms(1), of b g] assms by (auto split: if_splits)
qed

lemma inv_released:
  assumes "lsm_inv s" "security s c = Some p"
  shows "lsm_inv (s\<lparr>security := (security s)(c := None),
    blobs := (case p of None \<Rightarrow> blobs s | Some a \<Rightarrow> (blobs s)(a := None))\<rparr>)"
proof (rule lsm_invI, goal_cases)
  case (1 d b)
  then have "d \<noteq> c" "security s d = Some (Some b)" by (auto split: if_splits)
  then show ?case using inv_owned [OF assms(1), of d b] inv_unshared [OF assms(1), of d b c] assms(2)
    by (auto split: option.splits)
next
  case (2 d e b) then show ?case using inv_unshared [OF assms(1), of d b e] by (auto split: if_splits)
next
  case (3 b g)
  then have "blobs s b = Some g" "p \<noteq> Some b" by (auto split: option.splits if_splits)
  then show ?case using inv_owner [OF assms(1), of b g] assms(2) by force
qed


section \<open>Labels without pointers\<close>

text \<open>
  The abstract machine keeps, for every live credential, its label or that it has none; the
  calls below are what the hooks promise about it.
\<close>

type_synonym labelling = "addr \<Rightarrow> int option option"

definition labels :: "lsm_state \<Rightarrow> labelling" where
  "labels s c = (case security s c of
     None \<Rightarrow> None | Some None \<Rightarrow> Some None | Some (Some a) \<Rightarrow> Some (blobs s a))"

definition label_read :: "labelling \<Rightarrow> addr \<Rightarrow> int result" where
  "label_read L c = (case L c of
     None \<Rightarrow> Inl UseAfterFree | Some None \<Rightarrow> Inl NullDeref | Some (Some f) \<Rightarrow> Inr f)"

definition created :: "addr option \<Rightarrow> int \<Rightarrow> int option" where
  "created new f = (if new = None then None else Some f)"

definition init_code :: "bool \<Rightarrow> u16 \<Rightarrow> bool \<Rightarrow> bool \<Rightarrow> xattr_out \<Rightarrow> int \<Rightarrow> int" where
  "init_code dup mode value len out level =
     (if \<not> (value \<and> len) then - EOPNOTSUPP
      else if level = MP4_TARGET_SID \<and>
        (if S_ISREG mode \<or> S_ISDIR mode then \<not> dup else xvalue out = None) then - ENOMEM
      else 0)"

fun spec_run :: "lsm_kernel \<Rightarrow> lsm_call \<Rightarrow> labelling \<Rightarrow> (int \<times> labelling) result" where
  "spec_run k (Blank c new) L =
     Inr (if new = None then - ENOMEM else 0, L(c \<mapsto> created new MP4_NO_ACCESS))"
| "spec_run k (Prepare c old new) L =
     (case L old of
        None \<Rightarrow> Inl UseAfterFree
      | Some None \<Rightarrow> Inr (0, L(c \<mapsto> created new MP4_NO_ACCESS))
      | Some (Some f) \<Rightarrow> Inr (if new = None then - ENOMEM else 0, L(c \<mapsto> created new f)))"
| "spec_run k (Exec bprm val) L =
     rbind (inode_sid k val (bprm_inode bprm)) (\<lambda>sid.
     if sid < 0 then Inr (0, L)
     else rbind (label_read L (bprm_cred bprm)) (\<lambda>_. Inr (0, L(bprm_cred bprm \<mapsto> Some sid))))"
| "spec_run k (Free c) L = Inr (0, L(c := None))"
| "spec_run k (Check c buf val inode msk) L =
     rbind (decision k buf val (label_read L c) inode msk) (\<lambda>r. Inr (r, L))"
| "spec_run k (Label c inode dup name value len out) L =
     rbind (label_read L c) (\<lambda>level. Inr (init_code dup (i_mode k inode) value len out level, L))"

lemma labels_cong: "security t = security s \<Longrightarrow> blobs t = blobs s \<Longrightarrow> labels t = labels s"
  by (rule ext) (simp add: labels_def split: option.split)

lemma labels_at: "security s c = Some p \<Longrightarrow> labels s c = Some (case p of None \<Rightarrow> None | Some a \<Rightarrow> blobs s a)"
  by (simp add: labels_def split: option.split)

lemma label_of_labels:
  assumes "lsm_inv s" "security s c \<noteq> None"
  shows "label_of c s = label_read (labels s) c"
  using assms inv_owned [OF assms(1), of c]
  by (auto simp: label_of_def label_read_def labels_def security_of_def flags_at_def split: option.splits)

lemma mp4_inode_init_security_code:
  assumes "security s c = Some p"
  shows "rbind (mp4_inode_init_security k dup c inode name value len out s) (\<lambda>(r, out). Inr (r, s)) =
    rbind (label_of c s) (\<lambda>level. Inr (init_code dup (i_mode k inode) value len out level, s))"
  using assms
  by (cases "flags_at p s")
    (auto simp: mp4_inode_init_security_def label_of_def security_of_def init_code_def Let_def)


lemma labels_unlabelled: "labels (s\<lparr>security := (security s)(c \<mapsto> None)\<rparr>) = (labels s)(c \<mapsto> None)"
  by (rule ext) (auto simp: labels_def split: option.splits)

lemma labels_labelled:
  assumes "lsm_inv s" "blobs s a = None"
  shows "labels (s\<lparr>blobs := (blobs s)(a \<mapsto> f), security := (security s)(c \<mapsto> Some a)\<rparr>) =
    (labels s)(c \<mapsto> Some f)"
proof
  fix d
  show "labels (s\<lparr>blobs := (blobs s)(a \<mapsto> f), security := (security s)(c \<mapsto> Some a)\<rparr>) d =
    ((labels s)(c \<mapsto> Some f)) d"
    using inv_owned [OF assms(1), of d a] assms(2) by (auto simp: labels_def split: option.splits)
qed

lemma inv_other:
  "lsm_inv s \<Longrightarrow> security s c = Some (Some a) \<Longrightarrow> d \<noteq> c \<Longrightarrow> security s d \<noteq> Some (Some a)"
  using inv_unshared by blast

lemma labels_relabelled:
  assumes "lsm_inv s" "security s c = Some (Some a)"
  shows "labels (s\<lparr>blobs := (blobs s)(a \<mapsto> f)\<rparr>) = (labels s)(c \<mapsto> Some f)"
proof
  fix d
  show "labels (s\<lparr>blobs := (blobs s)(a \<mapsto> f)\<rparr>) d = ((labels s)(c \<mapsto> Some f)) d"
    using inv_other [OF assms, of d] assms(2) by (cases "d = c") (auto simp: labels_def split: option.split)
qed

lemma labels_released:
  assumes "lsm_inv s" "security s c = Some p"
  shows "labels (s\<lparr>security := (security s)(c := None),
    blobs := (case p of None \<Rightarrow> blobs s | Some a \<Rightarrow> (blobs s)(a := None))\<rparr>) = (labels s)(c := None)"
    (is "?l = ?r")
proof
  fix d
  show "?l d = ?r d"
  proof (cases p)
    case None then show ?thesis by (simp add: labels_def split: option.split)
  next
    case (Some a)
    then have "security s c = Some (Some a)" using assms(2) by simp
    from inv_other [OF assms(1) this, of d] show ?thesis using Some
      by (cases "d = c") (auto simp: labels_def split: option.split)
  qed
qed

section \<open>Every call keeps the invariant and refines its specification\<close>

lemma mp4_cred_free_eq:
  assumes "lsm_inv s" "security s c = Some p"
  shows "lsm_run k (Free c) s = Inr (0, s\<lparr>security := (security s)(c := None),
    blobs := (case p of None \<Rightarrow> blobs s | Some a \<Rightarrow> (blobs s)(a := None))\<rparr>)"
  using assms inv_owned [OF assms(1), of c]
  by (cases p) (auto simp: mp4_cred_free_def security_of_def)

lemma mp4_bprm_set_creds_eq:
  assumes "security s (bprm_cred b) = Some p"
  shows "mp4_bprm_set_creds k val b s =
    rbind (inode_sid k val (bprm_inode b)) (\<lambda>sid.
    if sid < 0 then Inr (0, s)
    else rbind (label_of (bprm_cred b) s) (\<lambda>_. Inr (0, s\<lparr>blobs := (blobs s)(the p \<mapsto> sid)\<rparr>)))"
  using assms
  by (auto simp: mp4_bprm_set_creds_def security_of_def get_inode_sid_eq label_of_def rbind_assoc
      intro!: arg_cong2 [where f = rbind] ext)

lemma blank_refines:
  assumes "lsm_inv s" "enabled (Blank c new) s"
  shows "ends (lsm_run k (Blank c new) s) {} (\<lambda>(r, t). lsm_inv t) \<and>
    abstracts labels (lsm_run k (Blank c new) s) = spec_run k (Blank c new) (labels s)"
proof (cases new)
  case None
  then show ?thesis using assms
    by (simp add: mp4_cred_alloc_blank_def inv_unlabelled labels_unlabelled created_def)
next
  case (Some a)
  then show ?thesis using assms inv_labelled [OF assms(1), of c a] labels_labelled [OF assms(1), of a]
    by (simp add: mp4_cred_alloc_blank_def created_def MP4_NO_ACCESS_def)
qed

lemma free_refines:
  assumes "lsm_inv s" "enabled (Free c) s"
  shows "ends (lsm_run k (Free c) s) {} (\<lambda>(r, t). lsm_inv t) \<and>
    abstracts labels (lsm_run k (Free c) s) = spec_run k (Free c) (labels s)"
proof -
  obtain p where p: "security s c = Some p" using assms(2) by auto
  show ?thesis
    unfolding mp4_cred_free_eq [OF assms(1) p] using assms(1) p
    by (simp add: inv_released labels_released)
qed

lemma exec_refines:
  assumes "lsm_inv s" "enabled (Exec b val) s"
  shows "ends (lsm_run k (Exec b val) s) {NullDeref} (\<lambda>(r, t). lsm_inv t) \<and>
    abstracts labels (lsm_run k (Exec b val) s) = spec_run k (Exec b val) (labels s)"
proof -
  obtain p where p: "security s (bprm_cred b) = Some p" using assms(2) by auto
  have isid: "inode_sid k val (bprm_inode b) \<noteq> Inl e" if "e \<noteq> NullDeref" for e
    using that by (auto simp: inode_sid_def split: option.splits)
  show ?thesis
  proof (cases "inode_sid k val (bprm_inode b)")
    case (Inl e)
    then show ?thesis using p isid by (auto simp: mp4_bprm_set_creds_eq)
  next
    case (Inr sid)
    then show ?thesis
      using p assms(1) inode_sid_range [OF Inr] inv_owned [OF assms(1), of "bprm_cred b"]
      by (cases p) (auto simp: mp4_bprm_set_creds_eq label_of_labels label_read_def labels_relabelled
          labels_at inv_relabelled)
  qed
qed


lemma prepare_refines:
  assumes "lsm_inv s" "enabled (Prepare c old new) s"
  shows "ends (lsm_run k (Prepare c old new) s) {} (\<lambda>(r, t). lsm_inv t) \<and>
    abstracts labels (lsm_run k (Prepare c old new) s) = spec_run k (Prepare c old new) (labels s)"
proof -
  have c: "security s c = None" and fresh: "\<And>a. new = Some a \<Longrightarrow> blobs s a = None" and "c \<noteq> old"
    using assms(2) by auto
  obtain p where p: "security s old = Some p" using assms(2) by auto
  show ?thesis
  proof (cases p)
    case None
    then show ?thesis
      using p c \<open>c \<noteq> old\<close> blank_refines [OF assms(1), of c new k] fresh
      by (cases new) (auto simp: mp4_cred_prepare_def security_of_def labels_at mp4_cred_alloc_blank_def)
  next
    case (Some m)
    then obtain f where f: "blobs s m = Some f" "0 \<le> f" "f \<le> 7" using inv_owned [OF assms(1)] p by blast
    show ?thesis
    proof (cases new)
      case None
      then show ?thesis using Some p f c \<open>c \<noteq> old\<close> assms(1)
        by (simp add: mp4_cred_prepare_def security_of_def labels_at inv_unlabelled labels_unlabelled created_def)
    next
      case new: (Some a)
      then have a: "blobs s a = None" using fresh by simp
      show ?thesis using new Some p f c \<open>c \<noteq> old\<close> inv_labelled [OF assms(1) c a f(2,3)] labels_labelled [OF assms(1) a]
        by (simp add: mp4_cred_prepare_def security_of_def flags_at_def labels_at created_def)
    qed
  qed
qed

lemma inode_sid_fault: "inode_sid k val inode = Inl e \<Longrightarrow> e = NullDeref"
  by (auto simp: inode_sid_def split: option.splits if_splits)

lemma label_of_ends: "lsm_inv s \<Longrightarrow> security s c \<noteq> None \<Longrightarrow> ends (label_of c s) {NullDeref} (\<lambda>f. 0 \<le> f \<and> f \<le> 7)"
  using inv_owned [of s c] by (auto simp: label_of_def security_of_def flags_at_def split: option.split)

lemma decision_ends:
  "ends lab {NullDeref} (\<lambda>_. True) \<Longrightarrow> ends (decision k buf val lab inode msk) {NullDeref} (\<lambda>_. True)"
  by (cases "inode_sid k val inode")
    (auto simp: decision_def inode_sid_fault split: option.split intro!: ends_rbind)

lemma check_refines:
  assumes "lsm_inv s" "enabled (Check c buf val inode msk) s"
  shows "ends (lsm_run k (Check c buf val inode msk) s) {NullDeref} (\<lambda>(r, t). lsm_inv t) \<and>
    abstracts labels (lsm_run k (Check c buf val inode msk) s) = spec_run k (Check c buf val inode msk) (labels s)"
proof -
  obtain p where p: "security s c = Some p" using assms(2) by auto
  have "ends (decision k buf val (label_of c s) inode msk) {NullDeref} (\<lambda>_. True)"
    by (rule decision_ends) (rule ends_mono [OF label_of_ends], use assms p in auto)
  then show ?thesis
    using p assms(1) label_of_labels [OF assms(1), of c] inv_frame [of "take_buffer s" s]
      labels_cong [of "take_buffer s" s]
    by (cases "decision k buf val (label_of c s) inode msk") (auto simp: mp4_inode_permission_eq)
qed

lemma label_refines:
  assumes "lsm_inv s" "enabled (Label c inode dup name value len out) s"
  shows "ends (lsm_run k (Label c inode dup name value len out) s) {NullDeref} (\<lambda>(r, t). lsm_inv t) \<and>
    abstracts labels (lsm_run k (Label c inode dup name value len out) s) =
      spec_run k (Label c inode dup name value len out) (labels s)"
proof -
  obtain p where p: "security s c = Some p" using assms(2) by auto
  show ?thesis
    using p assms(1) label_of_labels [OF assms(1), of c] label_of_ends [OF assms(1), of c]
    by (cases "label_read (labels s) c") (auto simp: mp4_inode_init_security_code)
qed

lemma lsm_refines:
  assumes "lsm_inv s" "enabled call s"
  shows "ends (lsm_run k call s) {NullDeref} (\<lambda>(r, t). lsm_inv t) \<and>
    abstracts labels (lsm_run k call s) = spec_run k call (labels s)"
proof (cases call)
  case Blank then show ?thesis using blank_refines assms ends_mono by blast
next
  case Prepare then show ?thesis using prepare_refines assms ends_mono by blast
next
  case Exec then show ?thesis using exec_refines assms by blast
next
  case Free then show ?thesis using free_refines assms ends_mono by blast
next
  case Check then show ?thesis using check_refines assms by blast
next
  case Label then show ?thesis using label_refines assms by blast
qed

interpretation lsm_labels: operation_refinement "lsm_run k" "spec_run k" labels lsm_inv enabled for k
  by unfold_locales (use lsm_refines ends_Inr in blast, use lsm_refines ends_Inr in fastforce)

interpretation lsm: inductive_invariant "\<lambda>s. \<exists>c. s = lsm_boot c" "lsm_step k" lsm_inv for k
  by unfold_locales (auto simp: inv_boot elim!: lsm_stepE dest: lsm_labels.keeps)

text \<open>A run of calls, each one enabled where it is made, stays among the reachable states.\<close>

lemma lsm_runs:
  "reach (\<lambda>s. \<exists>c. s = lsm_boot c) (lsm_step k) s \<Longrightarrow> all_ok enabled (lsm_run k) cs s \<Longrightarrow>
   run_all (lsm_run k) cs s = Inr (rs, t) \<Longrightarrow> reach (\<lambda>s. \<exists>c. s = lsm_boot c) (lsm_step k) t"
proof (induction cs arbitrary: s rs)
  case (Cons call cs)
  obtain r s' rs' where one: "lsm_run k call s = Inr (r, s')" and rest: "run_all (lsm_run k) cs s' = Inr (rs', t)"
    using Cons.prems(3) by (auto simp: result_simps)
  have "lsm_step k s s'" using Cons.prems(2) one by (auto intro: lsm_call)
  then have "reach (\<lambda>s. \<exists>c. s = lsm_boot c) (lsm_step k) s'" by (rule reach_step [OF Cons.prems(1)])
  then show ?case using Cons.IH rest Cons.prems(2) one by auto
qed simp

lemma lsm_run_ends:
  "lsm_inv s \<Longrightarrow> all_ok enabled (lsm_run k) cs s \<Longrightarrow>
   ends (run_all (lsm_run k) cs s) {NullDeref} (\<lambda>(rs, t). lsm_inv t)"
  by (rule run_all_ends [where ok = enabled]) (use lsm_refines in blast)

end
