(* ===== verification/Mp4_Trace.thy ===== *)
theory Mp4_Trace
  imports Mp4_Lifecycle
begin

text \<open>
  Runs of hook calls read as histories: where a label comes from. The label target enters a run only
  where a program whose attribute reads as target is executed, and from there it goes from a credential
  to those prepared from it.
\<close>

section \<open>Attributes in memory\<close>

text \<open>
  \<open>getxattr\<close> copies the attribute's bytes to the front of a block and no NUL behind them. The attribute is terminated there when
  the byte behind them is NUL, the first one of the block when there is no attribute. Then the label read is the attribute's.
\<close>

definition terminated :: "char list option \<Rightarrow> char list \<Rightarrow> bool" where
  "terminated v junk \<longleftrightarrow>
     (let n = (case v of None \<Rightarrow> 0 | Some l \<Rightarrow> length l) in n < length junk \<and> junk ! n = NUL)"

lemma terminated_sid:
  assumes "terminated v junk"
  shows "cred_ctx_to_sid (fill_buffer v junk) = attribute_sid v"
proof (cases v)
  case None
  then obtain r where "junk = NUL # r" using assms by (cases junk) (auto simp: terminated_def)
  then have "cred_ctx_to_sid junk = MP4_NO_ACCESS"
    by (simp add: cred_ctx_to_sid_def strcmp_eq_def cstr_def NUL_def)
  then show ?thesis using None by (simp add: fill_buffer_def attribute_sid_def)
next
  case (Some l)
  then have "drop (length l) junk = NUL # drop (Suc (length l)) junk"
    using assms by (simp add: terminated_def Let_def Cons_nth_drop_Suc [symmetric])
  then have "cstr (fill_buffer v junk) = cstr l" using Some by (simp add: fill_buffer_def cstr_def takeWhile_tail)
  from cred_ctx_cong [OF this] show ?thesis using Some by (simp add: attribute_sid_def)
qed

lemma blank_terminated: "(\<And>l. v = Some l \<Longrightarrow> length l < 256) \<Longrightarrow> terminated v (replicate 256 NUL)"
  by (cases v) (simp_all add: terminated_def)

section \<open>One call\<close>

lemma spec_target:
  assumes "spec_run k call L = Inr (r, L')" "L' c = Some (Some MP4_TARGET_SID)"
  shows "L c = Some (Some MP4_TARGET_SID) \<or>
    (\<exists>old new. call = Prepare c old new \<and> L old = Some (Some MP4_TARGET_SID)) \<or>
    (\<exists>b val. call = Exec b val \<and> bprm_cred b = c \<and> inode_sid k val (bprm_inode b) = Inr MP4_TARGET_SID)"
  using assms by (cases call) (auto simp: created_def label_defs result_simps split: if_splits option.splits)

section \<open>Descent\<close>

text \<open>The credentials that come from those of a set through the preparations of a history.\<close>

fun heirs :: "lsm_call list \<Rightarrow> addr set \<Rightarrow> addr set" where
  "heirs [] A = A"
| "heirs (Prepare c old new # cs) A = heirs cs (if old \<in> A then insert c A else A)"
| "heirs (_ # cs) A = heirs cs A"

lemma heirs_mono: "A \<subseteq> B \<Longrightarrow> heirs cs A \<subseteq> heirs cs B"
proof (induction cs arbitrary: A B)
  case (Cons x cs)
  show ?case
  proof (cases x)
    case (Prepare c old new)
    have "(if old \<in> A then insert c A else A) \<subseteq> (if old \<in> B then insert c B else B)" using Cons.prems by auto
    then show ?thesis using Cons.IH Prepare by (simp del: if_split)
  qed (use Cons in simp_all)
qed simp

lemma heirs_Un: "heirs cs (A \<union> B) = heirs cs A \<union> heirs cs B"
proof (induction cs arbitrary: A B)
  case (Cons x cs)
  show ?case
  proof (cases x)
    case (Prepare c old new)
    have "(if old \<in> A \<union> B then insert c (A \<union> B) else A \<union> B) =
        (if old \<in> A then insert c A else A) \<union> (if old \<in> B then insert c B else B)"
      by auto
    then show ?thesis using Cons.IH Prepare by (simp del: if_split)
  qed (use Cons in simp_all)
qed simp

lemma heirs_empty [simp]: "heirs cs {} = {}"
proof (induction cs)
  case (Cons x cs)
  then show ?case by (cases x) simp_all
qed simp

definition targets :: "lsm_state \<Rightarrow> addr set" where
  "targets s = {c. labels s c = Some (Some MP4_TARGET_SID)}"

text \<open>A credential executed a target program somewhere in the history and \<open>c\<close> comes from it.\<close>

definition from_target :: "lsm_kernel \<Rightarrow> lsm_call list \<Rightarrow> addr \<Rightarrow> bool" where
  "from_target k cs c \<longleftrightarrow> (\<exists>pre b val post. cs = pre @ Exec b val # post \<and>
     inode_sid k val (bprm_inode b) = Inr MP4_TARGET_SID \<and> c \<in> heirs post {bprm_cred b})"

lemma from_target_Cons: "from_target k cs c \<Longrightarrow> from_target k (x # cs) c"
  unfolding from_target_def by (metis append_Cons)

lemma targets_step:
  assumes "lsm_inv s" "enabled call s" "lsm_run k call s = Inr (r, t)" "c \<in> targets t"
  shows "c \<in> heirs [call] (targets s) \<or>
    (\<exists>b val. call = Exec b val \<and> bprm_cred b = c \<and> inode_sid k val (bprm_inode b) = Inr MP4_TARGET_SID)"
proof -
  have "spec_run k call (labels s) = Inr (r, labels t)"
    using lsm_labels.simulates [OF assms(1,2), of k] assms(3) by simp
  from spec_target [OF this, of c] assms(4) show ?thesis
    by (cases call) (auto simp: targets_def)
qed

lemma targets_history:
  "lsm_inv s \<Longrightarrow> all_ok enabled (lsm_run k) cs s \<Longrightarrow> run_all (lsm_run k) cs s = Inr (rs, t) \<Longrightarrow> c \<in> targets t \<Longrightarrow>
   c \<in> heirs cs (targets s) \<or> from_target k cs c"
proof (induction cs arbitrary: s rs)
  case (Cons call cs)
  obtain r s' rs' where one: "lsm_run k call s = Inr (r, s')" and rest: "run_all (lsm_run k) cs s' = Inr (rs', t)"
    using Cons.prems(3) by (auto simp: result_simps)
  have en: "enabled call s" "all_ok enabled (lsm_run k) cs s'" using Cons.prems(2) one by auto
  have inv: "lsm_inv s'" using lsm_labels.keeps [OF Cons.prems(1) en(1) one] .
  have IH: "c \<in> heirs cs (targets s') \<or> from_target k cs c" using Cons.IH [OF inv en(2) rest Cons.prems(4)] .
  let ?new = "{d. \<exists>b val. call = Exec b val \<and> bprm_cred b = d \<and> inode_sid k val (bprm_inode b) = Inr MP4_TARGET_SID}"
  have "targets s' \<subseteq> heirs [call] (targets s) \<union> ?new"
    using targets_step [OF Cons.prems(1) en(1) one] by blast
  from heirs_mono [OF this, of cs] have sub: "heirs cs (targets s') \<subseteq> heirs cs (heirs [call] (targets s)) \<union> heirs cs ?new"
    by (simp only: heirs_Un)
  have cons: "heirs cs (heirs [call] A) = heirs (call # cs) A" for A by (cases call) simp_all
  have "from_target k (call # cs) c" if "c \<in> heirs cs ?new"
  proof -
    have "?new \<noteq> {}"
    proof
      assume "?new = {}"
      with that have "c \<in> heirs cs {}" by (simp only:)
      then show False by simp
    qed
    then obtain b val where b: "call = Exec b val" "inode_sid k val (bprm_inode b) = Inr MP4_TARGET_SID"
      by blast
    then have "?new \<subseteq> {bprm_cred b}" by auto
    then have "c \<in> heirs cs {bprm_cred b}" using heirs_mono that by blast
    with b show ?thesis unfolding from_target_def by (metis append_Nil)
  qed
  then show ?case using IH sub cons from_target_Cons by blast
qed simp

text \<open>The same by the attributes of the programs, where every program's attribute was terminated in the block it was read into.\<close>

definition descends_from_target :: "lsm_kernel \<Rightarrow> lsm_call list \<Rightarrow> addr \<Rightarrow> bool" where
  "descends_from_target k cs c \<longleftrightarrow> (\<exists>pre b val post d. cs = pre @ Exec b val # post \<and> d_find_alias k (bprm_inode b) = Some d \<and>
     attribute_sid (getxattr k d XATTR_NAME_MP4 255) = MP4_TARGET_SID \<and> c \<in> heirs post {bprm_cred b})"

definition programs_terminated :: "lsm_kernel \<Rightarrow> lsm_call list \<Rightarrow> bool" where
  "programs_terminated k cs \<longleftrightarrow> (\<forall>b junk d. Exec b (Some junk) \<in> set cs \<and> d_find_alias k (bprm_inode b) = Some d \<longrightarrow>
     terminated (getxattr k d XATTR_NAME_MP4 255) junk)"

lemma descends: "from_target k cs c \<Longrightarrow> programs_terminated k cs \<Longrightarrow> descends_from_target k cs c"
proof -
  assume "from_target k cs c" and p: "programs_terminated k cs"
  then obtain pre b val post where h: "cs = pre @ Exec b val # post" "inode_sid k val (bprm_inode b) = Inr MP4_TARGET_SID"
      "c \<in> heirs post {bprm_cred b}"
    by (auto simp: from_target_def)
  then obtain d junk where d: "d_find_alias k (bprm_inode b) = Some d" "val = Some junk"
      "cred_ctx_to_sid (fill_buffer (getxattr k d XATTR_NAME_MP4 255) junk) = MP4_TARGET_SID"
    by (auto simp: inode_sid_def label_defs split: option.splits if_splits)
  then have "terminated (getxattr k d XATTR_NAME_MP4 255) junk" using p h(1) by (auto simp: programs_terminated_def)
  then have "attribute_sid (getxattr k d XATTR_NAME_MP4 255) = MP4_TARGET_SID" using terminated_sid d(3) by metis
  with h(1,3) d(1) show ?thesis unfolding descends_from_target_def by blast
qed

lemma boot_targets: "targets (lsm_boot c) = {}"
  by (auto simp: targets_def labels_def lsm_boot_def)

text \<open>In a run from boot every target comes from one that executed a target program.\<close>

lemma target_from_boot:
  assumes "all_ok enabled (lsm_run k) cs (lsm_boot c0)" "run_all (lsm_run k) cs (lsm_boot c0) = Inr (rs, s)"
    and "labels s c = Some (Some MP4_TARGET_SID)"
  shows "from_target k cs c"
  using targets_history [OF inv_boot assms(1,2), of c] assms(3) by (simp add: boot_targets) (simp add: targets_def)

end
