(* ===== verification/Mp4_Props.thy ===== *)
theory Mp4_Props
  imports Mp4_Trace
begin

unbundle bit_operations_syntax

text \<open>
  The properties of the security module, each with a witness on a concrete kernel where it has
  hypotheses.
\<close>

section \<open>An example kernel\<close>

text \<open>
  Inode 1 is a program labelled target, inode 2 a file labelled read-write, inode 3 has no
  attribute, inode 4 lies under \<open>/proc\<close>, inode 5 is a file the target creates; every inode is its own dentry.
\<close>

definition example_lsm :: lsm_kernel where
  "example_lsm = \<lparr>d_find_alias = Some, has_getxattr = (\<lambda>_. True),
     getxattr = (\<lambda>d _ _. if d = 1 then Some ''target'' else if d = 2 \<or> d = 5 then Some ''read-write'' else None),
     dentry_path = (\<lambda>d _. Some (if d = 4 then ''/proc/self'' else ''/home/file'')),
     i_mode = (\<lambda>_. 0x81A4)\<rparr>"

definition blank_buffer :: "char list option" where
  "blank_buffer = Some (replicate 256 NUL)"

text \<open>
  The initial task (credential 0) forks credential 1 with label object 10, which executes
  inode 1 and becomes the target.
\<close>

definition example_calls :: "lsm_call list" where
  "example_calls = [Prepare 1 0 (Some 10), Exec \<lparr>bprm_cred = 1, bprm_inode = 1\<rparr> blank_buffer]"

definition target_state :: lsm_state where
  "target_state = \<lparr>security = [0 \<mapsto> None, 1 \<mapsto> Some 10], blobs = [10 \<mapsto> MP4_TARGET_SID],
     dentry_refs = (\<lambda>_. 0), buffers = 0\<rparr>"

lemma read_blank:
  "length s < 256 \<Longrightarrow> NUL \<notin> set s \<Longrightarrow> cstr (s @ drop (length s) (replicate 256 NUL)) = s"
  by (cases "256 - length s") simp_all

lemma sid_of_value:
  "length v < 256 \<Longrightarrow> NUL \<notin> set v \<Longrightarrow>
   cred_ctx_to_sid (fill_buffer (Some v) (replicate 256 NUL)) = cred_ctx_to_sid v"
  by (rule cred_ctx_cong) (simp only: fill_buffer_def option.case read_blank cstr_id not_False_eq_True)

lemmas sid_eval = cred_ctx_to_sid_def strcmp_eq_def cstr_def label_defs NUL_def

lemma example_sids:
  "inode_sid example_lsm blank_buffer 1 = Inr 7"
  "inode_sid example_lsm blank_buffer 2 = Inr 2"
  "inode_sid example_lsm blank_buffer 3 = Inr 0"
proof -
  have "cred_ctx_to_sid ''target'' = 7" "cred_ctx_to_sid ''read-write'' = 2" by (simp_all add: sid_eval)
  then show "inode_sid example_lsm blank_buffer 1 = Inr 7" "inode_sid example_lsm blank_buffer 2 = Inr 2"
    using sid_of_value [of "''target''"] sid_of_value [of "''read-write''"]
    by (simp_all add: inode_sid_def example_lsm_def blank_buffer_def NUL_def)
  show "inode_sid example_lsm blank_buffer 3 = Inr 0"
    by (simp add: inode_sid_def example_lsm_def blank_buffer_def fill_buffer_def sid_eval)
qed

lemmas lsm_eval = lsm_boot_def target_state_def mp4_cred_prepare_def mp4_cred_alloc_blank_def
  mp4_bprm_set_creds_eq label_of_def security_of_def flags_at_def

lemma example_run:
  "run_all (lsm_run example_lsm) example_calls (lsm_boot 0) = Inr ([0, 0], target_state)"
  "all_ok enabled (lsm_run example_lsm) example_calls (lsm_boot 0)"
  using example_sids(1) by (simp_all add: example_calls_def lsm_eval label_defs)

lemma target_reached:
  "reach (\<lambda>s. \<exists>c. s = lsm_boot c) (lsm_step example_lsm) target_state"
  by (rule lsm_runs [OF _ example_run(2) example_run(1)]) (auto intro: reach_start)

section \<open>The life of labels\<close>

text \<open>
  C10: In every state the kernel's calls can lead to, each label object belongs to exactly one
  live credential (none is shared between two credentials, leaked, or used after it is freed),
  and it holds one of the eight labels.
\<close>

theorem lsm_label_ownership:
  assumes "reach (\<lambda>s. \<exists>c. s = lsm_boot c) (lsm_step k) s"
  shows "(\<forall>a. blobs s a \<noteq> None \<longleftrightarrow> (\<exists>!c. security s c = Some (Some a))) \<and>
    (\<forall>a f. blobs s a = Some f \<longrightarrow> 0 \<le> f \<and> f \<le> 7)"
proof -
  have inv: "lsm_inv s" using assms by (rule lsm.reachable_inv)
  have "blobs s a \<noteq> None \<longleftrightarrow> (\<exists>!c. security s c = Some (Some a))" for a
    using inv_owned [OF inv] inv_unshared [OF inv] inv_owner [OF inv] by (metis option.distinct(1) not_None_eq)
  then show ?thesis using inv_owner [OF inv] by blast
qed

theorem lsm_label_ownership_witness:
  "\<exists>!c. security target_state c = Some (Some 10)"
proof -
  have "blobs target_state 10 \<noteq> None" by (simp add: target_state_def)
  then show ?thesis using lsm_label_ownership [OF target_reached] by blast
qed

text \<open>
  C9: From every reachable state, any sequence of hook calls answers as the machine on plain
  labels does, with the same faults, and ends in the state that has those labels: a new
  credential copies its parent's label and is then independent of it, \<open>exec\<close> relabels only the
  credential it is called for, freeing forgets only the freed one, and checks change no label.
  The only fault is a null dereference; nothing is read after it is freed or freed twice.
\<close>

theorem lsm_refines_labels:
  assumes "reach (\<lambda>s. \<exists>c. s = lsm_boot c) (lsm_step k) s" "all_ok enabled (lsm_run k) calls s"
  shows "abstracts labels (run_all (lsm_run k) calls s) = run_all (spec_run k) calls (labels s) \<and>
    run_all (lsm_run k) calls s \<noteq> Inl UseAfterFree"
proof -
  have inv: "lsm_inv s" using assms(1) by (rule lsm.reachable_inv)
  show ?thesis
    using lsm_labels.run_all_refines [OF inv assms(2)] lsm_run_ends [OF inv assms(2)] by auto
qed

theorem lsm_refines_labels_witness:
  "abstracts labels (run_all (lsm_run example_lsm) example_calls (lsm_boot 0)) =
     run_all (spec_run example_lsm) example_calls (labels (lsm_boot 0))"
  using lsm_refines_labels [OF _ example_run(2)] by (auto intro: reach_start)

text \<open>
  A credential is the target after a call only if it was the target before, or was prepared
  from a target credential, or executed an inode whose attribute reads as the target label.
\<close>

theorem target_provenance:
  assumes "reach (\<lambda>s. \<exists>c. s = lsm_boot c) (lsm_step k) s" "enabled call s"
    and "lsm_run k call s = Inr (r, t)" "labels t c = Some (Some MP4_TARGET_SID)"
  shows "labels s c = Some (Some MP4_TARGET_SID) \<or>
    (\<exists>old new. call = Prepare c old new \<and> labels s old = Some (Some MP4_TARGET_SID)) \<or>
    (\<exists>b val. call = Exec b val \<and> bprm_cred b = c \<and> inode_sid k val (bprm_inode b) = Inr MP4_TARGET_SID)"
proof -
  have "spec_run k call (labels s) = Inr (r, labels t)"
    using lsm_labels.simulates [OF lsm.reachable_inv [OF assms(1)] assms(2), of k] assms(3) by simp
  then show ?thesis using assms(4) by (rule spec_target)
qed

theorem target_provenance_witness:
  "labels target_state 1 = Some (Some MP4_TARGET_SID) \<and>
   (\<exists>old new. Prepare 2 1 (Some 11) = Prepare 2 old new \<and> labels target_state old = Some (Some MP4_TARGET_SID))"
proof -
  have "lsm_run example_lsm (Prepare 2 1 (Some 11)) target_state =
      Inr (0, target_state\<lparr>security := [0 \<mapsto> None, 1 \<mapsto> Some 10, 2 \<mapsto> Some 11],
        blobs := [10 \<mapsto> MP4_TARGET_SID, 11 \<mapsto> MP4_TARGET_SID]\<rparr>)"
    by (simp add: lsm_eval)
  from target_provenance [OF target_reached _ this, of 2]
  show ?thesis by (simp add: target_state_def labels_def)
qed

section \<open>The access decision\<close>

text \<open>
  C14: On every object that is not labelled as a directory, and for the target on directories
  too, the decision is the documented one: a request for read, write and execute rights is granted exactly when
  the header's comment for the object's label gives the subject all of them, and refused with
  \<open>-EACCES\<close> otherwise.
\<close>

theorem permission_documented:
  assumes "0 \<le> osid" "osid \<le> 7" "rwx_mask m"
    and "ssid = MP4_TARGET_SID \<or> osid \<noteq> MP4_READ_DIR \<and> osid \<noteq> MP4_RW_DIR"
  shows "mp4_has_permission ssid osid m =
    (if access_of m \<le> documented_rights (ssid = MP4_TARGET_SID) osid then 0 else - EACCES)"
  using perm.granted_iff [OF assms(3), of ssid osid] perm.denied [of ssid osid m]
    rights_of_eq [OF assms(1,2), of ssid] assms(4)
  by (auto simp: EACCES_def)

theorem permission_documented_witness:
  "mp4_has_permission 7 3 2 = 0 \<and> mp4_has_permission 0 3 2 = - EACCES"
  using permission_documented [of 3 2 7] permission_documented [of 3 2 0]
  by (simp add: rwx_mask_def may_defs documented_rights_def label_defs access_of_def less_eq_access_def
      bit_simps)

text \<open>
  On directories the module is stricter than its header says: every process that is not the
  target is refused a request with the write right on an object labelled as a directory, where the comment leaves
  all others to Linux's own access control. Reading and searching are granted.
\<close>

theorem directory_write_narrowed:
  assumes "ssid \<noteq> MP4_TARGET_SID" "osid = MP4_READ_DIR \<or> osid = MP4_RW_DIR" "rwx_mask m"
  shows "documented_rights False osid = top \<and>
    (mp4_has_permission ssid osid m = 0 \<longleftrightarrow> \<not> may_write (access_of m))"
proof -
  have range: "0 \<le> osid" "osid \<le> 7" using assms(2) by (auto simp: label_defs)
  have "rights_of ssid osid = Access True False True" using assms(1,2) by (simp add: rights_of_eq [OF range])
  then have "mp4_has_permission ssid osid m = 0 \<longleftrightarrow> \<not> may_write (access_of m)"
    unfolding perm.granted_iff [OF assms(3)] by (simp add: less_eq_access_def)
  then show ?thesis using assms(2) by (auto simp: documented_rights_def label_defs)
qed

theorem directory_write_narrowed_witness:
  "documented_rights False 6 = top \<and> mp4_has_permission 0 6 3 \<noteq> 0"
  using directory_write_narrowed [of 0 6 3]
  by (simp add: rwx_mask_def may_defs label_defs access_of_def bit_simps)

text \<open>
  Integrity: a granted request with the write right comes from the target on an object
  labelled read-write, write-only or dir-write, or from another process on an object without a
  label. So no other process ever writes an object that carries a label.
\<close>

theorem write_integrity:
  assumes "0 \<le> osid" "osid \<le> 7" "rwx_mask m" "may_write (access_of m)" "mp4_has_permission ssid osid m = 0"
  shows "ssid = MP4_TARGET_SID \<and> osid \<in> {MP4_READ_WRITE, MP4_WRITE_OBJ, MP4_RW_DIR} \<or>
    ssid \<noteq> MP4_TARGET_SID \<and> osid = MP4_NO_ACCESS"
proof -
  have "access_of m \<le> rights_of ssid osid" using perm.granted_iff [OF assms(3)] assms(5) by blast
  then have "may_write (rights_of ssid osid)" using assms(4) by (simp add: less_eq_access_def)
  then show ?thesis
    unfolding rights_of_eq [OF assms(1,2)]
    by (auto simp: documented_rights_def label_defs bot_access_def split: if_splits)
qed

theorem write_integrity_witness:
  "(7::int) = MP4_TARGET_SID \<and> (2::int) \<in> {MP4_READ_WRITE, MP4_WRITE_OBJ, MP4_RW_DIR}"
  using write_integrity [of 2 6 7]
  by (simp add: rwx_mask_def may_defs label_defs access_of_def bit_simps mp4_has_permission_def object_mask_def)

lemma access_of_masked: "access_of (m AND (MAY_READ OR MAY_EXEC OR MAY_WRITE)) = access_of m"
  by (simp add: access_of_def low_mask bit_simps)

lemma permission_decided:
  assumes "reach (\<lambda>s. \<exists>c. s = lsm_boot c) (lsm_step k) s" "labels s c = Some (Some ssid)"
  shows "\<exists>r. mp4_inode_permission k True (Some junk) c inode msk s =
      Inr (r, s\<lparr>buffers := Suc (buffers s)\<rparr>) \<and> r \<in> {0, - EACCES} \<and>
    (r = 0 \<longleftrightarrow> (case d_find_alias k inode of
       None \<Rightarrow> True
     | Some d \<Rightarrow>
         dentry_path k d 255 = None \<or> mp4_should_skip_path (the (dentry_path k d 255)) \<or>
         \<not> has_getxattr k inode \<or>
         access_of msk \<le> rights_of ssid (cred_ctx_to_sid (fill_buffer (getxattr k d XATTR_NAME_MP4 255) junk))))"
proof -
  have inv: "lsm_inv s" using assms(1) by (rule lsm.reachable_inv)
  obtain p where p: "security s c = Some p" using assms(2) by (auto simp: labels_def split: option.splits)
  have "label_of c s = Inr ssid" using label_of_labels [OF inv, of c] p assms(2) by (simp add: label_read_def)
  then have eq: "mp4_inode_permission k True (Some junk) c inode msk s =
      rbind (decision k True (Some junk) (Inr ssid) inode msk) (\<lambda>r. Inr (r, s\<lparr>buffers := Suc (buffers s)\<rparr>))"
    using mp4_inode_permission_eq [OF p] by (simp add: take_buffer_def)
  let ?m = "msk AND (MAY_READ OR MAY_EXEC OR MAY_WRITE)"
  have dec: "mp4_has_permission ssid osid ?m = (if access_of msk \<le> rights_of ssid osid then 0 else - EACCES)" for osid
    using perm.granted_iff [OF rwx_mask_and, of ssid osid msk] perm.denied [of ssid osid ?m]
    by (simp only: access_of_masked) auto
  have "\<not> cred_ctx_to_sid m < 0" for m using cred_ctx_range [of m] by linarith
  then show ?thesis
    unfolding eq by (auto simp: decision_def inode_sid_def dec EACCES_def split: option.split)
qed

text \<open>
  C11: For a labelled subject of a reachable state, an inode whose attribute can be read and the
  buffers allocated, the hook answers 0 or \<open>-EACCES\<close>; 0 exactly when the inode has no alias, its path
  cannot be formed or is one of the skipped ones, its filesystem has no attributes, or the subject's
  rights on the label read cover the request. Dentry references are balanced and no label changes, but
  every call leaves one buffer allocated.
\<close>

theorem inode_permission_exact:
  assumes "reach (\<lambda>s. \<exists>c. s = lsm_boot c) (lsm_step k) s" "labels s c = Some (Some ssid)"
  shows "\<exists>r. mp4_inode_permission k True (Some junk) c inode msk s =
      Inr (r, s\<lparr>buffers := Suc (buffers s)\<rparr>) \<and> r \<in> {0, - EACCES} \<and>
    (r = 0 \<longleftrightarrow> (case d_find_alias k inode of
       None \<Rightarrow> True
     | Some d \<Rightarrow>
         dentry_path k d 255 = None \<or> mp4_should_skip_path (the (dentry_path k d 255)) \<or>
         \<not> has_getxattr k inode \<or>
         access_of msk \<le> rights_of ssid (cred_ctx_to_sid (fill_buffer (getxattr k d XATTR_NAME_MP4 255) junk))))"
  by (rule permission_decided [OF assms])

theorem inode_permission_exact_witness:
  "(\<exists>s. mp4_inode_permission example_lsm True (Some (replicate 256 NUL)) 1 2 4 target_state = Inr (0, s)) \<and>
   (\<exists>s. mp4_inode_permission example_lsm True (Some (replicate 256 NUL)) 1 2 1 target_state = Inr (- EACCES, s))"
proof -
  have l: "labels target_state 1 = Some (Some 7)" by (simp add: target_state_def labels_def label_defs)
  have sid: "cred_ctx_to_sid (fill_buffer (Some ''read-write'') (replicate 256 NUL)) = 2"
    by (subst sid_of_value) (simp_all add: sid_eval)
  note hook = inode_permission_exact [OF target_reached l, of "replicate 256 NUL" 2]
  have skip: "\<not> mp4_should_skip_path ''/home/file''"
    by (simp add: mp4_should_skip_path_def strncmp_eq_def strcmp_eq_def cstr_def NUL_def)
  have "access_of 4 \<le> rights_of 7 2" "\<not> access_of 1 \<le> rights_of 7 2"
    by (simp_all add: rights_of_eq documented_rights_def label_defs access_of_def less_eq_access_def bit_simps)
  with hook [of 4] hook [of 1] sid skip show ?thesis
    by (simp add: example_lsm_def) blast
qed

lemma unlabelled_subject_faults:
  assumes "security s c = Some None" "d_find_alias k inode = Some d" "dentry_path k d 255 = Some path"
    "\<not> mp4_should_skip_path path"
  shows "mp4_inode_permission k True val c inode msk s = Inl NullDeref"
  using assms by (simp add: mp4_inode_permission_eq decision_def label_of_def security_of_def flags_at_def)

text \<open>
  C12: Integrity from boot. Take a run of the kernel's calls from boot in which the attributes, names and paths of the files stay as
  they are, and suppose that every attribute the module reads is followed by a NUL byte in the heap block it is read into, which
  neither \<open>getxattr\<close> nor the module sees to. Then whoever is granted the right to write a file or directory on a checked path,
  whose attribute is the name of a label, writes an object labelled read-write, write-only or dir-write, and is, or comes through
  the credentials prepared since from, a process that executed a program whose attribute is target. For directories this is
  stricter than \<open>mp4_given.h\<close> wants, which leaves processes other than the target to Linux's own access control there.
\<close>

theorem labelled_writes_from_target:
  assumes "all_ok enabled (lsm_run k) cs (lsm_boot c0)" "run_all (lsm_run k) cs (lsm_boot c0) = Inr (rs, s)"
    and "mp4_inode_permission k True (Some junk) c inode msk s = Inr (0, t)" "may_write (access_of msk)"
    and "d_find_alias k inode = Some d" "dentry_path k d 255 = Some path" "\<not> mp4_should_skip_path path" "has_getxattr k inode"
    and "terminated (getxattr k d XATTR_NAME_MP4 255) junk" "programs_terminated k cs"
    and osid: "osid = attribute_sid (getxattr k d XATTR_NAME_MP4 255)" "osid \<noteq> MP4_NO_ACCESS"
  shows "osid \<in> {MP4_READ_WRITE, MP4_WRITE_OBJ, MP4_RW_DIR} \<and> descends_from_target k cs c"
proof -
  have reached: "reach (\<lambda>s. \<exists>c. s = lsm_boot c) (lsm_step k) s"
    by (rule lsm_runs [OF _ assms(1,2)]) (auto intro: reach_start)
  have "security s c \<noteq> Some None"
    using unlabelled_subject_faults [of s c k inode d path "Some junk" msk] assms(3,5-7) by auto
  moreover have "security s c \<noteq> None"
    using assms(3) by (cases "security s c") (simp_all add: mp4_inode_permission_def security_of_def)
  ultimately obtain ssid where l: "labels s c = Some (Some ssid)"
    using inv_owned [OF lsm.reachable_inv [OF reached], of c] by (auto simp: labels_def)
  have le: "access_of msk \<le> rights_of ssid osid"
    using permission_decided [OF reached l, of junk inode msk] assms(3,5-8) osid(1) terminated_sid [OF assms(9)] by auto
  have "0 \<le> osid \<and> osid \<le> 7" using osid(1) cred_ctx_range terminated_sid [OF assms(9)] by metis
  then have r: "ssid = MP4_TARGET_SID \<and> osid \<in> {MP4_READ_WRITE, MP4_WRITE_OBJ, MP4_RW_DIR}"
    using le assms(4) osid(2) rights_of_eq [of osid ssid]
    by (auto simp: documented_rights_def label_defs bot_access_def less_eq_access_def split: if_splits)
  then show ?thesis using descends [OF target_from_boot [OF assms(1,2)] assms(10)] l by simp
qed

theorem labelled_writes_from_target_witness:
  "\<exists>t. mp4_inode_permission example_lsm True blank_buffer 1 2 2 target_state = Inr (0, t) \<and>
     descends_from_target example_lsm example_calls 1"
proof -
  have ended: "terminated (getxattr example_lsm 2 XATTR_NAME_MP4 255) (replicate 256 NUL)"
    "programs_terminated example_lsm example_calls"
    by (auto simp: programs_terminated_def example_calls_def blank_buffer_def example_lsm_def intro!: blank_terminated split: if_splits)
  have osid: "attribute_sid (getxattr example_lsm 2 XATTR_NAME_MP4 255) = 2"
    by (simp add: example_lsm_def attribute_sid_def sid_eval)
  have sid: "2 = cred_ctx_to_sid (fill_buffer (getxattr example_lsm 2 XATTR_NAME_MP4 255) (replicate 256 NUL))"
    unfolding example_lsm_def by simp (subst sid_of_value, simp_all add: sid_eval)
  have skip: "\<not> mp4_should_skip_path ''/home/file''"
    by (simp add: mp4_should_skip_path_def strncmp_eq_def strcmp_eq_def cstr_def NUL_def)
  have l: "labels target_state 1 = Some (Some 7)" by (simp add: target_state_def labels_def label_defs)
  have "access_of 2 \<le> rights_of 7 2"
    by (simp add: rights_of_eq documented_rights_def label_defs access_of_def less_eq_access_def bit_simps)
  then have g: "\<exists>t. mp4_inode_permission example_lsm True blank_buffer 1 2 2 target_state = Inr (0, t)"
    using permission_decided [OF target_reached l, of "replicate 256 NUL" 2 2] sid
    by (auto simp: blank_buffer_def example_lsm_def)
  then obtain t where t: "mp4_inode_permission example_lsm True (Some (replicate 256 NUL)) 1 2 2 target_state = Inr (0, t)"
    by (auto simp: blank_buffer_def)
  have "may_write (access_of 2)" by (simp add: access_of_def bit_simps)
  then show ?thesis
    using g skip osid labelled_writes_from_target [OF example_run(2,1) t _ _ _ skip _ ended, of 2]
    by (simp add: example_lsm_def label_defs)
qed

section \<open>Reading labels\<close>

text \<open>
  An attribute that holds the bytes of a label's name is read as that label exactly when
  the byte of the heap buffer after it is NUL: neither the attribute nor the buffer brings the
  terminator that \<open>strcmp\<close> needs.
\<close>

theorem attribute_label_exact:
  assumes "d_find_alias k inode = Some d" "has_getxattr k inode"
    and "getxattr k d XATTR_NAME_MP4 255 = Some (label_name sid)" "1 \<le> sid" "sid \<le> 7"
    and "length (label_name sid) < length junk"
  shows "\<exists>l. get_inode_sid k (Some junk) inode s = Inr (l, s) \<and>
    (l = sid \<longleftrightarrow> junk ! length (label_name sid) = NUL)"
proof -
  let ?n = "label_name sid" and ?rest = "drop (length (label_name sid)) junk"
  have rest: "cstr ?rest = [] \<longleftrightarrow> junk ! length ?n = NUL"
    using assms(6) by (simp add: cstr_def Cons_nth_drop_Suc [symmetric])
  have "cstr (?n @ ?rest) = ?n @ cstr ?rest" by (rule cstr_append [OF label_name_no_NUL])
  moreover have "cred_ctx_to_sid m = sid \<longleftrightarrow> cstr m = ?n" for m
    using assms(4,5) cred_ctx_label [of sid m] label_of_text [of m] by (auto simp: MP4_NO_ACCESS_def)
  ultimately have "cred_ctx_to_sid (?n @ ?rest) = sid \<longleftrightarrow> cstr ?rest = []" by simp
  then show ?thesis using assms(1-3) rest
    by (simp add: get_inode_sid_eq inode_sid_def fill_buffer_def)
qed

theorem attribute_label_exact_witness:
  "get_inode_sid example_lsm (Some (replicate 256 NUL)) 2 target_state = Inr (2, target_state)"
  using attribute_label_exact [of example_lsm 2 2 2 "replicate 256 NUL" target_state]
  by (simp add: example_lsm_def label_name_def label_defs)

text \<open>
  The result of \<open>getxattr\<close> is not looked at: for an inode without the attribute the label is
  whatever the recycled heap block spells, and there is such a block for each of the eight labels.
\<close>

theorem unlabelled_inode_stale:
  assumes "d_find_alias k inode = Some d" "has_getxattr k inode"
    and "getxattr k d XATTR_NAME_MP4 255 = None" "0 \<le> sid" "sid \<le> 7"
  shows "\<exists>junk. length junk = 256 \<and> get_inode_sid k (Some junk) inode s = Inr (sid, s)"
proof -
  have "length (label_name sid) \<le> 10" by (simp add: label_name_def)
  moreover have "cred_ctx_to_sid (label_name sid @ NUL # r) = sid" for r
    by (rule cred_ctx_label [OF assms(4,5)]) (simp add: label_name_no_NUL)
  ultimately show ?thesis using assms(1-3)
    by (intro exI [of _ "label_name sid @ NUL # replicate (255 - length (label_name sid)) NUL"])
      (simp add: get_inode_sid_eq inode_sid_def fill_buffer_def)
qed

theorem unlabelled_inode_stale_witness:
  "\<exists>junk. length junk = 256 \<and> get_inode_sid example_lsm (Some junk) 3 target_state = Inr (7, target_state)"
  using unlabelled_inode_stale [of example_lsm 3 3 7 target_state] by (simp add: example_lsm_def)

text \<open>
  How an inode's label depends on the heap. An attribute that holds the bytes of a label's name is read as
  that label exactly when the byte of the heap buffer after it is NUL: neither the attribute nor the buffer
  brings the terminator that \<open>strcmp\<close> needs. And without an attribute the label is whatever the recycled
  block spells, since the result of \<open>getxattr\<close> is not looked at: there is such a block for each of the eight labels.
\<close>

theorem inode_label_exact:
  assumes "d_find_alias k inode = Some d" "has_getxattr k inode" "1 \<le> sid" "sid \<le> 7"
  shows "(getxattr k d XATTR_NAME_MP4 255 = Some (label_name sid) \<and> length (label_name sid) < length junk \<longrightarrow>
      (\<exists>l. get_inode_sid k (Some junk) inode s = Inr (l, s) \<and> (l = sid \<longleftrightarrow> junk ! length (label_name sid) = NUL))) \<and>
    (getxattr k d XATTR_NAME_MP4 255 = None \<longrightarrow>
      (\<exists>old. length old = 256 \<and> get_inode_sid k (Some old) inode s = Inr (sid, s)))"
  using attribute_label_exact [OF assms(1,2), of sid junk s] unlabelled_inode_stale [OF assms(1,2), of sid s] assms(3,4)
  by auto

theorem inode_label_exact_witness:
  "get_inode_sid example_lsm (Some (replicate 256 NUL)) 2 target_state = Inr (2, target_state) \<and>
   (\<exists>old. length old = 256 \<and> get_inode_sid example_lsm (Some old) 3 target_state = Inr (7, target_state))"
  using inode_label_exact [of example_lsm 2 2 2 "replicate 256 NUL" target_state]
    inode_label_exact [of example_lsm 3 3 7 "[]" target_state]
  by (simp add: example_lsm_def label_name_def label_defs)

section \<open>Types\<close>

definition returns :: "lsm_call \<Rightarrow> int set" where
  "returns call = (case call of
     Blank c new \<Rightarrow> {0, - ENOMEM}
   | Prepare c old new \<Rightarrow> {0, - ENOMEM}
   | Exec bprm val \<Rightarrow> {0}
   | Free c \<Rightarrow> {0}
   | Check c buf val inode msk \<Rightarrow> {0, - EACCES}
   | Label c inode dup name value len out \<Rightarrow> {0, - ENOMEM, - EOPNOTSUPP})"

text \<open>
  C36: The hooks are well typed. From a state in which every label object holds one of the eight labels each hook
  that returns gives 0 or one of the error numbers documented for it, and all label objects hold one of the eight labels
  again, whatever the attributes, the paths and the heap hold.
\<close>

theorem hooks_typed:
  assumes "\<forall>a f. blobs s a = Some f \<longrightarrow> f \<in> {0..7}" "lsm_run k call s = Inr (r, t)"
  shows "r \<in> returns call \<and> (\<forall>a f. blobs t a = Some f \<longrightarrow> f \<in> {0..7})"
proof (cases call)
  case (Check c buf val inode msk)
  then obtain p where "security s c = Some p"
    using assms(2) by (cases "security s c") (auto simp: mp4_inode_permission_def security_of_def)
  then show ?thesis
    using assms Check by (auto simp: returns_def mp4_inode_permission_eq decision_def mp4_has_permission_def Let_def
        result_simps split: option.splits if_splits)
next
  case (Label c inode dup nm v l out)
  then obtain p where "security s c = Some p"
    using assms(2) by (cases "security s c") (auto simp: mp4_inode_init_security_def security_of_def)
  then show ?thesis
    using assms Label by (auto simp: returns_def mp4_inode_init_security_code init_code_def result_simps split: if_splits)
next
  case (Exec bprm val)
  then obtain p where "security s (bprm_cred bprm) = Some p"
    using assms(2) by (cases "security s (bprm_cred bprm)") (auto simp: mp4_bprm_set_creds_def security_of_def)
  then show ?thesis
    using assms Exec inode_sid_range [of k val "bprm_inode bprm"]
    by (auto simp: returns_def mp4_bprm_set_creds_eq result_simps split: if_splits)
qed (use assms in \<open>auto simp: returns_def mp4_cred_alloc_blank_def mp4_cred_prepare_def mp4_cred_free_def flags_at_def
      result_simps label_defs Let_def split: option.splits if_splits\<close>)

theorem hooks_typed_witness:
  "0 \<in> returns (Prepare 2 1 (Some 11)) \<and> MP4_TARGET_SID \<in> {0..7}"
proof -
  have run: "lsm_run example_lsm (Prepare 2 1 (Some 11)) target_state =
      Inr (0, target_state\<lparr>security := [0 \<mapsto> None, 1 \<mapsto> Some 10, 2 \<mapsto> Some 11],
        blobs := [10 \<mapsto> MP4_TARGET_SID, 11 \<mapsto> MP4_TARGET_SID]\<rparr>)"
    by (simp add: lsm_eval)
  have "\<forall>a f. blobs target_state a = Some f \<longrightarrow> f \<in> {0..7}" by (simp add: target_state_def label_defs)
  from hooks_typed [OF this run] have "0 \<in> returns (Prepare 2 1 (Some 11))"
    "\<forall>a f. ([10 \<mapsto> MP4_TARGET_SID, 11 \<mapsto> MP4_TARGET_SID] :: addr \<Rightarrow> int option) a = Some f \<longrightarrow> f \<in> {0..7}"
    by simp_all
  from this(1) this(2) [rule_format, of 11 MP4_TARGET_SID] show ?thesis by simp
qed

section \<open>Failures and new inodes\<close>

text \<open>
  When a credential is prepared from one without a label and the allocation fails, the hook
  still reports success; the new credential has a null label, and the first access check for it
  on a path that is not skipped dereferences the null pointer.
\<close>

theorem prepare_failure_unlabelled:
  assumes "reach (\<lambda>s. \<exists>c. s = lsm_boot c) (lsm_step k) s"
    and "labels s old = Some None" "enabled (Prepare c old None) s"
    and "d_find_alias k inode = Some d" "dentry_path k d 255 = Some path" "\<not> mp4_should_skip_path path"
  shows "\<exists>t. lsm_run k (Prepare c old None) s = Inr (0, t) \<and> labels t c = Some None \<and>
    mp4_inode_permission k True val c inode msk t = Inl NullDeref"
proof -
  have inv: "lsm_inv s" using assms(1) by (rule lsm.reachable_inv)
  have "abstracts labels (lsm_run k (Prepare c old None) s) = Inr (0, (labels s)(c \<mapsto> None))"
    using lsm_labels.simulates [OF inv assms(3), of k] assms(2) by (simp add: created_def)
  then obtain t where t: "lsm_run k (Prepare c old None) s = Inr (0, t)" "labels t = (labels s)(c \<mapsto> None)"
    by (cases "lsm_run k (Prepare c old None) s") auto
  have inv': "lsm_inv t" using lsm_labels.keeps [OF inv assms(3) t(1)] .
  have "security t c \<noteq> None" using t(2) by (auto simp: labels_def fun_eq_iff split: option.splits dest: spec [of _ c])
  then have "\<exists>p. security t c = Some p" "label_of c t = Inl NullDeref"
    using label_of_labels [OF inv', of c] t(2) by (auto simp: label_read_def)
  then have "mp4_inode_permission k True val c inode msk t = Inl NullDeref"
    using assms(4-6) by (auto simp: mp4_inode_permission_eq decision_def)
  then show ?thesis using t by simp
qed

theorem prepare_failure_unlabelled_witness:
  "\<exists>t. lsm_run example_lsm (Prepare 1 0 None) (lsm_boot 0) = Inr (0, t) \<and>
     mp4_inode_permission example_lsm True None 1 2 4 t = Inl NullDeref"
  using prepare_failure_unlabelled [of example_lsm "lsm_boot 0" 0 1 2 2 "''/home/file''" None 4]
  by (auto simp: lsm_boot_def labels_def example_lsm_def mp4_should_skip_path_def strncmp_eq_def
      strcmp_eq_def cstr_def NUL_def intro: reach_start)

lemma read_back:
  "rights_of ssid (attribute_sid (Some ''read-write'')) = Access True (ssid = MP4_TARGET_SID) False"
  "rights_of ssid (attribute_sid (Some ''dir-write'')) = Access True (ssid = MP4_TARGET_SID) True"
proof -
  have "attribute_sid (Some ''read-write'') = 2" "attribute_sid (Some ''dir-write'') = 6"
    by (simp_all add: attribute_sid_def sid_eval)
  then show "rights_of ssid (attribute_sid (Some ''read-write'')) = Access True (ssid = MP4_TARGET_SID) False"
    "rights_of ssid (attribute_sid (Some ''dir-write'')) = Access True (ssid = MP4_TARGET_SID) True"
    by (simp_all add: rights_of_eq documented_rights_def label_defs top_access_def)
qed

text \<open>The rights on a file or directory that the target has created.\<close>

definition created_rights :: "bool \<Rightarrow> int \<Rightarrow> access" where
  "created_rights dir ssid = Access True (ssid = MP4_TARGET_SID) dir"

text \<open>
  C13: What a process creates, and who may use it later. A file or directory the target creates gets the
  attribute \<open>mp4\<close> with a value, \<open>read-write\<close> for a file and \<open>dir-write\<close> for a directory. Consider a later check of a labelled
  process, where the kernel finds a dentry and the path for the inode, the path is not one of those that are skipped (on the others
  everything is allowed), the filesystem has attributes and gives the value back, and the byte behind it in the heap block
  it is read into is NUL. That check lets the target read and write the object (and search a directory), lets every other process
  read (and search) it, and refuses others to write it. For a directory this is not what \<open>mp4_given.h\<close> says, which leaves
  processes other than the target to Linux's own access control there, and \<open>MP4/mp4.pdf\<close> wants \<open>read-write\<close> for everything the target
  creates. For any other labelled process that creates something
  the hook also reports success, with the attribute's name set and its value left as it was.
\<close>

theorem created_object_protected:
  assumes "label_of c s = Inr level" "S_ISREG (i_mode k inode) \<or> S_ISDIR (i_mode k inode)"
    and "d_find_alias k' inode = Some d" "has_getxattr k' inode"
    and "dentry_path k' d 255 = Some path" "\<not> mp4_should_skip_path path"
    and "reach (\<lambda>s. \<exists>c. s = lsm_boot c) (lsm_step k') t" "labels t c' = Some (Some ssid)"
  shows "\<exists>out'. mp4_inode_init_security k True c inode True True True out s = Inr (0, out') \<and>
    xname out' = Some XATTR_MP4_SUFFIX \<and>
    (level \<noteq> MP4_TARGET_SID \<longrightarrow> xvalue out' = xvalue out \<and> xlen out' = xlen out) \<and>
    (level = MP4_TARGET_SID \<longrightarrow>
      xvalue out' = Some (if S_ISDIR (i_mode k inode) then ''dir-write'' else ''read-write'') \<and>
      (getxattr k' d XATTR_NAME_MP4 255 = xvalue out' \<and> terminated (xvalue out') junk \<longrightarrow>
        (\<exists>r. mp4_inode_permission k' True (Some junk) c' inode msk t = Inr (r, t\<lparr>buffers := Suc (buffers t)\<rparr>) \<and>
          r \<in> {0, - EACCES} \<and>
          (r = 0 \<longleftrightarrow> access_of msk \<le> created_rights (S_ISDIR (i_mode k inode)) ssid))))"
proof -
  have one: "\<not> (S_ISREG (i_mode k inode) \<and> S_ISDIR (i_mode k inode))" by (auto simp: S_ISREG_def S_ISDIR_def)
  obtain p where p: "security_of c s = Inr p" "flags_at p s = Inr level"
    using assms(1) by (auto simp: label_of_def result_simps)
  define v where "v = (if S_ISDIR (i_mode k inode) then ''dir-write'' else ''read-write'')"
  have rights: "rights_of ssid (attribute_sid (Some v)) = created_rights (S_ISDIR (i_mode k inode)) ssid"
    by (simp add: v_def created_rights_def read_back)
  have check: "\<exists>r. mp4_inode_permission k' True (Some junk) c' inode msk t =
      Inr (r, t\<lparr>buffers := Suc (buffers t)\<rparr>) \<and> r \<in> {0, - EACCES} \<and>
      (r = 0 \<longleftrightarrow> access_of msk \<le> created_rights (S_ISDIR (i_mode k inode)) ssid)"
    if "getxattr k' d XATTR_NAME_MP4 255 = Some v" "terminated (Some v) junk"
    using permission_decided [OF assms(7,8), of junk inode msk] assms(3-6) that(1) rights terminated_sid [OF that(2)] by simp
  show ?thesis
  proof (cases "level = MP4_TARGET_SID")
    case True
    have "mp4_inode_init_security k True c inode True True True out s =
        Inr (0, out\<lparr>xname := Some XATTR_MP4_SUFFIX, xvalue := Some v, xlen := Some (length v)\<rparr>)"
      using p True assms(2) one by (auto simp: mp4_inode_init_security_def v_def)
    then show ?thesis using True check by (simp add: v_def)
  next
    case False
    then show ?thesis using p by (simp add: mp4_inode_init_security_def)
  qed
qed

theorem created_object_protected_witness:
  "\<exists>out'. mp4_inode_init_security example_lsm True 1 5 True True True \<lparr>xname = None, xvalue = None, xlen = None\<rparr>
     target_state = Inr (0, out') \<and> xname out' = Some ''mp4'' \<and> xvalue out' = Some ''read-write'' \<and>
   (\<exists>t. mp4_inode_permission example_lsm True (Some (replicate 256 NUL)) 1 5 2 target_state = Inr (0, t))"
proof -
  have l: "label_of 1 target_state = Inr 7" "S_ISREG (i_mode example_lsm 5) \<or> S_ISDIR (i_mode example_lsm 5)"
    "\<not> S_ISDIR (i_mode example_lsm 5)" "labels target_state 1 = Some (Some 7)" "7 = MP4_TARGET_SID"
    by (simp_all add: lsm_eval label_defs S_ISREG_def S_ISDIR_def example_lsm_def labels_def)
  have k: "d_find_alias example_lsm 5 = Some 5" "has_getxattr example_lsm 5" "dentry_path example_lsm 5 255 = Some ''/home/file''"
    "getxattr example_lsm 5 XATTR_NAME_MP4 255 = Some ''read-write''"
    by (simp_all add: example_lsm_def)
  have skip: "\<not> mp4_should_skip_path ''/home/file''"
    by (simp add: mp4_should_skip_path_def strncmp_eq_def strcmp_eq_def cstr_def NUL_def)
  have granted: "access_of 2 \<le> created_rights (S_ISDIR (i_mode example_lsm 5)) 7"
    using l(3,5) by (simp add: created_rights_def access_of_def less_eq_access_def bit_simps)
  have ended: "terminated (Some ''read-write'') (replicate 256 NUL)" by (rule blank_terminated) auto
  show ?thesis
    using created_object_protected [OF l(1,2) k(1-3) skip target_reached l(4),
        of "\<lparr>xname = None, xvalue = None, xlen = None\<rparr>" "replicate 256 NUL" 2]
      granted l(3,5) k(4) ended
    by (elim exE) (rule exI, auto simp: XATTR_MP4_SUFFIX_def)
qed

end
