(* ===== verification/Mp4_Scripts.thy ===== *)
theory Mp4_Scripts
  imports Mp4_Props
begin

text \<open>
  The two permission scripts \<open>MP4/passwd.perm\<close> and \<open>MP4/test.perm\<close> as label assignments, and the access decision
  of the module on a system to which one of them has been applied.
\<close>

section \<open>The scripts\<close>

text \<open>One pair of path and label for each \<open>setfattr -n security.mp4\<close>.\<close>

definition passwd_perm :: "(string \<times> string) list" where
  "passwd_perm =
     [(''/usr/bin/passwd'', ''target''),
      (''/etc/shadow'', ''read-only''),
      (''/etc/.pwd.lock'', ''read-write'')]"

definition test_perm :: "(string \<times> string) list" where
  "test_perm =
     [(''/bin/cat'', ''target''),
      (''/home'', ''dir''),
      (''/home/hg5'', ''dir''),
      (''/home/hg5/file.txt'', ''read-only'')]"

text \<open>The files have the attributes the script sets, and no others.\<close>

definition applied :: "(string \<times> string) list \<Rightarrow> lsm_kernel \<Rightarrow> bool" where
  "applied script k \<longleftrightarrow> (\<forall>d path. dentry_path k d 255 = Some path \<longrightarrow> getxattr k d XATTR_NAME_MP4 255 = map_of script path)"

text \<open>The label the script gives to a path.\<close>

abbreviation script_sid :: "(string \<times> string) list \<Rightarrow> string \<Rightarrow> int" where
  "script_sid script path \<equiv> attribute_sid (map_of script path)"

lemma scripted_decision:
  assumes "reach (\<lambda>s. \<exists>c. s = lsm_boot c) (lsm_step k) s" "labels s c = Some (Some ssid)"
    "applied script k" "d_find_alias k inode = Some d" "has_getxattr k inode"
    "dentry_path k d 255 = Some path" "\<not> mp4_should_skip_path path"
    and ended: "terminated (getxattr k d XATTR_NAME_MP4 255) junk"
  shows "\<exists>r. mp4_inode_permission k True (Some junk) c inode msk s =
      Inr (r, s\<lparr>buffers := Suc (buffers s)\<rparr>) \<and> r \<in> {0, - EACCES} \<and>
    (r = 0 \<longleftrightarrow> access_of msk \<le> rights_of ssid (script_sid script path))"
proof -
  have "getxattr k d XATTR_NAME_MP4 255 = map_of script path" using assms(3,6) by (simp add: applied_def)
  then show ?thesis
    using permission_decided [OF assms(1,2), of junk inode msk] assms(4-7) terminated_sid [OF ended] by simp
qed

text \<open>The rights the scripts give, path by path; the program itself lies on a path that is not checked.\<close>

lemma label_sids:
  "cred_ctx_to_sid ''target'' = MP4_TARGET_SID" "cred_ctx_to_sid ''read-only'' = MP4_READ_OBJ"
  "cred_ctx_to_sid ''read-write'' = MP4_READ_WRITE" "cred_ctx_to_sid ''dir'' = MP4_READ_DIR"
  by (simp_all add: sid_eval)

lemma sid_rights:
  "rights_of ssid MP4_NO_ACCESS = (if ssid = MP4_TARGET_SID then bot else top)"
  "rights_of ssid MP4_READ_OBJ = Access True False False"
  "rights_of ssid MP4_READ_WRITE = Access True (ssid = MP4_TARGET_SID) False"
  "rights_of ssid MP4_READ_DIR = Access True False True"
  by (simp_all add: rights_of_eq documented_rights_def label_defs bot_access_def)

lemma program_skipped:
  "script = passwd_perm \<or> script = test_perm \<Longrightarrow> map_of script prog = Some ''target'' \<Longrightarrow> mp4_should_skip_path prog"
  by (auto simp: passwd_perm_def test_perm_def mp4_should_skip_path_def strncmp_eq_def cstr_def NUL_def split: if_splits)

lemma passwd_rights:
  assumes "\<not> mp4_should_skip_path path"
  shows "rights_of ssid (script_sid passwd_perm path) =
    (if path = ''/etc/shadow'' then Access True False False
     else if path = ''/etc/.pwd.lock'' then Access True (ssid = MP4_TARGET_SID) False
     else if ssid = MP4_TARGET_SID then bot else top)"
proof -
  have "mp4_should_skip_path ''/usr/bin/passwd''"
    by (simp add: mp4_should_skip_path_def strncmp_eq_def cstr_def NUL_def)
  then have "path \<noteq> ''/usr/bin/passwd''" using assms by blast
  then show ?thesis by (auto simp: attribute_sid_def passwd_perm_def label_sids sid_rights)
qed

lemma test_rights:
  assumes "\<not> mp4_should_skip_path path"
  shows "rights_of ssid (script_sid test_perm path) =
    (if path \<in> {''/home'', ''/home/hg5''} then Access True False True
     else if path = ''/home/hg5/file.txt'' then Access True False False
     else if ssid = MP4_TARGET_SID then bot else top)"
proof -
  have "mp4_should_skip_path ''/bin/cat''"
    by (simp add: mp4_should_skip_path_def strncmp_eq_def cstr_def NUL_def)
  then have "path \<noteq> ''/bin/cat''" using assms by blast
  then show ?thesis by (auto simp: attribute_sid_def test_perm_def label_sids sid_rights)
qed

section \<open>The decisions\<close>

text \<open>
  C15: The whole system under the two scripts, for a labelled process and any heap block in which the byte behind the attribute that is
  read into it is NUL, on an inode whose filesystem has attributes and whose dentry and path the kernel finds and the module does
  not skip. With \<open>passwd.perm\<close> everybody may only read
  \<open>/etc/shadow\<close>, all may read \<open>/etc/.pwd.lock\<close> and only the target may write it; with \<open>test.perm\<close> everybody may read
  and search \<open>/home\<close> and \<open>/home/hg5\<close> and read the file in it; and on every other path the target gets no right at all
  while all other processes are left alone. That nobody may write \<open>/home\<close> and \<open>/home/hg5\<close> holds for
  processes other than the target too, which \<open>mp4_given.h\<close> would leave to Linux's own access control. The program that a script
  labels target is itself on a path that is not checked.
\<close>

theorem scripts_decide:
  assumes "reach (\<lambda>s. \<exists>c. s = lsm_boot c) (lsm_step k) s" "labels s c = Some (Some ssid)"
    and "d_find_alias k inode = Some d" "has_getxattr k inode"
    and "dentry_path k d 255 = Some path" "\<not> mp4_should_skip_path path"
    and "script = passwd_perm \<or> script = test_perm" "applied script k"
    and "terminated (getxattr k d XATTR_NAME_MP4 255) junk"
  shows "(\<exists>r. mp4_inode_permission k True (Some junk) c inode msk s =
      Inr (r, s\<lparr>buffers := Suc (buffers s)\<rparr>) \<and> r \<in> {0, - EACCES} \<and>
    (r = 0 \<longleftrightarrow> access_of msk \<le>
      (if script = passwd_perm \<and> path = ''/etc/shadow'' then Access True False False
       else if script = passwd_perm \<and> path = ''/etc/.pwd.lock'' then Access True (ssid = MP4_TARGET_SID) False
       else if script = test_perm \<and> path \<in> {''/home'', ''/home/hg5''} then Access True False True
       else if script = test_perm \<and> path = ''/home/hg5/file.txt'' then Access True False False
       else if ssid = MP4_TARGET_SID then bot else top))) \<and>
    (\<forall>prog. map_of script prog = Some ''target'' \<longrightarrow> mp4_should_skip_path prog)"
proof -
  note decided = scripted_decision [OF assms(1,2,8,3-6,9), of msk]
  have ne: "test_perm \<noteq> passwd_perm" by (simp add: passwd_perm_def test_perm_def)
  have "rights_of ssid (script_sid script path) =
      (if script = passwd_perm \<and> path = ''/etc/shadow'' then Access True False False
       else if script = passwd_perm \<and> path = ''/etc/.pwd.lock'' then Access True (ssid = MP4_TARGET_SID) False
       else if script = test_perm \<and> path \<in> {''/home'', ''/home/hg5''} then Access True False True
       else if script = test_perm \<and> path = ''/home/hg5/file.txt'' then Access True False False
       else if ssid = MP4_TARGET_SID then bot else top)"
    using assms(7)
  proof
    assume "script = passwd_perm"
    then show ?thesis by (simp only: passwd_rights [OF assms(6)] ne [symmetric] simp_thms if_False)
  next
    assume "script = test_perm"
    then show ?thesis by (simp only: test_rights [OF assms(6)] ne simp_thms if_False)
  qed
  with decided show ?thesis using program_skipped assms(7) by (simp only:) blast
qed

text \<open>
  A system with \<open>passwd.perm\<close>: dentries 1 to 4 are the three labelled files and \<open>/etc\<close>. The process that has executed
  the program is the target; it may read \<open>/etc/shadow\<close>, but it may not search \<open>/etc\<close>, on the way to it.
\<close>

definition passwd_path :: "addr \<Rightarrow> string" where
  "passwd_path d = (if d = 1 then ''/usr/bin/passwd'' else if d = 2 then ''/etc/shadow''
     else if d = 3 then ''/etc/.pwd.lock'' else ''/etc'')"

definition passwd_lsm :: lsm_kernel where
  "passwd_lsm = \<lparr>d_find_alias = Some, has_getxattr = (\<lambda>_. True),
     getxattr = (\<lambda>d _ _. map_of passwd_perm (passwd_path d)), dentry_path = (\<lambda>d _. Some (passwd_path d)),
     i_mode = (\<lambda>_. 0x81A4)\<rparr>"

lemma passwd_applied: "applied passwd_perm passwd_lsm"
  by (simp add: applied_def passwd_lsm_def)

lemma passwd_ended: "terminated (getxattr passwd_lsm d XATTR_NAME_MP4 255) (replicate 256 NUL)"
  by (rule blank_terminated) (auto simp: passwd_lsm_def passwd_perm_def split: if_splits)

lemma passwd_running: "reach (\<lambda>s. \<exists>c. s = lsm_boot c) (lsm_step passwd_lsm) target_state"
proof -
  have "inode_sid passwd_lsm blank_buffer 1 = Inr 7"
    using terminated_sid [OF passwd_ended [of 1]] label_sids(1)
    by (simp add: inode_sid_def passwd_lsm_def passwd_path_def blank_buffer_def attribute_sid_def passwd_perm_def label_defs)
  then have "run_all (lsm_run passwd_lsm) example_calls (lsm_boot 0) = Inr ([0, 0], target_state)"
    "all_ok enabled (lsm_run passwd_lsm) example_calls (lsm_boot 0)"
    by (simp_all add: example_calls_def lsm_eval label_defs)
  then show ?thesis using lsm_runs [OF reach_start] by blast
qed

theorem scripts_decide_witness:
  "(\<exists>t. mp4_inode_permission passwd_lsm True (Some (replicate 256 NUL)) 1 2 4 target_state = Inr (0, t)) \<and>
   (\<exists>t. mp4_inode_permission passwd_lsm True (Some (replicate 256 NUL)) 1 4 1 target_state = Inr (- EACCES, t))"
proof -
  have l: "labels target_state 1 = Some (Some MP4_TARGET_SID)" by (simp add: target_state_def labels_def)
  have k: "d_find_alias passwd_lsm d = Some d" "has_getxattr passwd_lsm d" "dentry_path passwd_lsm d 255 = Some (passwd_path d)" for d
    by (simp_all add: passwd_lsm_def)
  have skip: "\<not> mp4_should_skip_path (passwd_path 2)" "\<not> mp4_should_skip_path (passwd_path 4)"
    by (simp_all add: passwd_path_def mp4_should_skip_path_def strncmp_eq_def strcmp_eq_def cstr_def NUL_def)
  have a: "access_of 4 = Access True False False" "access_of 1 = Access False False True"
    by (simp_all add: access_of_def bit_simps)
  have p: "passwd_perm \<noteq> test_perm" by (simp add: passwd_perm_def test_perm_def)
  note decide = scripts_decide [OF passwd_running l k(1,2,3) _ _ passwd_applied passwd_ended]
  show ?thesis
    using decide [OF skip(1), of 4] decide [OF skip(2), of 1] p unfolding a
    by (auto simp: passwd_path_def less_eq_access_def bot_access_def EACCES_def)
qed

end
