(* ===== verification/Spec2Isabelle.thy ===== *)
theory Spec2Isabelle
  imports Mp1_Race_Props Mp1_Session Mp2_App_Props Mp2_Walk_Props Mp2_Wakeup_Props Mp2_Experiment Mp3_Shared_Props Mp3_Race_Props Mp4_Scripts
begin

text \<open>
  A verification of four Linux 4.4 kernel modules and their user programs.

  \<^bold>\<open>The program.\<close> The repository holds four independent pieces of kernel code.
  \<open>MP1\<close> is a module that lists registered processes with their CPU time, refreshed by a timer.
  \<open>MP2\<close> is a rate-monotonic scheduler: processes register with a period and a processing time,
  pass admission control, yield at the end of each period, and a kernel thread gives the
  processor to the READY task of the shortest period. \<open>MP3\<close> is a profiler: a delayed work samples the
  page faults and CPU time of registered processes into a buffer that user space maps.
  \<open>MP4\<close> is a security module: labels of files and processes decide about access. In the first three,
  user programs talk to the module through \<open>/proc/mp<n>/status\<close>: writing is a command, reading gives the
  list.

  \<^bold>\<open>The theories.\<close>
  \<^item> \<open>Prelude\<close>: words at the C widths, pointers as optional addresses, the faults a path can end
    in, the result type with its sequencing \<open>rbind\<close>, reachability, and the contracts that are used by all
    modules: \<open>inductive_invariant\<close> (an invariant of a step relation), \<open>recorded_invariant\<close> (an invariant that speaks of the
    record of the events so far), \<open>operation_refinement\<close> (calls on
    a detailed state implement calls on an abstract one) and the rule \<open>run_all_ends\<close>.
  \<^item> \<open>CString\<close>: C strings in memory, decimal printing and scanning, \<open>strsep\<close>, \<open>strcmp\<close>,
    \<open>strncmp\<close>, \<open>sscanf\<close> into a local; the contract \<open>decimal_codec\<close>.
  \<^item> \<open>Binary64\<close>: the \<open>double\<close> arithmetic of the user programs as rounded exact arithmetic (round to
    nearest, ties to even), its exactness, error bounds and monotonicity, and \<open>%f\<close>.
  \<^item> \<open>ProcFile\<close>: the printing loop of the read handlers and the contract \<open>proc_status_file\<close> of a
    status file with its static end-of-file flag, interpreted by MP1, MP2 and MP3.
  \<^item> \<open>Registry\<close>: the contract \<open>pid_registry\<close> of register and deregister, interpreted by MP2 and MP3.
  \<^item> \<open>Mp1\<close> (\<open>MP1/mp1.c\<close>, \<open>MP1/mp1_given.h\<close>, \<open>MP1/userapp.c\<close>) and \<open>Mp1_Props\<close>;
    \<open>Mp1_Interleaving\<close> (its file operations and timer handler as threads that take turns) and \<open>Mp1_Race_Props\<close>;
    \<open>Mp1_Session\<close> (the user program run on the module).
  \<^item> \<open>Mp2_Scheduler\<close> (\<open>MP2/scheduler.c\<close>), \<open>Mp2_Admission\<close> (the invariant and the operations
    in closed form), \<open>Mp2_Main\<close> (\<open>MP2/mp2_main.c\<close>), \<open>Mp2_Safety\<close> (every step keeps the invariant)
    and \<open>Mp2_Props\<close>; \<open>Mp2_Interleaving\<close> (the same operations as threads that take turns between their
    critical sections), \<open>Mp2_Races\<close> (the invariant of all interleavings), \<open>Mp2_Rounds\<close> (wake-ups during a round),
    \<open>Mp2_Lost_Updates\<close> (updates of the utility that are lost) and
    \<open>Mp2_Race_Props\<close>; \<open>Mp2_Timer_Walk\<close> (the timer callback's walk of the list, node by node beside those threads) and \<open>Mp2_Walk_Props\<close>;
    \<open>Mp2_Job\<close> (the busy loop and the measurements of \<open>MP2/userapp.h\<close>), \<open>Mp2_App\<close> (\<open>MP2/userapp.c\<close> and the
    commands of \<open>MP2/userapp.h\<close>), \<open>Mp2_Session\<close> (the program as the only task of the module) and \<open>Mp2_App_Props\<close>;
    \<open>Mp2_Wakeup\<close> (the effect of each step in closed form, and that no wake-up is lost between whole handlers; \<open>Task_yeild\<close> cut at its
    \<open>schedule()\<close>), \<open>Mp2_Drain\<close> (the READY tasks as a queue that the rounds serve) and \<open>Mp2_Wakeup_Props\<close>;
    \<open>Mp2_Demand\<close> (demand of periodic tasks and the hyperbolic bound), \<open>Mp2_Periodic\<close> (recurring tasks under fixed priorities as the
    specification, with their deadlines), \<open>Mp2_Schedule\<close> (runs of the module in time), \<open>Mp2_Ticks\<close> (they implement that
    specification) and \<open>Mp2_Schedule_Props\<close> (admitted tasks meet their deadlines, and programs of such tasks end); \<open>Mp2_Experiment\<close> (whole experiments, from loading the module to
    unloading it).
  \<^item> \<open>Mp3_Profiler\<close> (\<open>MP3/profiler.c\<close>, \<open>MP3/mp3_given.h\<close>), \<open>Mp3_Main\<close> (\<open>MP3/mp3_main.c\<close>),
    \<open>Mp3_Ring\<close> (the sample buffer as a ring over the history of samples), \<open>Mp3_Safety\<close> (the
    invariant, with the record of the samples taken in a run), \<open>Mp3_App\<close> (\<open>MP3/monitor.c\<close>, \<open>MP3/work.c\<close>), \<open>Mp3_Stream\<close> (the profiler's
    samples as the next run of the monitor prints them), \<open>Mp3_Shared\<close> (both at the same time, cut at every access to the
    shared buffer), \<open>Mp3_Session\<close> (whole experiments), \<open>Mp3_Props\<close> and \<open>Mp3_Shared_Props\<close>; \<open>Mp3_Races\<close> (registrations,
    deregistrations and the delayed work taking turns) and \<open>Mp3_Race_Props\<close>.
  \<^item> \<open>Mp4_Given\<close> (\<open>MP4/mp4_given.h\<close>), \<open>Mp4\<close> (\<open>MP4/mp4.c\<close>), \<open>Mp4_Policy\<close> (the lattice of
    access rights and the documented policy), \<open>Mp4_Lifecycle\<close> (ownership of labels and the
    refinement to a machine on plain labels), \<open>Mp4_Trace\<close> (runs as histories: where the label target comes from), \<open>Mp4_Props\<close> and \<open>Mp4_Scripts\<close> (the labels that \<open>MP4/passwd.perm\<close> and
    \<open>MP4/test.perm\<close> set, and the decisions of a system that has them).

  \<^bold>\<open>How state and operations correspond.\<close> Each module's globals are one record (\<open>mp1_state\<close>,
  \<open>mp2_state\<close>, \<open>mp3_state\<close>, \<open>lsm_state\<close>) and each C function is one definition of the same name, from
  state to result and state; a name that two modules share has the suffix \<open>_mp1\<close> or \<open>_mp3\<close>.
  Kernel lists are HOL lists. Where pointers into a list are kept (\<open>ct\<close> and the slab objects of MP2,
  the label objects of MP4) the objects live in a map from addresses, so that a read through a
  stale pointer is the fault \<open>UseAfterFree\<close>; the nodes of MP1 and MP3 are never pointed at
  from outside and are list elements. A null dereference, a zero divisor, a write past the end
  of a buffer, waiting for a lock that nobody will release, and setting up a pending timer are faults too. What the kernel supplies
  (process lookup, clock, allocators, page frames, inode attributes) is a field of a kernel
  record or an argument.

  \<^bold>\<open>Conventions.\<close> Handlers run one after the other, each to its end; a lock is a flag, and
  asking for one that is held is \<open>Deadlock\<close>, since its holder has already returned. This is so in \<open>mp2_step\<close>, and what is shown of \<open>mp2_step\<close>, and of \<open>app_step\<close> and
  \<open>rm_tick\<close>, which are made of the same handlers, holds of runs in which no handler and no timer comes within another handler or
  a round of the dispatching thread. Where the interleaving inside handlers matters it is explicit: the scheduler of MP2 has a second step relation, \<open>par_step\<close>, in which any number
  of callers, the dispatching thread and the timers take turns, a turn being one critical section or, outside
  of the sections, the test of \<open>total_util\<close>, its load, its store, or the allocation of an object (which the allocator may place where a freed
  one was); what a deregistration subtracts from \<open>total_util\<close> is a part of its critical section. \<open>uninterrupted_thread\<close> ties it to the atomic operations. There the dispatching thread goes back to sleep
  after its round, as in the code, so a wake-up that comes during the round is lost; between atomic handlers none can
  come then. \<open>walk_step\<close> adds the timer callback, which holds the spin lock over many turns, one access to a node each
  (\<open>uninterrupted_callback\<close> ties it to \<open>fire_timer\<close>). \<open>mp1_par_step\<close> and
  \<open>mp1_threads_alone\<close> are the same for MP1. Profiler and monitor of MP3, which share memory without
  a lock, take turns by single stores and loads in \<open>shared_turns\<close>, and \<open>sides_alone\<close> ties them to the whole functions. In \<open>mp3_par_step\<close> the profiler's own
  operations take turns: a registration walks the list without the lock, one access to a node per turn, the other sections hold it and
  are one turn, and the work's unlock and its queueing are two; each run has the record of the samples it takes, in which a section of the work has one for
  each process in the order of the list; \<open>mp3_callers_alone\<close> ties it to the whole operations. The call of
  \<open>schedule()\<close> in a yield returns, since the line is written by a shell and not by the process that is put to sleep; only
  \<open>yeild_written_by\<close> takes the writing process as an argument. In
  \<open>rm_tick\<close> a task computes while it is the current one, the dispatching thread runs as soon as it has been woken, and what the thread and
  the handlers themselves compute takes no time. A command the user programs give to the shell is what \<open>echo\<close> writes to
  the status file or what \<open>cat\<close> reads from it. A timer or a work that was
  started and waits for the lock is a flag of the state (\<open>handler_due\<close>, \<open>running\<close>), and the two halves of
  the profiler's registration are separate definitions. Allocation of read and write buffers and the copies from and to user
  space succeed, mutex waits are not interrupted, and \<open>printk\<close> is left out.

  \<^bold>\<open>What is shown.\<close> For MP2: the invariant of all reachable states, absence of reads of freed
  objects, exact admission and what it is for: admitted tasks that keep to their declared times meet every deadline, and whole experiments end, with a module that unloads cleanly; the rate-monotonic choice, the effect of
  preemption, yield and timer, that no wake-up is lost between whole handlers and that READY tasks are served by period, and the paths on which the module stops
  working; under interleaving, what
  survives (live distinct objects; and, as long as nobody deregisters, no stale pointer, and a total that is never more than what is listed or about to be, also with the timer's walk cut node by node) and the
  interleavings that break the rest: a pid listed twice, a limit that is passed, updates of \<open>total_util\<close> that are lost, freed objects that are read, and wake-ups lost during a round; for its user program, complete runs, what they make the module do, and busy loops and printed times
  against exact time. For MP3: the
  buffer is the ring of all samples recorded since loading, in every interleaving, a run samples each process once, the monitor terminates and what it
  prints, alone, after a whole experiment and beside the profiler, what callers that take turns keep and what they break, and the dead ends of
  locking and unloading. For MP1: the periodic refresh, its exact effect, what the user program prints, what survives
  interleaved callers and the race of the first two. For the three status files: what several readers get. For MP4: labels are owned by one credential, the hooks refine a machine on plain labels,
  only inheritance and \<open>exec\<close> of a target file make a target and only targets so made write labelled objects, the access decision in full and
  against its documentation, integrity of labelled objects, the protection of what the target creates, the whole system under the shipped scripts, how labels are read from the heap, and the types
  of the hooks' results. Neither \<open>getxattr\<close> nor the module ends an attribute with NUL, so the label that is read (\<open>cred_ctx_to_sid\<close> of the block) is the
  attribute's own (\<open>attribute_sid\<close>) only where the block happens to be \<open>terminated\<close> behind it; the statements on labels of files assume that.
  The module checks directories for every process, where \<open>mp4_given.h\<close> wants only the target checked.

  \<^bold>\<open>Bounds and fuel.\<close> \<open>drain\<close> (a reader of a status file) and \<open>monitor_loop\<close> take fuel, and
  \<open>None\<close> is running out of it. Two reads drain a file; \<open>monitor_terminates\<close> shows that 48002 rounds are
  enough for every buffer, because each round marks one more of 48001 entries as read. All other loops are
  structural or have a measure (\<open>mmap_loop\<close>, \<open>find_start\<close>). The busy loop of MP1's user program runs over a
  list of clock readings; that of MP2's takes fuel, and any fuel larger than the number of readings until 90 milliseconds
  have passed is enough (\<open>job_returns\<close>). \<open>run_thread\<close> takes fuel too, and no operation has more than six steps.
  \<open>rm_ticks\<close> runs a given number
  of jiffies. The deadlines are for at most 154 tasks: each may lose one unit of \<open>1 / 2 ^ 20\<close> to rounding, and
  \<open>ln 2\<close> is 154 units above the limit of admission control.
  The error bounds of the clock arithmetic are for readings before 2038 (\<open>timeval_ok\<close>).

  \<^bold>\<open>Not modelled.\<close> The headers with only include directives, build files, scripts, plots, data and
  reports; interleaving of the timer's walk with the single stores of an insertion or removal under the mutex, which are one turn; registrations during
  a run in time (a first yield takes the current task off, see \<open>two_tasks_running\<close>); interrupts that hit a held spin lock of MP1; reordering of
  stores by compiler or processor; infinities and exponent bounds of \<open>double\<close>, which the programs' values do not reach.
\<close>

section \<open>The three status files\<close>

text \<open>
  C39: The status files of the three modules under several readers. Each keeps one end-of-file flag for all
  readers, so of any number of reads in a row, whoever makes them, every other one gets the whole list and
  the ones between get nothing: a process that starts to read right after another one's first read sees an empty
  file, and the other reads the list a second time.
\<close>

theorem status_files_alternate:
  assumes "reach mp1_start mp1_step s1" "length (mp1_contents s1) < n"
    and "unlocked s2" "length (mp2_contents s2) < n"
    and "\<not> mp3_state.lock s3" "length (mp3_contents s3) < n"
  shows "(\<exists>t. reads mp1_read n m s1 = Inr (map (\<lambda>i. if even i = finished s1 then [] else mp1_contents s1) [0..<m], t)) \<and>
    (\<exists>t. reads mp2_read n m s2 =
      Inr (map (\<lambda>i. if even i = mp2_state.read_finished s2 then [] else mp2_contents s2) [0..<m], t)) \<and>
    (\<exists>t. reads mp3_read n m s3 =
      Inr (map (\<lambda>i. if even i = mp3_state.read_finished s3 then [] else mp3_contents s3) [0..<m], t))"
proof -
  have "\<not> mp1_state.lock s1" using mp1.reachable_inv [OF assms(1)] by (simp add: mp1_inv_def)
  then show ?thesis
    using mp1_file.reads_alternate [of s1 n m] mp2_file.reads_alternate [of s2 n m] mp3_file.reads_alternate [of s3 n m] assms
    by blast
qed

theorem status_files_alternate_witness:
  "(\<exists>t. reads mp1_read 4096 2 two_listed = Inr ([mp1_contents two_listed, []], t)) \<and>
   (\<exists>t. reads mp2_read 4096 3 first_running = Inr ([mp2_contents first_running, [], mp2_contents first_running], t)) \<and>
   (\<exists>t. reads mp3_read 4096 3 (with_pid 1) = Inr ([mp3_contents (with_pid 1), [], mp3_contents (with_pid 1)], t))"
proof -
  have l: "length (mp1_contents two_listed) < 4096"
    by (simp add: two_listed_def mp1_contents_def process_line_def show_u_def show_d_def show_int_def show_dec.simps)
  have m: "length (mp2_contents first_running) < 4096"
    by (simp add: mp2_contents_def eval view_defs task_line_def show_u_def show_dec.simps)
  have p: "length (mp3_contents (with_pid 1)) < 4096"
    by (simp add: mp3_contents_def with_pid_def new_mp3_task_def pid_line_def show_d_def show_int_def show_dec.simps)
  have f: "\<not> finished two_listed" "\<not> mp2_state.read_finished first_running" "\<not> mp3_state.read_finished (with_pid 1)"
    "\<not> mp3_state.lock (with_pid 1)"
    by (simp_all add: mp1_states eval with_pid_def fresh_mp3_def mp3_static_def)
  show ?thesis
    using status_files_alternate [OF listed_reach l first_running_unlocked m f(4) p, of 2]
      status_files_alternate [OF listed_reach l first_running_unlocked m f(4) p, of 3] f(1-3)
    by (simp add: upt_rec)
qed

end
